(* ===== verification/RpcPrelude.thy ===== *)
theory RpcPrelude
  imports Complex_Main "HOL-Library.Word"
begin

text \<open>
  Shared vocabulary of the development: machine integers, byte strings, the byte order of
  the host, the memory operations (\<^verbatim>\<open>memcpy\<close>, \<^verbatim>\<open>htons\<close>, \<^verbatim>\<open>htonl\<close>, \<^verbatim>\<open>__builtin_bswap64\<close>) the
  sources use, the clock, and the rounding function that stands for IEEE double arithmetic.
  The lemmas about splitting a word into bytes and putting it together again are stated once
  here for words of every width.
\<close>

unbundle bit_operations_syntax

section \<open>Machine types\<close>

type_synonym byte = "8 word"
type_synonym bytes = "byte list"    \<comment> \<open>\<^verbatim>\<open>std::string\<close> and \<^verbatim>\<open>const char*\<close> buffers\<close>
type_synonym u16 = "16 word"
type_synonym u32 = "32 word"
type_synonym u64 = "64 word"

text \<open>The bytes of a C string literal.\<close>

definition lit :: "string \<Rightarrow> bytes" where
  "lit s = map of_char s"

named_theorems wire_simps \<open>rewrite rules for reading back what was written\<close>

section \<open>Words as bytes\<close>

definition le_bytes :: "nat \<Rightarrow> 'a::len word \<Rightarrow> bytes" where
  "le_bytes n w = map (\<lambda>i. ucast (drop_bit (8 * i) w)) [0..<n]"

primrec of_le_bytes :: "bytes \<Rightarrow> 'a::len word" where
  "of_le_bytes [] = 0"
| "of_le_bytes (b # bs) = ucast b OR push_bit 8 (of_le_bytes bs)"

lemma length_le_bytes [simp]: "length (le_bytes n w) = n"
  by (simp add: le_bytes_def)

lemma bit_of_le_bytes:
  "bit (of_le_bytes bs :: 'a::len word) k \<longleftrightarrow>
     k < LENGTH('a) \<and> k div 8 < length bs \<and> bit (bs ! (k div 8)) (k mod 8)"
proof (induction bs arbitrary: k)
  case Nil
  then show ?case by simp
next
  case (Cons b bs)
  show ?case
  proof (cases "k < 8")
    case True
    then show ?thesis
      by (auto simp: bit_or_iff bit_push_bit_iff bit_unsigned_iff)
  next
    case False
    then obtain j where j: "k = j + 8" by (metis add.commute le_Suc_ex not_less)
    have "bit b k = False" using False bit_imp_le_length by fastforce
    then show ?thesis
      using Cons.IH [of j]
      by (auto simp: j bit_or_iff bit_push_bit_iff bit_unsigned_iff dest: bit_imp_le_length)
  qed
qed

lemma of_le_bytes_le_bytes:
  assumes "LENGTH('a) \<le> 8 * n"
  shows "of_le_bytes (le_bytes n w) = (w :: 'a::len word)"
proof (rule bit_word_eqI)
  fix k assume "k < LENGTH('a)"
  then have "k div 8 < n" using assms by auto
  then show "bit (of_le_bytes (le_bytes n w) :: 'a word) k = bit w k"
    using \<open>k < LENGTH('a)\<close>
    by (simp add: bit_of_le_bytes le_bytes_def bit_unsigned_iff bit_drop_bit_eq)
qed

lemma le_bytes_of_le_bytes:
  assumes "8 * length bs \<le> LENGTH('a)"
  shows "le_bytes (length bs) (of_le_bytes bs :: 'a::len word) = bs"
proof (rule nth_equalityI)
  show "length (le_bytes (length bs) (of_le_bytes bs :: 'a word)) = length bs" by simp
  fix i assume "i < length (le_bytes (length bs) (of_le_bytes bs :: 'a word))"
  then have i: "i < length bs" by simp
  show "le_bytes (length bs) (of_le_bytes bs :: 'a word) ! i = bs ! i"
  proof (rule bit_word_eqI)
    fix k assume k: "k < LENGTH(8)"
    then have "8 * i + k < LENGTH('a)" using i assms by auto
    then show "bit (le_bytes (length bs) (of_le_bytes bs :: 'a word) ! i) k = bit (bs ! i) k"
      using i k by (simp add: le_bytes_def bit_unsigned_iff bit_drop_bit_eq bit_of_le_bytes)
  qed
qed

section \<open>Byte order of the host\<close>

text \<open>
  \<^verbatim>\<open>memcpy(dst, &x, n)\<close> copies the object representation of the integer \<open>x\<close>, whose byte order
  is the host's. \<open>host_bytes\<close> is that representation and \<open>of_host_bytes\<close> the value read back.
  \<open>bswap\<close> is \<^verbatim>\<open>__builtin_bswap16/32/64\<close>; \<open>hton\<close> is \<^verbatim>\<open>htons\<close>, \<^verbatim>\<open>htonl\<close> and their inverses, which swap
  on a little-endian host and do nothing on a big-endian one.
\<close>

datatype endian = Little | Big

definition host_bytes :: "endian \<Rightarrow> nat \<Rightarrow> 'a::len word \<Rightarrow> bytes" where
  "host_bytes e n w = (case e of Little \<Rightarrow> le_bytes n w | Big \<Rightarrow> rev (le_bytes n w))"

definition of_host_bytes :: "endian \<Rightarrow> bytes \<Rightarrow> 'a::len word" where
  "of_host_bytes e bs = (case e of Little \<Rightarrow> of_le_bytes bs | Big \<Rightarrow> of_le_bytes (rev bs))"

definition bswap :: "nat \<Rightarrow> 'a::len word \<Rightarrow> 'a word" where
  "bswap n w = of_le_bytes (rev (le_bytes n w))"

definition hton :: "endian \<Rightarrow> nat \<Rightarrow> 'a::len word \<Rightarrow> 'a word" where
  "hton e n w = (case e of Little \<Rightarrow> bswap n w | Big \<Rightarrow> w)"

text \<open>Network byte order: the most significant byte first.\<close>

definition be_bytes :: "nat \<Rightarrow> 'a::len word \<Rightarrow> bytes" where
  "be_bytes n w = rev (le_bytes n w)"

lemma length_host_bytes [simp]: "length (host_bytes e n w) = n"
  by (cases e) (simp_all add: host_bytes_def)

lemma length_be_bytes [simp]: "length (be_bytes n w) = n"
  by (simp add: be_bytes_def)

lemma le_bytes_bswap:
  assumes "8 * n = LENGTH('a)"
  shows "le_bytes n (bswap n w) = rev (le_bytes n (w :: 'a::len word))"
  using le_bytes_of_le_bytes [of "rev (le_bytes n w)", where 'a = 'a] assms
  by (simp add: bswap_def)

lemma bswap_bswap:
  assumes "8 * n = LENGTH('a)"
  shows "bswap n (bswap n w) = (w :: 'a::len word)"
  using assms by (simp add: bswap_def [of n "bswap n w"] le_bytes_bswap of_le_bytes_le_bytes)

text \<open>Whatever the host, storing \<open>hton x\<close> puts the bytes of \<open>x\<close> in network order.\<close>

lemma host_bytes_hton:
  assumes "8 * n = LENGTH('a)"
  shows "host_bytes e n (hton e n w) = be_bytes n (w :: 'a::len word)"
  using assms by (cases e) (simp_all add: host_bytes_def hton_def be_bytes_def le_bytes_bswap)

text \<open>Whatever the host, loading network-order bytes and converting gives the number back.\<close>

lemma hton_of_host_bytes:
  assumes "8 * n = LENGTH('a)"
  shows "hton e n (of_host_bytes e (be_bytes n w)) = (w :: 'a::len word)"
proof (cases e)
  case Little
  have "of_le_bytes (be_bytes n w) = bswap n w"
    by (simp add: be_bytes_def bswap_def)
  with Little show ?thesis
    using assms by (simp add: hton_def of_host_bytes_def bswap_bswap)
next
  case Big
  then show ?thesis
    using assms by (simp add: hton_def of_host_bytes_def be_bytes_def of_le_bytes_le_bytes)
qed

lemma of_host_bytes_host_bytes:
  assumes "LENGTH('a) \<le> 8 * n"
  shows "of_host_bytes e (host_bytes e n w) = (w :: 'a::len word)"
  using assms by (cases e) (simp_all add: host_bytes_def of_host_bytes_def of_le_bytes_le_bytes)

text \<open>\<^verbatim>\<open>memcpy(out + off, src, length src)\<close> into an existing buffer, and reading \<open>n\<close> bytes at \<open>off\<close>.\<close>

definition memcpy_at :: "nat \<Rightarrow> bytes \<Rightarrow> bytes \<Rightarrow> bytes" where
  "memcpy_at off src out = take off out @ src @ drop (off + length src) out"

definition bytes_at :: "nat \<Rightarrow> nat \<Rightarrow> bytes \<Rightarrow> bytes" where
  "bytes_at off n buf = take n (drop off buf)"

lemma length_memcpy_at [simp]:
  "off + length src \<le> length out \<Longrightarrow> length (memcpy_at off src out) = length out"
  by (simp add: memcpy_at_def)

lemma memcpy_at_prefix:
  "off = length pre \<Longrightarrow> memcpy_at off src (pre @ post) = pre @ src @ drop (length src) post"
  by (simp add: memcpy_at_def)

section \<open>Time and floating point\<close>

text \<open>
  \<^verbatim>\<open>std::chrono::steady_clock\<close> counts nanoseconds; a time point is the integer count and
  \<open>msec\<close> converts a \<^verbatim>\<open>std::chrono::milliseconds\<close> to it. A function of the source that reads the
  clock takes the readings as arguments, in the order it makes them.
  A finite \<^verbatim>\<open>double\<close> is the rational it denotes; every arithmetic operation rounds its exact result
  with a function \<open>rnd\<close>, a parameter of the definitions that compute with doubles.
\<close>

type_synonym time = int

definition msec :: "int \<Rightarrow> time" where
  "msec n = n * 1000000"

text \<open>\<^verbatim>\<open>duration_cast<milliseconds>\<close>, which truncates towards zero.\<close>

definition to_ms :: "time \<Rightarrow> int" where
  "to_ms d = (if d \<ge> 0 then d div 1000000 else - ((- d) div 1000000))"

type_synonym rounding = "rat \<Rightarrow> rat"

lemma msec_mono [simp]: "msec a \<le> msec b \<longleftrightarrow> a \<le> b"
  by (simp add: msec_def)

lemma msec_pos [simp]: "0 < msec a \<longleftrightarrow> 0 < a"
  by (simp add: msec_def)

lemma to_ms_msec [simp]: "to_ms (msec n) = n"
  using nonzero_mult_div_cancel_right [of 1000000 "- n"] by (simp add: to_ms_def msec_def)

lemma to_ms_ge:
  assumes "0 < n"
  shows "n \<le> to_ms d \<longleftrightarrow> msec n \<le> d"
proof (cases "0 \<le> d")
  case True
  have "d = 1000000 * (d div 1000000) + d mod 1000000" "0 \<le> d mod 1000000" "d mod 1000000 < 1000000"
    by simp_all
  with True have "n \<le> d div 1000000 \<longleftrightarrow> n * 1000000 \<le> d" by linarith
  with True show ?thesis by (simp add: to_ms_def msec_def)
next
  case False
  then have "0 \<le> (- d) div 1000000" by (simp add: div_int_pos_iff)
  with assms False show ?thesis by (simp add: to_ms_def msec_def)
qed

section \<open>Decimal numbers\<close>

text \<open>\<^verbatim>\<open>std::to_string\<close> of an unsigned number: its decimal digits.\<close>

fun dec_string :: "nat \<Rightarrow> bytes" where
  "dec_string n = (if n < 10 then [0x30 + of_nat n] else dec_string (n div 10) @ [0x30 + of_nat (n mod 10)])"

declare dec_string.simps [simp del]

lemma dec_string_step:
  "n < 10 \<Longrightarrow> dec_string n = [0x30 + of_nat n]"
  "10 \<le> n \<Longrightarrow> dec_string n = dec_string (n div 10) @ [0x30 + of_nat (n mod 10)]"
  by (simp_all add: dec_string.simps [of n])

text \<open>Reading a decimal number back.\<close>

definition of_dec_string :: "bytes \<Rightarrow> nat" where
  "of_dec_string bs = foldl (\<lambda>n b. 10 * n + unat (b - 0x30)) 0 bs"

lemma of_dec_string_dec_string: "of_dec_string (dec_string n) = n"
proof (induction n rule: dec_string.induct)
  case (1 n)
  have digit: "unat ((0x30 + of_nat k :: byte) - 0x30) = k" if "k < 10" for k using that by (simp add: unat_of_nat)
  show ?case
  proof (cases "n < 10")
    case True
    then show ?thesis using digit [of n] by (simp add: dec_string.simps [of n] of_dec_string_def)
  next
    case False
    then show ?thesis
      using "1.IH" digit [of "n mod 10"] by (simp add: dec_string.simps [of n] of_dec_string_def)
  qed
qed

lemma dec_string_inj: "dec_string m = dec_string n \<Longrightarrow> m = n"
  by (metis of_dec_string_dec_string)

section \<open>Counters\<close>

text \<open>One step up below another value, and one step down above zero, do not wrap around.\<close>

lemma unat_succ:
  assumes "(v :: 'a::len word) < w"
  shows "unat (v + 1) = Suc (unat v)"
proof -
  have "unat v + 1 < 2 ^ LENGTH('a)"
    using assms unsigned_less [of w, where 'a = nat] unfolding word_less_nat_alt by linarith
  then show ?thesis
    by (simp add: unat_word_ariths)
qed

lemma unat_ucast_u64: "unat (ucast (w :: u32) :: u64) = unat w"
  using unsigned_less [of w, where 'a = nat] by (simp add: unsigned_ucast_eq take_bit_nat_eq_self)

lemma unat_pred: "(v :: 'a::len word) \<noteq> 0 \<Longrightarrow> unat (v - 1) = unat v - 1"
  by (metis unat_minus_one)

end
