(* ===== verification/Buffer.thy ===== *)
theory Buffer
  imports RpcPrelude
begin

text \<open>
  \<^verbatim>\<open>include/Buffer.h\<close>, \<^verbatim>\<open>src/Buffer.cpp\<close>: the growable byte buffer every connection reads into and writes
  from. The record keeps the vector and the two indices as the class does; \<open>contents\<close> is the byte
  string between the indices, which is all a client can observe. The locale \<open>byte_queue\<close> states the
  contract the framer and the connections rely on (a first-in first-out byte string), and the
  interpretation at the end discharges it for the vector with two indices.
  Sizes are \<open>nat\<close>: the indices never exceed the size of the vector (\<open>buffer_ok\<close>), so the
  \<^verbatim>\<open>size_t\<close> subtractions of the source never wrap.
\<close>

record buffer =
  buf_data :: bytes
  readIndex :: nat
  writeIndex :: nat

definition new_buffer :: "nat \<Rightarrow> buffer" where
  "new_buffer initialSize = \<lparr>buf_data = replicate initialSize 0, readIndex = 0, writeIndex = 0\<rparr>"

definition readableBytes :: "buffer \<Rightarrow> nat" where
  "readableBytes b = writeIndex b - readIndex b"

definition writableBytes :: "buffer \<Rightarrow> nat" where
  "writableBytes b = length (buf_data b) - writeIndex b"

text \<open>\<^verbatim>\<open>peek\<close> returns a pointer into the vector: the bytes from the read index to its end.\<close>

definition peek :: "buffer \<Rightarrow> bytes" where
  "peek b = drop (readIndex b) (buf_data b)"

definition retrieveAll :: "buffer \<Rightarrow> buffer" where
  "retrieveAll b = b\<lparr>readIndex := 0, writeIndex := 0\<rparr>"

definition retrieve :: "nat \<Rightarrow> buffer \<Rightarrow> buffer" where
  "retrieve len b =
     (if readableBytes b \<le> len then retrieveAll b
      else b\<lparr>readIndex := readIndex b + len\<rparr>)"

definition reset :: "buffer \<Rightarrow> buffer" where
  "reset b = retrieveAll b"

definition retrieveAsString :: "nat \<Rightarrow> buffer \<Rightarrow> bytes \<times> buffer" where
  "retrieveAsString len b =
     (let len' = min len (readableBytes b) in (take len' (peek b), retrieve len' b))"

definition retrieveAllAsString :: "buffer \<Rightarrow> bytes \<times> buffer" where
  "retrieveAllAsString b = retrieveAsString (readableBytes b) b"

definition ensureWritableBytes :: "nat \<Rightarrow> buffer \<Rightarrow> buffer" where
  "ensureWritableBytes len b =
     (if len \<le> writableBytes b then b
      else let required = writeIndex b + len;
               newSize = max required (length (buf_data b) * 2)
           in b\<lparr>buf_data := buf_data b @ replicate (newSize - length (buf_data b)) 0\<rparr>)"

text \<open>\<open>None\<close> is the null pointer; the length argument is the length of the byte string.\<close>

definition append_ptr :: "bytes option \<Rightarrow> buffer \<Rightarrow> buffer" where
  "append_ptr data b =
     (case data of
        None \<Rightarrow> b
      | Some d \<Rightarrow>
          if length d = 0 then b
          else let b1 = ensureWritableBytes (length d) b
               in b1\<lparr>buf_data := memcpy_at (writeIndex b1) d (buf_data b1),
                     writeIndex := writeIndex b1 + length d\<rparr>)"

definition buf_append :: "bytes \<Rightarrow> buffer \<Rightarrow> buffer" where
  "buf_append d b = append_ptr (Some d) b"

section \<open>Invariant and abstraction\<close>

definition buffer_ok :: "buffer \<Rightarrow> bool" where
  "buffer_ok b \<longleftrightarrow> readIndex b \<le> writeIndex b \<and> writeIndex b \<le> length (buf_data b)"

definition contents :: "buffer \<Rightarrow> bytes" where
  "contents b = take (writeIndex b - readIndex b) (drop (readIndex b) (buf_data b))"

lemma new_buffer_ok [simp]: "buffer_ok (new_buffer n)"
  by (simp add: buffer_ok_def new_buffer_def)

lemma contents_new [simp]: "contents (new_buffer n) = []"
  by (simp add: contents_def new_buffer_def)

lemma readableBytes_contents: "buffer_ok b \<Longrightarrow> readableBytes b = length (contents b)"
  by (auto simp: buffer_ok_def readableBytes_def contents_def)

lemma take_peek:
  "n \<le> readableBytes b \<Longrightarrow> take n (peek b) = take n (contents b)"
  by (simp add: peek_def contents_def readableBytes_def min_def)

lemma retrieveAll_ok [simp]: "buffer_ok (retrieveAll b)"
  by (simp add: buffer_ok_def retrieveAll_def)

lemma contents_retrieveAll [simp]: "contents (retrieveAll b) = []"
  by (simp add: contents_def retrieveAll_def)

lemma retrieve_ok [simp]: "buffer_ok b \<Longrightarrow> buffer_ok (retrieve n b)"
  by (auto simp: retrieve_def buffer_ok_def readableBytes_def retrieveAll_def)

lemma contents_retrieve: "buffer_ok b \<Longrightarrow> contents (retrieve n b) = drop n (contents b)"
proof (cases "readableBytes b \<le> n")
  case True
  moreover assume "buffer_ok b"
  ultimately show ?thesis
    by (simp add: retrieve_def readableBytes_contents)
next
  case False
  then show ?thesis
    by (simp add: retrieve_def contents_def readableBytes_def drop_take add.commute)
qed

lemma retrieveAsString_spec:
  assumes "buffer_ok b" and "retrieveAsString n b = (s, b')"
  shows "s = take n (contents b)" and "contents b' = drop n (contents b)" and "buffer_ok b'"
  using assms readableBytes_contents [OF assms(1)]
  by (auto simp: retrieveAsString_def Let_def take_peek contents_retrieve min_def)

lemma ensureWritableBytes_props:
  "writeIndex (ensureWritableBytes n b) = writeIndex b"
  "readIndex (ensureWritableBytes n b) = readIndex b"
  "writeIndex b \<le> length (buf_data b) \<Longrightarrow>
     writeIndex b + n \<le> length (buf_data (ensureWritableBytes n b))"
  "writeIndex b \<le> length (buf_data b) \<Longrightarrow>
     take (writeIndex b) (buf_data (ensureWritableBytes n b)) = take (writeIndex b) (buf_data b)"
  by (auto simp: ensureWritableBytes_def writableBytes_def Let_def)

lemma buf_append_ok [simp]: "buffer_ok b \<Longrightarrow> buffer_ok (buf_append d b)"
  using ensureWritableBytes_props [where n = "length d" and b = b]
  by (auto simp: buf_append_def append_ptr_def buffer_ok_def Let_def)

lemma contents_buf_append:
  assumes "buffer_ok b"
  shows "contents (buf_append d b) = contents b @ d"
proof (cases "d = []")
  case True
  then show ?thesis by (simp add: buf_append_def append_ptr_def)
next
  case False
  define w where "w = writeIndex b"
  define r where "r = readIndex b"
  define b1 where "b1 = ensureWritableBytes (length d) b"
  have bounds: "r \<le> w" "w \<le> length (buf_data b)"
    using assms by (auto simp: buffer_ok_def w_def r_def)
  have b1: "writeIndex b1 = w" "readIndex b1 = r" "w + length d \<le> length (buf_data b1)"
    "take w (buf_data b1) = take w (buf_data b)"
    using ensureWritableBytes_props [where n = "length d" and b = b] bounds by (simp_all add: b1_def w_def r_def)
  have "contents (buf_append d b) =
      take (w + length d - r) (drop r (take w (buf_data b) @ d @ drop (w + length d) (buf_data b1)))"
    using False b1 by (simp add: buf_append_def append_ptr_def Let_def contents_def memcpy_at_def
        flip: b1_def)
  also have "\<dots> = drop r (take w (buf_data b)) @ d"
    using bounds by simp
  also have "\<dots> = contents b @ d"
    by (simp add: contents_def w_def r_def drop_take)
  finally show ?thesis .
qed

section \<open>The interface the readers of a buffer rely on\<close>

locale byte_queue =
  fixes ok :: "'b \<Rightarrow> bool"
    and bytes_of :: "'b \<Rightarrow> bytes"
    and put :: "bytes \<Rightarrow> 'b \<Rightarrow> 'b"
    and skip :: "nat \<Rightarrow> 'b \<Rightarrow> 'b"
    and take_str :: "nat \<Rightarrow> 'b \<Rightarrow> bytes \<times> 'b"
    and clear :: "'b \<Rightarrow> 'b"
  assumes put_bytes: "ok q \<Longrightarrow> bytes_of (put d q) = bytes_of q @ d"
    and skip_bytes: "ok q \<Longrightarrow> bytes_of (skip n q) = drop n (bytes_of q)"
    and take_bytes: "ok q \<Longrightarrow> fst (take_str n q) = take n (bytes_of q)"
    and take_rest: "ok q \<Longrightarrow> bytes_of (snd (take_str n q)) = drop n (bytes_of q)"
    and clear_bytes: "bytes_of (clear q) = []"
    and ok_put: "ok q \<Longrightarrow> ok (put d q)"
    and ok_skip: "ok q \<Longrightarrow> ok (skip n q)"
    and ok_take: "ok q \<Longrightarrow> ok (snd (take_str n q))"
    and ok_clear: "ok (clear q)"
begin

lemmas queue_laws = put_bytes skip_bytes take_bytes take_rest clear_bytes ok_put ok_skip ok_take ok_clear

text \<open>Writing chunk after chunk is writing their concatenation.\<close>

lemma fold_put: "ok q \<Longrightarrow> ok (fold put ds q) \<and> bytes_of (fold put ds q) = bytes_of q @ concat ds"
  by (induction ds arbitrary: q) (simp_all add: queue_laws)

text \<open>Skipping a prefix and taking the next bytes cuts a frame out of the front of the queue.\<close>

lemma skip_take:
  "ok q \<Longrightarrow> fst (take_str m (skip n q)) = take m (drop n (bytes_of q)) \<and>
     bytes_of (snd (take_str m (skip n q))) = drop (n + m) (bytes_of q) \<and>
     ok (snd (take_str m (skip n q)))"
  by (simp add: queue_laws add.commute)

text \<open>What was put in comes out, in order and unchanged, whatever was queued before.\<close>

lemma put_take:
  assumes "ok q"
  shows "fst (take_str (length d) (skip (length (bytes_of q)) (put d q))) = d"
  using skip_take [OF ok_put [OF assms]] assms by (simp add: put_bytes)

end

interpretation bq: byte_queue buffer_ok contents buf_append retrieve retrieveAsString retrieveAll
proof unfold_locales
  fix q n assume ok: "buffer_ok q"
  obtain s q' where "retrieveAsString n q = (s, q')" by (cases "retrieveAsString n q")
  with retrieveAsString_spec [OF ok this]
  show "fst (retrieveAsString n q) = take n (contents q)"
    and "contents (snd (retrieveAsString n q)) = drop n (contents q)"
    and "buffer_ok (snd (retrieveAsString n q))" by simp_all
qed (simp_all add: contents_buf_append contents_retrieve)

end
