(* ===== verification/Protocol.thy ===== *)
theory Protocol
  imports RpcPrelude
begin

text \<open>
  \<^verbatim>\<open>include/Protocol.h\<close>, \<^verbatim>\<open>include/Message.h\<close>: the 32-byte wire header, the message record, the protocol
  constants and the FNV-1a hash behind method ids. The codec is modelled with the offsets, the
  \<^verbatim>\<open>hton*\<close> calls and the \<^verbatim>\<open>memcpy\<close> calls of the source, for a host of either byte order; the lemmas
  show that the bytes on the wire do not depend on the host and that a header survives the trip
  between hosts of different byte order.
\<close>

section \<open>Header and message\<close>

record rpc_header =
  hdr_magic :: u16
  hdr_version :: byte
  hdr_flags :: byte
  hdr_msgType :: byte
  hdr_status :: u16
  hdr_requestId :: u32
  hdr_methodId :: u32
  hdr_timeoutMs :: u32
  hdr_bodyLen :: u32
  hdr_traceId :: u64
  hdr_reserved :: byte

text \<open>The header a declaration \<^verbatim>\<open>RpcHeader h;\<close> produces: every member is zero.\<close>

definition zero_header :: rpc_header where
  "zero_header = \<lparr>hdr_magic = 0, hdr_version = 0, hdr_flags = 0, hdr_msgType = 0, hdr_status = 0,
     hdr_requestId = 0, hdr_methodId = 0, hdr_timeoutMs = 0, hdr_bodyLen = 0, hdr_traceId = 0,
     hdr_reserved = 0\<rparr>"

record message =
  msg_header :: rpc_header
  msg_body :: bytes

section \<open>Constants\<close>

definition kMagic :: u16 where "kMagic = 0x4D50"
definition kVersion :: byte where "kVersion = 2"
definition kHeaderSize :: nat where "kHeaderSize = 32"
definition kMaxBodyLen :: u32 where "kMaxBodyLen = 64 * 1024 * 1024"

definition kMsgRequest :: byte where "kMsgRequest = 0"
definition kMsgResponse :: byte where "kMsgResponse = 1"
definition kMsgOneway :: byte where "kMsgOneway = 2"
definition kMsgHeartbeat :: byte where "kMsgHeartbeat = 3"
definition kMsgHeartbeatAck :: byte where "kMsgHeartbeatAck = 4"

text \<open>
  \<^verbatim>\<open>enum Status : uint16_t\<close>. The sources cast any 16-bit number read from the wire to it, so a status
  is the 16-bit word itself.
\<close>

type_synonym status = u16

definition kOk :: status where "kOk = 0"
definition kInvalidArgument :: status where "kInvalidArgument = 1"
definition kMethodNotFound :: status where "kMethodNotFound = 2"
definition kSerializationError :: status where "kSerializationError = 3"
definition kInternalError :: status where "kInternalError = 4"
definition kDeadlineExceeded :: status where "kDeadlineExceeded = 5"
definition kRequestTooLarge :: status where "kRequestTooLarge = 6"
definition kUnknown :: status where "kUnknown = 7"
definition kShuttingDown :: status where "kShuttingDown = 8"
definition kConcurrencyLimited :: status where "kConcurrencyLimited = 9"

lemmas msg_type_defs =
  kMsgRequest_def kMsgResponse_def kMsgOneway_def kMsgHeartbeat_def kMsgHeartbeatAck_def

lemma msg_types_distinct [simp]:
  "kMsgRequest \<noteq> kMsgResponse" "kMsgRequest \<noteq> kMsgOneway" "kMsgRequest \<noteq> kMsgHeartbeat" "kMsgRequest \<noteq> kMsgHeartbeatAck"
  "kMsgResponse \<noteq> kMsgRequest" "kMsgResponse \<noteq> kMsgOneway" "kMsgResponse \<noteq> kMsgHeartbeat" "kMsgResponse \<noteq> kMsgHeartbeatAck"
  "kMsgOneway \<noteq> kMsgRequest" "kMsgOneway \<noteq> kMsgResponse" "kMsgOneway \<noteq> kMsgHeartbeat" "kMsgOneway \<noteq> kMsgHeartbeatAck"
  "kMsgHeartbeat \<noteq> kMsgRequest" "kMsgHeartbeat \<noteq> kMsgResponse" "kMsgHeartbeat \<noteq> kMsgOneway" "kMsgHeartbeat \<noteq> kMsgHeartbeatAck"
  "kMsgHeartbeatAck \<noteq> kMsgRequest" "kMsgHeartbeatAck \<noteq> kMsgResponse" "kMsgHeartbeatAck \<noteq> kMsgOneway" "kMsgHeartbeatAck \<noteq> kMsgHeartbeat"
  by (simp_all add: msg_type_defs)

lemmas status_defs =
  kOk_def kInvalidArgument_def kMethodNotFound_def kSerializationError_def kInternalError_def
  kDeadlineExceeded_def kRequestTooLarge_def kUnknown_def kShuttingDown_def kConcurrencyLimited_def

lemma unat_kMaxBodyLen: "unat kMaxBodyLen = 67108864"
  by (simp add: kMaxBodyLen_def)

section \<open>Method ids\<close>

definition fnv1a32_step :: "u32 \<Rightarrow> byte \<Rightarrow> u32" where
  "fnv1a32_step hash c = (hash XOR ucast c) * 16777619"

definition fnv1a32 :: "bytes \<Rightarrow> u32" where
  "fnv1a32 data = foldl fnv1a32_step 2166136261 data"

text \<open>\<^verbatim>\<open>strlen\<close> stops at the first zero byte of the key.\<close>

definition methodIdOf :: "bytes \<Rightarrow> u32" where
  "methodIdOf methodKey = fnv1a32 (takeWhile (\<lambda>c. c \<noteq> 0) methodKey)"

text \<open>
  The multiplier is odd, hence invertible modulo 2 to the 32: a step loses nothing of the running
  hash, and two different bytes take the same hash to different ones.
\<close>

lemma fnv_prime_cancel:
  assumes "a * 16777619 = b * (16777619 :: u32)"
  shows "a = b"
proof -
  have inv: "(16777619 :: u32) * 899433627 = 1" by simp
  have "a * 16777619 * 899433627 = b * 16777619 * (899433627 :: u32)"
    using assms by simp
  then show ?thesis
    unfolding mult.assoc inv by simp
qed

lemma xor_cancel_left: "a XOR b = a XOR c \<Longrightarrow> b = (c :: 'a::len word)"
  by (metis xor.assoc xor.left_neutral xor_self_eq)

lemma ucast_byte_inj:
  assumes "ucast (a :: byte) = (ucast b :: u32)"
  shows "a = b"
proof (rule bit_word_eqI)
  fix n assume "n < LENGTH(8)"
  moreover have "bit (ucast a :: u32) n = bit (ucast b :: u32) n" using assms by simp
  ultimately show "bit a n = bit b n" by (simp add: bit_unsigned_iff)
qed

lemma fnv1a32_step_inj_byte: "fnv1a32_step h a = fnv1a32_step h b \<Longrightarrow> a = b"
  unfolding fnv1a32_step_def by (blast dest: fnv_prime_cancel xor_cancel_left ucast_byte_inj)

lemma fnv1a32_step_inj_hash:
  assumes "fnv1a32_step h c = fnv1a32_step k c"
  shows "h = k"
proof -
  have "ucast c XOR h = ucast c XOR k"
    using fnv_prime_cancel [OF assms [unfolded fnv1a32_step_def]] by (simp add: xor.commute)
  then show ?thesis by (rule xor_cancel_left)
qed

lemma fnv1a32_foldl_inj: "foldl fnv1a32_step h cs = foldl fnv1a32_step k cs \<Longrightarrow> h = k"
  by (induction cs arbitrary: h k) (auto dest: fnv1a32_step_inj_hash)

section \<open>The header codec\<close>

definition htonll64 :: "endian \<Rightarrow> u64 \<Rightarrow> u64" where
  "htonll64 e value = (case e of Little \<Rightarrow> bswap 8 value | Big \<Rightarrow> value)"

definition encodeHeader :: "endian \<Rightarrow> rpc_header \<Rightarrow> bytes \<Rightarrow> bytes" where
  "encodeHeader e h out =
     (let magic = hton e 2 (hdr_magic h);
          status = hton e 2 (hdr_status h);
          requestId = hton e 4 (hdr_requestId h);
          methodId = hton e 4 (hdr_methodId h);
          timeoutMs = hton e 4 (hdr_timeoutMs h);
          bodyLen = hton e 4 (hdr_bodyLen h);
          traceId = htonll64 e (hdr_traceId h);
          out = memcpy_at 0 (host_bytes e 2 magic) out;
          out = memcpy_at 2 [hdr_version h] out;
          out = memcpy_at 3 [hdr_flags h] out;
          out = memcpy_at 4 [hdr_msgType h] out;
          out = memcpy_at 5 (host_bytes e 2 status) out;
          out = memcpy_at 7 (host_bytes e 4 requestId) out;
          out = memcpy_at 11 (host_bytes e 4 methodId) out;
          out = memcpy_at 15 (host_bytes e 4 timeoutMs) out;
          out = memcpy_at 19 (host_bytes e 4 bodyLen) out;
          out = memcpy_at 23 (host_bytes e 8 traceId) out
      in memcpy_at 31 [hdr_reserved h] out)"

definition decodeHeader :: "endian \<Rightarrow> bytes \<Rightarrow> rpc_header \<times> bool" where
  "decodeHeader e inp =
     (let magic = of_host_bytes e (bytes_at 0 2 inp);
          status = of_host_bytes e (bytes_at 5 2 inp);
          requestId = of_host_bytes e (bytes_at 7 4 inp);
          methodId = of_host_bytes e (bytes_at 11 4 inp);
          timeoutMs = of_host_bytes e (bytes_at 15 4 inp);
          bodyLen = of_host_bytes e (bytes_at 19 4 inp);
          traceId = of_host_bytes e (bytes_at 23 8 inp);
          h = \<lparr>hdr_magic = hton e 2 magic, hdr_version = inp ! 2, hdr_flags = inp ! 3,
               hdr_msgType = inp ! 4, hdr_status = hton e 2 status,
               hdr_requestId = hton e 4 requestId, hdr_methodId = hton e 4 methodId,
               hdr_timeoutMs = hton e 4 timeoutMs, hdr_bodyLen = hton e 4 bodyLen,
               hdr_traceId = htonll64 e traceId, hdr_reserved = inp ! 31\<rparr>
      in (h, hdr_magic h = kMagic \<and> hdr_version h = kVersion))"

text \<open>The layout the comment of \<^verbatim>\<open>Protocol.h\<close> documents, in network byte order.\<close>

definition header_bytes :: "rpc_header \<Rightarrow> bytes" where
  "header_bytes h =
     be_bytes 2 (hdr_magic h) @ [hdr_version h, hdr_flags h, hdr_msgType h] @
     be_bytes 2 (hdr_status h) @ be_bytes 4 (hdr_requestId h) @ be_bytes 4 (hdr_methodId h) @
     be_bytes 4 (hdr_timeoutMs h) @ be_bytes 4 (hdr_bodyLen h) @ be_bytes 8 (hdr_traceId h) @
     [hdr_reserved h]"

lemma length_header_bytes [simp]: "length (header_bytes h) = 32"
  by (simp add: header_bytes_def)

lemma htonll64_hton: "htonll64 e v = hton e 8 v"
  by (simp add: htonll64_def hton_def)

lemma memcpy_at_next:
  "off = length pre \<Longrightarrow> memcpy_at off src (pre @ post) = (pre @ src) @ drop (length src) post"
  by (simp add: memcpy_at_def)

lemma encodeHeader_layout: "encodeHeader e h out = header_bytes h @ drop 32 out"
proof -
  have "encodeHeader e h ([] @ out) = header_bytes h @ drop 32 out"
    unfolding encodeHeader_def Let_def htonll64_hton
    by (simp add: memcpy_at_next host_bytes_hton del: append_assoc append_Nil)
       (simp add: header_bytes_def)
  then show ?thesis by simp
qed


lemma decodeHeader_header_bytes:
  "decodeHeader e (header_bytes h @ rest) = (h, hdr_magic h = kMagic \<and> hdr_version h = kVersion)"
  unfolding decodeHeader_def Let_def htonll64_hton header_bytes_def
  by (simp add: bytes_at_def nth_append nth_Cons' hton_of_host_bytes)

lemma be_bytes_of_host_bytes:
  assumes "8 * length bs = LENGTH('a)"
  shows "be_bytes (length bs) (hton e (length bs) (of_host_bytes e bs) :: 'a::len word) = bs"
proof (cases e)
  case Little
  have "le_bytes (length bs) (bswap (length bs) (of_le_bytes bs :: 'a word)) = rev bs"
    using assms by (simp add: le_bytes_bswap le_bytes_of_le_bytes)
  then show ?thesis by (simp add: Little be_bytes_def hton_def of_host_bytes_def)
next
  case Big
  have "le_bytes (length (rev bs)) (of_le_bytes (rev bs) :: 'a word) = rev bs"
    by (rule le_bytes_of_le_bytes) (simp add: assms)
  then show ?thesis by (simp add: Big be_bytes_def hton_def of_host_bytes_def)
qed

lemma be_bytes_at:
  assumes "8 * n = LENGTH('a)" and "off + n \<le> length bs"
  shows "be_bytes n (hton e n (of_host_bytes e (bytes_at off n bs)) :: 'a::len word) = bytes_at off n bs"
  using be_bytes_of_host_bytes [of "bytes_at off n bs" e, where 'a = 'a] assms
  by (simp add: bytes_at_def)

lemma bytes_at_split: "off + n \<le> length bs \<Longrightarrow> drop off bs = bytes_at off n bs @ drop (off + n) bs"
  by (simp add: bytes_at_def flip: drop_drop)
     (metis add.commute append_take_drop_id drop_drop)

text \<open>Every 32 bytes are the encoding of the header they decode to.\<close>

lemma header_bytes_decodeHeader:
  assumes "length bs = 32"
  shows "header_bytes (fst (decodeHeader e bs)) = bs"
proof -
  have step: "bytes_at i n bs @ drop (i + n) bs = drop i bs" if "i + n \<le> 32" for i n
    using that assms bytes_at_split [of i n bs] by simp
  have flags: "bs ! 2 # bs ! 3 # bs ! 4 # drop 5 bs = drop 2 bs"
    using assms Cons_nth_drop_Suc [of 2 bs] Cons_nth_drop_Suc [of 3 bs] Cons_nth_drop_Suc [of 4 bs]
    by simp
  have last: "[bs ! 31] = drop 31 bs"
    using assms Cons_nth_drop_Suc [of 31 bs] by simp
  have "bytes_at 0 2 bs @ drop 2 bs = bs" by (simp add: bytes_at_def)
  then show ?thesis
    using assms step [of 5 2] step [of 7 4] step [of 11 4] step [of 15 4] step [of 19 4] step [of 23 8]
    unfolding decodeHeader_def Let_def htonll64_hton header_bytes_def
    by (simp add: be_bytes_at flags last)
qed

lemma encodeHeader_decodeHeader:
  assumes "length bs = 32"
  shows "encodeHeader e' (fst (decodeHeader e bs)) out = bs @ drop 32 out"
  using header_bytes_decodeHeader [OF assms] by (simp add: encodeHeader_layout)

section \<open>Properties\<close>

text \<open>C21: Whatever the byte order of the two hosts, \<open>encodeHeader\<close> writes exactly the documented
  32-byte network-order layout into the front of the buffer and leaves the rest of the buffer alone,
  and \<open>decodeHeader\<close> on the receiving host returns the same header, accepting it exactly when the magic
  and the version are the protocol's.\<close>

theorem header_roundtrip:
  "encodeHeader e1 h out = header_bytes h @ drop 32 out \<and>
   decodeHeader e2 (encodeHeader e1 h out) =
     (h, hdr_magic h = kMagic \<and> hdr_version h = kVersion)"
  by (simp add: encodeHeader_layout decodeHeader_header_bytes)

lemma takeWhile_nonzero: "0 \<notin> set (xs :: bytes) \<Longrightarrow> takeWhile (\<lambda>c. c \<noteq> 0) xs = xs"
  by (metis (mono_tags, lifting) takeWhile_eq_all_conv)

text \<open>Two method keys without zero bytes that differ in exactly one byte never share a method id,
  whatever their length: the FNV-1a step is injective in the byte and in the running hash.\<close>

theorem methodIdOf_one_byte_apart:
  assumes "0 \<notin> set (pre @ a # post)" and "0 \<notin> set (pre @ b # post)" and "a \<noteq> b"
  shows "methodIdOf (pre @ a # post) \<noteq> methodIdOf (pre @ b # post)"
proof
  assume "methodIdOf (pre @ a # post) = methodIdOf (pre @ b # post)"
  then have "fnv1a32_step (foldl fnv1a32_step 2166136261 pre) a =
      fnv1a32_step (foldl fnv1a32_step 2166136261 pre) b"
    using takeWhile_nonzero [OF assms(1)] takeWhile_nonzero [OF assms(2)]
    by (auto simp: methodIdOf_def fnv1a32_def dest: fnv1a32_foldl_inj)
  then have "a = b" by (rule fnv1a32_step_inj_byte)
  with assms(3) show False ..
qed

theorem methodIdOf_one_byte_apart_witness:
  "0 \<notin> set (lit ''demo.ec'' @ 0x68 # lit ''o'') \<and>
   methodIdOf (lit ''demo.ec'' @ 0x68 # lit ''o'') \<noteq> methodIdOf (lit ''demo.ec'' @ 0x69 # lit ''o'')"
  using methodIdOf_one_byte_apart [of "lit ''demo.ec''" "0x68" "lit ''o''" "0x69"]
  by (simp add: lit_def)

end
