(* ===== verification/RpcFramer.thy ===== *)
theory RpcFramer
  imports Buffer Protocol
begin

text \<open>
  \<^verbatim>\<open>src/RpcFramer.cpp\<close>: the framing layer. \<open>RpcFramer_encode\<close> turns a message into a frame (header
  and body), \<open>RpcFramer_decode\<close> is the loop that cuts complete frames off the front of a buffer; the
  messages it returns are the arguments of the callback invocations, in order.
  \<open>deframe\<close> is the specification of that loop on plain byte strings; its third component says whether
  the loop met a header it rejects and drained the buffer. The refinement lemma ties the two
  through the \<open>byte_queue\<close> laws, and the streaming lemmas show that the split of the byte stream into
  reads does not matter as long as no header is rejected.
\<close>

section \<open>Encoding\<close>

definition RpcFramer_encode :: "endian \<Rightarrow> message \<Rightarrow> bytes" where
  "RpcFramer_encode e m =
     (if unat kMaxBodyLen < length (msg_body m) then []
      else let header = (msg_header m)\<lparr>hdr_magic := kMagic, hdr_version := kVersion,
                          hdr_bodyLen := of_nat (length (msg_body m))\<rparr>;
               frame = replicate (kHeaderSize + length (msg_body m)) 0;
               frame = encodeHeader e header frame
           in if msg_body m \<noteq> [] then memcpy_at kHeaderSize (msg_body m) frame else frame)"

text \<open>The message as it arrives: magic, version and body length are the ones the framer forces.\<close>

definition on_wire :: "message \<Rightarrow> message" where
  "on_wire m = m\<lparr>msg_header := (msg_header m)\<lparr>hdr_magic := kMagic, hdr_version := kVersion,
                    hdr_bodyLen := of_nat (length (msg_body m))\<rparr>\<rparr>"

section \<open>Decoding\<close>

lemma readableBytes_retrieve_less:
  "0 < n \<Longrightarrow> 0 < readableBytes b \<Longrightarrow> readableBytes (retrieve n b) < readableBytes b"
  by (auto simp: retrieve_def retrieveAll_def readableBytes_def)

lemma readableBytes_retrieve_le: "readableBytes (retrieve n b) \<le> readableBytes b"
  by (auto simp: retrieve_def retrieveAll_def readableBytes_def)

lemma readableBytes_retrieveAsString_le:
  "readableBytes (snd (retrieveAsString n b)) \<le> readableBytes b"
  by (simp add: retrieveAsString_def Let_def readableBytes_retrieve_le)

function RpcFramer_decode :: "endian \<Rightarrow> buffer \<Rightarrow> message list \<times> buffer" where
  "RpcFramer_decode e b =
     (if readableBytes b < kHeaderSize then ([], b)
      else let (header, valid) = decodeHeader e (peek b)
           in if \<not> valid then ([], retrieveAll b)
              else if kMaxBodyLen < hdr_bodyLen header then ([], retrieveAll b)
              else if readableBytes b < kHeaderSize + unat (hdr_bodyLen header) then ([], b)
              else let b1 = retrieve kHeaderSize b;
                       (body, b2) = (if 0 < hdr_bodyLen header
                                     then retrieveAsString (unat (hdr_bodyLen header)) b1
                                     else ([], b1));
                       (ms, b3) = RpcFramer_decode e b2
                   in (\<lparr>msg_header = header, msg_body = body\<rparr> # ms, b3))"
  by pat_completeness auto
termination
proof (relation "measure (\<lambda>(e, b). readableBytes b)", goal_cases)
  case 1
  then show ?case by simp
next
  case (2 e b x header valid b1 y body b2)
  have "readableBytes b1 < readableBytes b"
    using 2 by (simp add: kHeaderSize_def readableBytes_retrieve_less)
  moreover have "readableBytes b2 \<le> readableBytes b1"
    using 2 readableBytes_retrieveAsString_le [of "unat (hdr_bodyLen header)" b1]
    by (auto simp: prod_eq_iff split: if_splits)
  ultimately show ?case by simp
qed

declare RpcFramer_decode.simps [simp del]

section \<open>Specification on byte strings\<close>

text \<open>What the loop does with the bytes in front of it.\<close>

datatype frame_step = Rejected | Incomplete | Frame message bytes

definition next_frame :: "endian \<Rightarrow> bytes \<Rightarrow> frame_step" where
  "next_frame e bs =
     (if length bs < 32 then Incomplete
      else let (h, valid) = decodeHeader e bs
           in if \<not> valid \<or> kMaxBodyLen < hdr_bodyLen h then Rejected
              else if length bs < 32 + unat (hdr_bodyLen h) then Incomplete
              else Frame \<lparr>msg_header = h, msg_body = take (unat (hdr_bodyLen h)) (drop 32 bs)\<rparr>
                         (drop (32 + unat (hdr_bodyLen h)) bs))"

lemma next_frame_shorter: "next_frame e bs = Frame m rest \<Longrightarrow> length rest < length bs"
  by (auto simp: next_frame_def Let_def split: if_splits prod.splits)

function deframe :: "endian \<Rightarrow> bytes \<Rightarrow> message list \<times> bytes \<times> bool" where
  "deframe e bs =
     (case next_frame e bs of
        Incomplete \<Rightarrow> ([], bs, False)
      | Rejected \<Rightarrow> ([], [], True)
      | Frame m rest \<Rightarrow> let (ms, r, bad) = deframe e rest in (m # ms, r, bad))"
  by pat_completeness auto
termination
  by (relation "measure (\<lambda>(e, bs). length bs)") (auto dest: next_frame_shorter)

declare deframe.simps [simp del]


lemma next_frame_frame:
  assumes "unat (hdr_bodyLen h) = length body" and "length body \<le> unat kMaxBodyLen"
    and "hdr_magic h = kMagic" and "hdr_version h = kVersion"
  shows "next_frame e (header_bytes h @ body @ rest) = Frame \<lparr>msg_header = h, msg_body = body\<rparr> rest"
  using assms by (simp add: next_frame_def decodeHeader_header_bytes word_less_nat_alt)

lemma RpcFramer_encode_bytes:
  assumes "length (msg_body m) \<le> unat kMaxBodyLen"
  shows "RpcFramer_encode e m = header_bytes (msg_header (on_wire m)) @ msg_body m"
  using assms
  by (simp add: RpcFramer_encode_def Let_def encodeHeader_layout on_wire_def memcpy_at_def kHeaderSize_def)

lemma next_frame_encode:
  assumes "length (msg_body m) \<le> unat kMaxBodyLen"
  shows "next_frame e (RpcFramer_encode e' m @ rest) = Frame (on_wire m) rest"
proof -
  have "unat (of_nat (length (msg_body m)) :: u32) = length (msg_body m)"
    using assms by (simp add: unat_kMaxBodyLen unat_of_nat)
  then have "next_frame e (header_bytes (msg_header (on_wire m)) @ msg_body m @ rest) =
      Frame \<lparr>msg_header = msg_header (on_wire m), msg_body = msg_body m\<rparr> rest"
    using assms by (intro next_frame_frame) (simp_all add: on_wire_def)
  then show ?thesis
    using assms by (simp add: RpcFramer_encode_bytes) (simp add: on_wire_def)
qed

lemma deframe_encode:
  assumes "length (msg_body m) \<le> unat kMaxBodyLen"
  shows "deframe e (RpcFramer_encode e' m @ rest) =
    (let (ms, r, bad) = deframe e rest in (on_wire m # ms, r, bad))"
  by (subst deframe.simps) (simp add: next_frame_encode [OF assms])

lemma deframe_encode_all:
  assumes "\<forall>m \<in> set ms. length (msg_body m) \<le> unat kMaxBodyLen"
  shows "deframe e (concat (map (RpcFramer_encode e') ms) @ rest) =
    (let (ms', r, bad) = deframe e rest in (map on_wire ms @ ms', r, bad))"
  using assms by (induction ms) (auto simp: deframe_encode split: prod.splits)

section \<open>The buffer loop implements the specification\<close>

lemma bytes_at_take: "off + n \<le> k \<Longrightarrow> bytes_at off n (take k bs) = bytes_at off n bs"
  by (simp add: bytes_at_def drop_take)

lemma decodeHeader_take: "decodeHeader e (take 32 bs) = decodeHeader e bs"
  by (simp add: decodeHeader_def Let_def bytes_at_take)

lemma decodeHeader_peek:
  assumes "buffer_ok b" and "32 \<le> readableBytes b"
  shows "decodeHeader e (peek b) = decodeHeader e (contents b)"
  using take_peek [OF assms(2)] decodeHeader_take by metis

theorem RpcFramer_decode_refines:
  assumes "buffer_ok b"
  shows "let (ms, b') = RpcFramer_decode e b; (ms', r, bad) = deframe e (contents b)
    in ms = ms' \<and> contents b' = r \<and> buffer_ok b'"
  using assms
proof (induction e b rule: RpcFramer_decode.induct)
  case (1 e b)
  let ?h = "fst (decodeHeader e (contents b))" and ?ok = "snd (decodeHeader e (contents b))"
  let ?n = "unat (hdr_bodyLen ?h)"
  have len: "readableBytes b = length (contents b)"
    using "1.prems" by (rule readableBytes_contents)
  show ?case
  proof (cases "next_frame e (contents b)")
    case (Frame m rest)
    have c: "32 \<le> length (contents b)" "?ok" "\<not> kMaxBodyLen < hdr_bodyLen ?h"
      "32 + ?n \<le> length (contents b)" "m = \<lparr>msg_header = ?h, msg_body = take ?n (drop 32 (contents b))\<rparr>"
      "rest = drop (32 + ?n) (contents b)"
      using Frame by (auto simp: next_frame_def Let_def split: if_splits prod.splits)
    have peek: "decodeHeader e (peek b) = (?h, True)"
      using c(1,2) len "1.prems" by (simp add: decodeHeader_peek prod_eq_iff)
    have room: "\<not> readableBytes b < kHeaderSize" "\<not> readableBytes b < kHeaderSize + ?n"
      using c(1,4) len by (simp_all add: kHeaderSize_def)
    define b1 where "b1 = retrieve kHeaderSize b"
    define p where "p = (if 0 < hdr_bodyLen ?h then retrieveAsString ?n b1 else ([], b1))"
    have p: "fst p = take ?n (drop 32 (contents b))" "contents (snd p) = rest" "buffer_ok (snd p)"
      using "1.prems" bq.skip_take [OF "1.prems", of ?n 32]
      by (auto simp: p_def b1_def c(6) kHeaderSize_def contents_retrieve word_neq_0_conv [symmetric])
    have "RpcFramer_decode e b =
        (let (ms, b3) = RpcFramer_decode e (snd p) in (m # ms, b3))"
      using c(3,5) peek p(1) room
      by (subst RpcFramer_decode.simps, cases "0 < hdr_bodyLen ?h")
        (simp_all add: split_beta Let_def p_def flip: b1_def)
    moreover have "deframe e (contents b) =
        (let (ms, r, bad) = deframe e rest in (m # ms, r, bad))"
      by (subst deframe.simps) (simp add: Frame)
    moreover have "let (ms, b') = RpcFramer_decode e (snd p); (ms', r, bad) = deframe e (contents (snd p))
        in ms = ms' \<and> contents b' = r \<and> buffer_ok b'"
      using c(3) peek room p(3)
      by (intro "1.IH" [of "(?h, True)" ?h True b1 p "fst p" "snd p"]) (simp_all add: b1_def p_def)
    ultimately show ?thesis by (simp add: Let_def p(2) split: prod.splits)
  qed (use "1.prems" len in \<open>auto simp: RpcFramer_decode.simps [of e b] deframe.simps [of e "contents b"]
      next_frame_def Let_def kHeaderSize_def decodeHeader_peek split: if_splits prod.splits\<close>)
qed

section \<open>Streams\<close>

text \<open>
  The receive loop of \<^verbatim>\<open>TcpConnection::handleRead\<close> and \<^verbatim>\<open>RpcChannel::handleRead\<close>: every successful
  \<^verbatim>\<open>read\<close> appends its bytes to the input buffer and runs the decoder on it.
\<close>

fun feed :: "endian \<Rightarrow> bytes list \<Rightarrow> buffer \<Rightarrow> message list \<times> buffer" where
  "feed e [] b = ([], b)"
| "feed e (c # cs) b =
     (let (m1, b1) = RpcFramer_decode e (buf_append c b);
          (m2, b2) = feed e cs b1
      in (m1 @ m2, b2))"

lemma feed_append:
  "feed e (xs @ ys) b =
     (fst (feed e xs b) @ fst (feed e ys (snd (feed e xs b))), snd (feed e ys (snd (feed e xs b))))"
  by (induction xs arbitrary: b) (simp_all add: split_beta Let_def)

lemma decodeHeader_append: "32 \<le> length p \<Longrightarrow> decodeHeader e (p @ q) = decodeHeader e p"
  using decodeHeader_take [of e "p @ q"] decodeHeader_take [of e p] by simp

lemma next_frame_append:
  "next_frame e p = Frame m r \<Longrightarrow> next_frame e (p @ q) = Frame m (r @ q)"
  "next_frame e p = Rejected \<Longrightarrow> next_frame e (p @ q) = Rejected"
  by (auto simp: next_frame_def Let_def decodeHeader_append split: if_splits prod.splits)

lemma deframe_append:
  assumes "deframe e (p @ q) = (ms, r, False)"
  shows "\<exists>m1 r1 m2. deframe e p = (m1, r1, False) \<and> deframe e (r1 @ q) = (m2, r, False) \<and> ms = m1 @ m2"
  using assms
proof (induction e p arbitrary: ms rule: deframe.induct)
  case (1 e p)
  show ?case
  proof (cases "next_frame e p")
    case (Frame m rest)
    have "deframe e (p @ q) = (let (ms, r, bad) = deframe e (rest @ q) in (m # ms, r, bad))"
      by (subst deframe.simps) (simp add: next_frame_append(1) [OF Frame])
    with "1.prems" obtain ms' where "deframe e (rest @ q) = (ms', r, False)" "ms = m # ms'"
      by (auto split: prod.splits)
    then show ?thesis
      using "1.IH" [OF Frame] Frame by (fastforce simp: deframe.simps [of e p])
  qed (use "1.prems" in \<open>simp_all add: deframe.simps [of e p] deframe.simps [of e "p @ q"]
      next_frame_append(2)\<close>)
qed

lemma deframe_rest: "deframe e bs = (ms, r, False) \<Longrightarrow> next_frame e r = Incomplete"
proof (induction e bs arbitrary: ms rule: deframe.induct)
  case (1 e bs)
  then show ?case
    by (cases "next_frame e bs") (auto simp: deframe.simps [of e bs] split: prod.splits)
qed

lemma feed_deframe:
  assumes "buffer_ok b" and "deframe e (contents b @ concat cs) = (ms, r, False)"
    and "next_frame e (contents b) = Incomplete"
  shows "fst (feed e cs b) = ms \<and> contents (snd (feed e cs b)) = r"
  using assms
proof (induction cs arbitrary: b ms)
  case Nil
  then show ?case by (simp add: deframe.simps [of e "contents b"])
next
  case (Cons c cs)
  let ?b = "buf_append c b"
  have cb: "contents ?b = contents b @ c" "buffer_ok ?b"
    using Cons.prems(1) by (simp_all add: contents_buf_append)
  from Cons.prems(2) obtain m1 r1 m2 where
    d: "deframe e (contents ?b) = (m1, r1, False)" "deframe e (r1 @ concat cs) = (m2, r, False)" "ms = m1 @ m2"
    using deframe_append [of e "contents b @ c" "concat cs" ms r] cb by auto
  obtain b1 where b1: "RpcFramer_decode e ?b = (m1, b1)" "contents b1 = r1" "buffer_ok b1"
    using RpcFramer_decode_refines [OF cb(2), of e] d(1) by (auto split: prod.splits)
  have "next_frame e r1 = Incomplete"
    using deframe_rest [OF d(1)] .
  with Cons.IH [OF b1(3)] d(2) b1(2)
  have "fst (feed e cs b1) = m2 \<and> contents (snd (feed e cs b1)) = r" by simp
  then show ?case by (simp add: b1(1) d(3) split_beta)
qed

section \<open>Properties\<close>

text \<open>C5: TCP packet splitting and coalescing. Let a peer of any byte order send the frames of any
  messages whose bodies respect the size limit, followed by the beginning of a further frame. However
  the byte stream is cut into reads, the receive loop on a fresh buffer delivers exactly these messages,
  in order and with the header fields the framer forces, and keeps exactly the incomplete tail.\<close>

theorem framer_reassembles:
  assumes "\<forall>m \<in> set ms. length (msg_body m) \<le> unat kMaxBodyLen"
    and "concat chunks = concat (map (RpcFramer_encode e') ms) @ tail"
    and "next_frame e tail = Incomplete"
  shows "fst (feed e chunks (new_buffer n)) = map on_wire ms \<and>
    contents (snd (feed e chunks (new_buffer n))) = tail"
proof (rule feed_deframe)
  show "deframe e (contents (new_buffer n) @ concat chunks) = (map on_wire ms, tail, False)"
    using assms(3) by (simp add: assms(2) deframe_encode_all [OF assms(1)] deframe.simps [of e tail])
qed (simp_all add: next_frame_def)

theorem framer_reassembles_witness:
  "let hb = \<lparr>msg_header = zero_header\<lparr>hdr_msgType := kMsgHeartbeat\<rparr>, msg_body = []\<rparr>;
       rq = \<lparr>msg_header = zero_header\<lparr>hdr_requestId := 7\<rparr>, msg_body = [1, 2, 3]\<rparr>;
       s = RpcFramer_encode Big hb @ RpcFramer_encode Big rq @ [0x4D, 0x50]
   in fst (feed Little [take 40 s, drop 40 s] (new_buffer 1024)) = [on_wire hb, on_wire rq] \<and>
      contents (snd (feed Little [take 40 s, drop 40 s] (new_buffer 1024))) = [0x4D, 0x50]"
proof -
  define hb where "hb = \<lparr>msg_header = zero_header\<lparr>hdr_msgType := kMsgHeartbeat\<rparr>, msg_body = []\<rparr>"
  define rq where "rq = \<lparr>msg_header = zero_header\<lparr>hdr_requestId := 7\<rparr>, msg_body = [1, 2, 3 :: byte]\<rparr>"
  define s where "s = RpcFramer_encode Big hb @ RpcFramer_encode Big rq @ [0x4D, 0x50]"
  have "fst (feed Little [take 40 s, drop 40 s] (new_buffer 1024)) = map on_wire [hb, rq] \<and>
      contents (snd (feed Little [take 40 s, drop 40 s] (new_buffer 1024))) = [0x4D, 0x50]"
  proof (rule framer_reassembles)
    show "\<forall>m\<in>set [hb, rq]. length (msg_body m) \<le> unat kMaxBodyLen"
      by (simp add: unat_kMaxBodyLen hb_def rq_def)
    show "concat [take 40 s, drop 40 s] = concat (map (RpcFramer_encode Big) [hb, rq]) @ [0x4D, 0x50]"
      unfolding s_def [symmetric] concat.simps append_Nil2 append_take_drop_id by (simp add: s_def)
  qed (simp add: next_frame_def)
  then show ?thesis by (simp add: Let_def flip: hb_def rq_def) (simp add: s_def)
qed

text \<open>C22: The decoder loop refines its byte-string specification: on every well-formed buffer it
  terminates, hands the callback exactly the complete frames at the front of the buffer, stops at the
  first incomplete frame and leaves it in the buffer, and empties the buffer when it meets a header with
  a wrong magic, a wrong version or an oversized body.\<close>

theorem framer_decode_refines:
  assumes "buffer_ok b"
  shows "(fst (RpcFramer_decode e b), contents (snd (RpcFramer_decode e b))) =
      (fst (deframe e (contents b)), fst (snd (deframe e (contents b)))) \<and>
    buffer_ok (snd (RpcFramer_decode e b))"
  using RpcFramer_decode_refines [OF assms, of e] by (auto split: prod.splits)

theorem framer_decode_refines_witness:
  "buffer_ok (buf_append [0, 1] (new_buffer 0)) \<and>
   contents (snd (RpcFramer_decode Little (buf_append [0, 1] (new_buffer 0)))) = [0, 1]"
  using framer_decode_refines [of "buf_append [0, 1] (new_buffer 0)" Little]
  by (simp add: contents_buf_append deframe.simps [of Little "[0, 1]"] next_frame_def)

text \<open>After a rejected header the loop has no resynchronisation point: which frames survive depends
  on how the network cut the stream. Garbage of header size followed by a valid frame in one read loses the
  frame; the same bytes in two reads deliver it. The connection is not told that the stream is corrupt.\<close>

theorem framer_drain_depends_on_reads:
  assumes "length junk = 32" and "snd (decodeHeader e junk) = False"
    and "length (msg_body m) \<le> unat kMaxBodyLen"
  shows "fst (feed e [junk @ RpcFramer_encode e' m] (new_buffer n)) = [] \<and>
    fst (feed e [junk, RpcFramer_encode e' m] (new_buffer n)) = [on_wire m]"
proof -
  have rej: "next_frame e (junk @ q) = Rejected" for q
    using assms(1,2) by (intro next_frame_append(2)) (auto simp: next_frame_def split_beta)
  have bad: "deframe e (junk @ q) = ([], [], True)" for q
    by (subst deframe.simps) (simp add: rej)
  have one: "fst (RpcFramer_decode e (buf_append (junk @ q) (new_buffer n))) = [] \<and>
      contents (snd (RpcFramer_decode e (buf_append (junk @ q) (new_buffer n)))) = [] \<and>
      buffer_ok (snd (RpcFramer_decode e (buf_append (junk @ q) (new_buffer n))))" for q
    using RpcFramer_decode_refines [of "buf_append (junk @ q) (new_buffer n)" e]
    by (auto simp: contents_buf_append bad split: prod.splits)
  define b1 where "b1 = snd (RpcFramer_decode e (buf_append junk (new_buffer n)))"
  have b1: "contents b1 = []" "buffer_ok b1" using one [of "[]"] by (simp_all add: b1_def)
  have "deframe e (RpcFramer_encode e' m) = ([on_wire m], [], False)"
    using deframe_encode [OF assms(3), of e e' "[]"] by (simp add: deframe.simps [of e "[]"] next_frame_def)
  then have "fst (RpcFramer_decode e (buf_append (RpcFramer_encode e' m) b1)) = [on_wire m]"
    using RpcFramer_decode_refines [of "buf_append (RpcFramer_encode e' m) b1" e] b1
    by (auto simp: contents_buf_append split: prod.splits)
  then show ?thesis using one [of "[]"] one [of "RpcFramer_encode e' m"] by (simp add: split_beta flip: b1_def)
qed

theorem framer_drain_depends_on_reads_witness:
  "let hb = \<lparr>msg_header = zero_header\<lparr>hdr_msgType := kMsgHeartbeat\<rparr>, msg_body = []\<rparr> in
   snd (decodeHeader Little (replicate 32 0)) = False \<and>
   fst (feed Little [replicate 32 0 @ RpcFramer_encode Little hb] (new_buffer 1024)) = [] \<and>
   fst (feed Little [replicate 32 0, RpcFramer_encode Little hb] (new_buffer 1024)) = [on_wire hb]"
proof -
  have "snd (decodeHeader Little (replicate 32 0)) = False"
    by (simp add: decodeHeader_def Let_def kVersion_def)
  then show ?thesis
    unfolding Let_def by (intro conjI framer_drain_depends_on_reads [THEN conjunct1]
      framer_drain_depends_on_reads [THEN conjunct2]) simp_all
qed

end
