(* ===== verification/Serializer.thy ===== *)
theory Serializer
  imports RpcPrelude
begin

text \<open>
  \<^verbatim>\<open>include/Serializer.h\<close>, \<^verbatim>\<open>src/Serializer.cpp\<close>: the tag-based binary serializer. A \<^verbatim>\<open>Value\<close> is the
  datatype \<open>rpc_value\<close>, one constructor per alternative of the variant and in its order; a \<^verbatim>\<open>double\<close>
  is its 64-bit object representation, which is all the serializer touches. The \<^verbatim>\<open>Reader\<close> cursor is
  the list of the bytes still to read: a reading function returns \<open>None\<close> where the source returns
  false, and the value with the remaining bytes otherwise. \<open>readTyped\<close> and its loops are mutually
  recursive as in the source; they terminate on every input because each of them consumes a byte.
\<close>

section \<open>Values\<close>

datatype rpc_value =
    VNull
  | VBool bool
  | VInt64 u64          \<comment> \<open>two's complement, read with \<open>sint\<close>\<close>
  | VUint64 u64
  | VDouble u64         \<comment> \<open>object representation\<close>
  | VString bytes
  | VArray "rpc_value list"
  | VMap "(bytes \<times> rpc_value) list"
  | VStruct "(u32 \<times> rpc_value) list"

fun type_code :: "rpc_value \<Rightarrow> byte" where
  "type_code VNull = 0"
| "type_code (VBool _) = 1"
| "type_code (VInt64 _) = 2"
| "type_code (VUint64 _) = 3"
| "type_code (VDouble _) = 4"
| "type_code (VString _) = 5"
| "type_code (VArray _) = 6"
| "type_code (VMap _) = 7"
| "type_code (VStruct _) = 8"

fun find_field :: "u32 \<Rightarrow> (u32 \<times> rpc_value) list \<Rightarrow> rpc_value option" where
  "find_field fieldId [] = None"
| "find_field fieldId ((i, v) # fs) = (if i = fieldId then Some v else find_field fieldId fs)"

text \<open>\<^verbatim>\<open>Value::find\<close>; \<open>None\<close> is the null pointer.\<close>

fun value_find :: "rpc_value \<Rightarrow> u32 \<Rightarrow> rpc_value option" where
  "value_find (VStruct fs) fieldId = find_field fieldId fs"
| "value_find _ fieldId = None"

section \<open>Varints and zigzag\<close>

function writeVarint :: "u64 \<Rightarrow> bytes" where
  "writeVarint v =
     (if 0x80 \<le> v then ucast ((v AND 0x7F) OR 0x80) # writeVarint (drop_bit 7 v) else [ucast v])"
  by pat_completeness auto
termination
proof (relation "measure unat", goal_cases)
  case (2 v)
  then have "0 < unat v" by (simp add: word_le_nat_alt)
  moreover have "unat (drop_bit 7 v) = unat v div 2 ^ 7"
    by (simp add: drop_bit_eq_div unat_div_distrib)
  ultimately show ?case by simp
qed simp

declare writeVarint.simps [simp del]

fun readVarint_loop :: "nat \<Rightarrow> nat \<Rightarrow> u64 \<Rightarrow> bytes \<Rightarrow> (u64 \<times> bytes) option" where
  "readVarint_loop 0 shift val bs = None"
| "readVarint_loop (Suc n) shift val [] = None"
| "readVarint_loop (Suc n) shift val (b # bs) =
     (let val' = val OR push_bit shift (ucast (b AND 0x7F))
      in if b AND 0x80 = 0 then Some (val', bs) else readVarint_loop n (shift + 7) val' bs)"

definition readVarint :: "bytes \<Rightarrow> (u64 \<times> bytes) option" where
  "readVarint bs = readVarint_loop 10 0 0 bs"

definition readBytes :: "nat \<Rightarrow> bytes \<Rightarrow> (bytes \<times> bytes) option" where
  "readBytes len bs = (if length bs < len then None else Some (take len bs, drop len bs))"

definition readLengthDelimited :: "bytes \<Rightarrow> (bytes \<times> bytes) option" where
  "readLengthDelimited bs =
     (case readVarint bs of
        None \<Rightarrow> None
      | Some (len, r) \<Rightarrow> if length r < unat len then None else readBytes (unat len) r)"

definition zigzagEncode :: "u64 \<Rightarrow> u64" where
  "zigzagEncode v = push_bit 1 v XOR signed_drop_bit 63 v"

definition zigzagDecode :: "u64 \<Rightarrow> u64" where
  "zigzagDecode v = drop_bit 1 v XOR - (v AND 1)"

section \<open>Writing\<close>

definition double_bytes :: "u64 \<Rightarrow> bytes" where
  "double_bytes bits = map (\<lambda>i. ucast (drop_bit (8 * i) bits AND 0xFF)) [0..<8]"

text \<open>\<^verbatim>\<open>writeTyped\<close> of a string value, also the key of a map entry.\<close>

definition writeString :: "bytes \<Rightarrow> bytes" where
  "writeString s = 5 # writeVarint (of_nat (length s)) @ s"

definition writePayload :: "bytes \<Rightarrow> bytes" where
  "writePayload payload = writeVarint (of_nat (length payload)) @ payload"

definition writeTag :: "u32 \<Rightarrow> bytes" where
  "writeTag i = writeVarint (push_bit 3 (ucast i) OR 2)"

fun writeTyped :: "rpc_value \<Rightarrow> bytes"
  and writeElems :: "rpc_value list \<Rightarrow> bytes"
  and writeEntries :: "(bytes \<times> rpc_value) list \<Rightarrow> bytes"
  and writeStructFields :: "(u32 \<times> rpc_value) list \<Rightarrow> bytes" where
  "writeTyped VNull = [0]"
| "writeTyped (VBool b) = [1, if b then 1 else 0]"
| "writeTyped (VInt64 i) = 2 # writeVarint (zigzagEncode i)"
| "writeTyped (VUint64 u) = 3 # writeVarint u"
| "writeTyped (VDouble bits) = 4 # double_bytes bits"
| "writeTyped (VString s) = writeString s"
| "writeTyped (VArray a) = 6 # writePayload (writeElems a)"
| "writeTyped (VMap m) = 7 # writePayload (writeEntries m)"
| "writeTyped (VStruct fs) = 8 # writePayload (writeStructFields fs)"
| "writeElems [] = []"
| "writeElems (v # vs) = writeTyped v @ writeElems vs"
| "writeEntries [] = []"
| "writeEntries ((k, v) # kvs) = writeString k @ writeTyped v @ writeEntries kvs"
| "writeStructFields [] = []"
| "writeStructFields ((i, v) # fs) = writeTag i @ writeTyped v @ writeStructFields fs"

text \<open>\<^verbatim>\<open>Serializer::encode\<close>: a top-level value that is not a struct is wrapped into field 1.\<close>

definition as_struct :: "rpc_value \<Rightarrow> (u32 \<times> rpc_value) list" where
  "as_struct v = (case v of VStruct fs \<Rightarrow> fs | _ \<Rightarrow> [(1, v)])"

definition Serializer_encode :: "rpc_value \<Rightarrow> bytes" where
  "Serializer_encode v = writeStructFields (as_struct v)"

section \<open>Reading\<close>

lemma readVarint_loop_shorter: "readVarint_loop n s x bs = Some (y, r) \<Longrightarrow> length r < length bs"
  by (induction n s x bs rule: readVarint_loop.induct) (auto simp: Let_def less_SucI split: if_splits)

lemma readVarint_shorter: "readVarint bs = Some (y, r) \<Longrightarrow> length r < length bs"
  by (auto simp: readVarint_def dest: readVarint_loop_shorter)

lemma readLengthDelimited_shorter:
  "readLengthDelimited bs = Some (p, r) \<Longrightarrow> length p + length r < length bs"
  by (auto simp: readLengthDelimited_def readBytes_def dest!: readVarint_shorter
      split: option.splits if_splits)

function readTyped :: "endian \<Rightarrow> bytes \<Rightarrow> (rpc_value \<times> bytes) option"
  and readArray :: "endian \<Rightarrow> bytes \<Rightarrow> rpc_value list option"
  and readMap :: "endian \<Rightarrow> bytes \<Rightarrow> (bytes \<times> rpc_value) list option"
  and readStructFields :: "endian \<Rightarrow> bytes \<Rightarrow> (u32 \<times> rpc_value) list option" where
  "readTyped e bs =
     (case bs of
        [] \<Rightarrow> None
      | t # r \<Rightarrow>
          if t = 0 then Some (VNull, r)
          else if t = 1 then (case r of [] \<Rightarrow> None | b # r' \<Rightarrow> Some (VBool (b \<noteq> 0), r'))
          else if t = 2 then map_option (\<lambda>(raw, r'). (VInt64 (zigzagDecode raw), r')) (readVarint r)
          else if t = 3 then map_option (\<lambda>(raw, r'). (VUint64 raw, r')) (readVarint r)
          else if t = 4 then map_option (\<lambda>(p, r'). (VDouble (of_host_bytes e p), r')) (readBytes 8 r)
          else if t = 5 then map_option (\<lambda>(s, r'). (VString s, r')) (readLengthDelimited r)
          else if t = 6 then
            (case readLengthDelimited r of
               None \<Rightarrow> None
             | Some (payload, r') \<Rightarrow> map_option (\<lambda>a. (VArray a, r')) (readArray e payload))
          else if t = 7 then
            (case readLengthDelimited r of
               None \<Rightarrow> None
             | Some (payload, r') \<Rightarrow> map_option (\<lambda>m. (VMap m, r')) (readMap e payload))
          else if t = 8 then
            (case readLengthDelimited r of
               None \<Rightarrow> None
             | Some (payload, r') \<Rightarrow> map_option (\<lambda>fs. (VStruct fs, r')) (readStructFields e payload))
          else None)"
| "readArray e sub =
     (if sub = [] then Some []
      else case readTyped e sub of
             None \<Rightarrow> None
           | Some (v, sub') \<Rightarrow> map_option (\<lambda>vs. v # vs) (readArray e sub'))"
| "readMap e sub =
     (if sub = [] then Some []
      else case readTyped e sub of
             None \<Rightarrow> None
           | Some (key, sub') \<Rightarrow>
               (case readTyped e sub' of
                  None \<Rightarrow> None
                | Some (v, sub'') \<Rightarrow>
                    (case key of
                       VString k \<Rightarrow> map_option (\<lambda>kvs. (k, v) # kvs) (readMap e sub'')
                     | _ \<Rightarrow> None)))"
| "readStructFields e sub =
     (if sub = [] then Some []
      else case readVarint sub of
             None \<Rightarrow> None
           | Some (tag, sub') \<Rightarrow>
               (case readTyped e sub' of
                  None \<Rightarrow> None
                | Some (v, sub'') \<Rightarrow>
                    map_option (\<lambda>fs. (ucast (drop_bit 3 tag), v) # fs) (readStructFields e sub'')))"
  by pat_completeness auto

termination
proof -
  have shorter: "length r < length bs"
    if "readTyped_readArray_readMap_readStructFields_dom (Inl (Inl (e, bs)))" "readTyped e bs = Some (v, r)" for e bs v r
    using that by (auto simp: readTyped.psimps readBytes_def split: list.splits if_splits option.splits
        dest!: readVarint_shorter readLengthDelimited_shorter)
  show ?thesis
    by (relation "measure (\<lambda>x. case x of
          Inl (Inl (e, bs)) \<Rightarrow> 2 * length bs | Inl (Inr (e, bs)) \<Rightarrow> 2 * length bs + 1
        | Inr (Inl (e, bs)) \<Rightarrow> 2 * length bs + 1 | Inr (Inr (e, bs)) \<Rightarrow> 2 * length bs + 1)")
      (auto dest!: readVarint_shorter readLengthDelimited_shorter shorter)
qed

declare readTyped.simps [simp del] readArray.simps [simp del] readMap.simps [simp del]
  readStructFields.simps [simp del]

definition Serializer_decode :: "endian \<Rightarrow> bytes \<Rightarrow> rpc_value option" where
  "Serializer_decode e data = map_option VStruct (readStructFields e data)"

section \<open>Varint and zigzag laws\<close>

lemma bit_int_7F [simp]: "bit (0x7F :: int) n \<longleftrightarrow> n < 7"
proof -
  have "(0x7F :: int) = mask 7" by (simp add: mask_eq_exp_minus_1)
  then show ?thesis by (simp only: bit_mask_iff) simp
qed

lemma bit_int_80 [simp]: "bit (0x80 :: int) n \<longleftrightarrow> n = 7"
proof -
  have "(0x80 :: int) = 2 ^ 7" by simp
  then show ?thesis by (simp only: bit_exp_iff) auto
qed

lemma small_bits:
  assumes "\<not> 0x80 \<le> (v :: u64)" and "bit v n"
  shows "n < 7"
proof -
  have "v AND mask 7 = v" using assms(1) by (intro less_mask_eq) simp
  with assms(2) have "bit (v AND mask 7) n" by simp
  then show ?thesis by (simp add: bit_and_iff bit_mask_iff)
qed

lemma last_byte:
  assumes "\<not> 0x80 \<le> (v :: u64)"
  shows "(ucast v :: byte) AND 0x80 = 0" "ucast ((ucast v :: byte) AND 0x7F) = v"
proof -
  show "(ucast v :: byte) AND 0x80 = 0"
    by (rule bit_word_eqI) (auto simp: bit_and_iff  bit_unsigned_iff dest: small_bits [OF assms])
  show "ucast ((ucast v :: byte) AND 0x7F) = v"
    by (rule bit_word_eqI) (auto simp: bit_and_iff  bit_unsigned_iff dest: small_bits [OF assms])
qed

lemma more_byte:
  fixes v :: u64
  shows "(ucast ((v AND 0x7F) OR 0x80) :: byte) AND 0x80 \<noteq> 0"
    "ucast ((ucast ((v AND 0x7F) OR 0x80) :: byte) AND 0x7F) = v AND 0x7F"
    "(v AND 0x7F) OR push_bit 7 (drop_bit 7 v) = v"
proof -
  have "bit ((ucast ((v AND 0x7F) OR 0x80) :: byte) AND 0x80) 7"
    by (simp add: bit_and_iff bit_or_iff bit_unsigned_iff)
  then show "(ucast ((v AND 0x7F) OR 0x80) :: byte) AND 0x80 \<noteq> 0" by (metis bit_0_eq bot_apply bot_bool_def)
  show "ucast ((ucast ((v AND 0x7F) OR 0x80) :: byte) AND 0x7F) = v AND 0x7F"
    by (rule bit_word_eqI) (auto simp: bit_and_iff bit_or_iff bit_unsigned_iff)
  show "(v AND 0x7F) OR push_bit 7 (drop_bit 7 v) = v"
  proof (rule bit_word_eqI)
    fix n assume "n < LENGTH(64)"
    then show "bit ((v AND 0x7F) OR push_bit 7 (drop_bit 7 v)) n = bit v n"
      by (cases "n < 7") (simp_all add: bit_and_iff bit_or_iff bit_push_bit_iff bit_drop_bit_eq)
  qed
qed

lemma readVarint_loop_write:
  "unat v < 2 ^ (7 * n) \<Longrightarrow> 0 < n \<Longrightarrow>
   readVarint_loop n s x (writeVarint v @ rest) = Some (x OR push_bit s v, rest)"
proof (induction v arbitrary: n s x rule: writeVarint.induct)
  case (1 v)
  obtain m where n: "n = Suc m" using "1.prems"(2) by (cases n) auto
  show ?case
  proof (cases "0x80 \<le> v")
    case True
    have "unat v \<ge> 128" using True by (simp add: word_le_nat_alt)
    have dv: "unat (drop_bit 7 v) = unat v div 128" by (simp add: drop_bit_eq_div unat_div_distrib)
    have lt: "unat v < 128 * 2 ^ (7 * m)" using "1.prems"(1) by (simp add: n power_add)
    have "0 < m" using lt \<open>unat v \<ge> 128\<close> by (cases m) auto
    moreover have "unat (drop_bit 7 v) < 2 ^ (7 * m)" using lt dv by (simp add: less_mult_imp_div_less mult.commute)
    ultimately have "readVarint_loop m (s + 7) (x OR push_bit s (v AND 0x7F)) (writeVarint (drop_bit 7 v) @ rest)
        = Some ((x OR push_bit s (v AND 0x7F)) OR push_bit (s + 7) (drop_bit 7 v), rest)"
      using "1.IH" [OF True] by blast
    moreover have "push_bit s (v AND 0x7F) OR push_bit (s + 7) (drop_bit 7 v) = push_bit s v"
      using arg_cong [OF more_byte(3) [of v], of "push_bit s"] by (simp add: push_bit_or push_bit_push_bit)
    ultimately show ?thesis
      using True by (subst writeVarint.simps) (simp add: n more_byte Let_def or.assoc)
  next
    case False
    then show ?thesis by (subst writeVarint.simps) (simp add: n last_byte Let_def)
  qed
qed

lemma readVarint_write: "readVarint (writeVarint v @ rest) = Some (v, rest)"
proof -
  have "unat v < 2 ^ 64" using unsigned_less [of v, where 'a = nat] by simp
  then have "unat v < 2 ^ (7 * 10)" by simp
  then show ?thesis by (simp add: readVarint_def readVarint_loop_write)
qed

lemma bit_zigzagEncode:
  assumes "k < 64"
  shows "bit (zigzagEncode v) k \<longleftrightarrow> (0 < k \<and> bit v (k - 1)) \<noteq> bit v 63"
proof -
  have "bit (push_bit 1 v) k \<longleftrightarrow> 0 < k \<and> bit v (k - 1)"
    by (subst bit_push_bit_iff) (use assms in auto)
  moreover have "bit (signed_drop_bit 63 v) k = bit v 63"
    using assms by (subst bit_signed_drop_bit_iff) (cases k, auto)
  ultimately show ?thesis by (simp only: zigzagEncode_def bit_xor_iff)
qed

lemma bit_zigzagDecode:
  assumes "k < 64"
  shows "bit (zigzagDecode w) k \<longleftrightarrow> bit w (Suc k) \<noteq> bit w 0"
proof -
  have "bit (- (w AND 1)) k = bit w 0"
  proof (cases "bit w 0")
    case True
    then have "w AND 1 = 1" by (simp add: and_one_eq bit_0 odd_iff_mod_2_eq_one)
    then show ?thesis using True assms by simp
  next
    case False
    then have "w AND 1 = 0" by (simp add: and_one_eq bit_0 even_iff_mod_2_eq_zero)
    then show ?thesis using False by simp
  qed
  then show ?thesis by (simp only: zigzagDecode_def bit_xor_iff bit_drop_bit_eq) simp
qed

lemma zigzag_inverse: "zigzagDecode (zigzagEncode v) = v"
proof (rule bit_word_eqI)
  fix n assume "n < LENGTH(64)"
  then have n: "n < 64" by simp
  show "bit (zigzagDecode (zigzagEncode v)) n = bit v n"
  proof (cases "n = 63")
    case True
    have "\<not> bit (zigzagEncode v) (Suc n)" using True bit_imp_le_length [of "zigzagEncode v" "Suc n"] by auto
    then show ?thesis using n True by (simp add: bit_zigzagDecode bit_zigzagEncode)
  next
    case False
    then show ?thesis using n by (auto simp add: bit_zigzagDecode bit_zigzagEncode)
  qed
qed
section \<open>Reading back what was written\<close>

text \<open>
  What the reader of byte order \<open>e\<close> makes of a value: \<^verbatim>\<open>writeTyped\<close> stores a double low byte first, while
  \<^verbatim>\<open>readTyped\<close> copies the eight bytes into the host representation.
\<close>

fun received :: "endian \<Rightarrow> rpc_value \<Rightarrow> rpc_value" where
  "received e (VDouble d) = VDouble (case e of Little \<Rightarrow> d | Big \<Rightarrow> bswap 8 d)"
| "received e (VArray a) = VArray (map (received e) a)"
| "received e (VMap m) = VMap (map (\<lambda>(k, v). (k, received e v)) m)"
| "received e (VStruct fs) = VStruct (map (\<lambda>(i, v). (i, received e v)) fs)"
| "received e v = v"

lemma received_Little: "received Little v = v"
proof (induction v)
  case (VArray x)
  then show ?case by (simp add: map_idI)
next
  case (VMap x)
  then show ?case by (auto intro!: map_idI)
next
  case (VStruct x)
  then show ?case by (auto intro!: map_idI)
qed simp_all

lemma double_bytes_le: "double_bytes bits = le_bytes 8 bits"
proof -
  have "(ucast (w AND 0xFF) :: byte) = ucast w" for w :: u64
  proof (rule bit_word_eqI)
    fix n assume n: "n < LENGTH(8)"
    have "(0xFF :: u64) = mask 8" by (simp add: mask_eq_exp_minus_1)
    then have "bit (0xFF :: u64) n" using n by (simp only: bit_mask_iff) simp
    then show "bit (ucast (w AND 0xFF) :: byte) n = bit (ucast w :: byte) n"
      using n by (simp add: bit_unsigned_iff bit_and_iff)
  qed
  then show ?thesis by (simp add: double_bytes_def le_bytes_def)
qed

lemma of_host_bytes_double:
  "of_host_bytes e (double_bytes d) = (case e of Little \<Rightarrow> d | Big \<Rightarrow> bswap 8 d)"
  by (cases e) (simp_all add: double_bytes_le of_host_bytes_def of_le_bytes_le_bytes bswap_def)

lemma length_double_bytes [simp]: "length (double_bytes d) = 8"
  by (simp add: double_bytes_def)

lemma readBytes_double: "readBytes 8 (double_bytes d @ rest) = Some (double_bytes d, rest)"
  by (simp add: readBytes_def)

lemma unat_of_nat_len: "n < 2 ^ 64 \<Longrightarrow> unat (of_nat n :: u64) = n"
  by (simp add: unat_of_nat)

lemma readLengthDelimited_payload:
  "length p < 2 ^ 64 \<Longrightarrow> readLengthDelimited (writePayload p @ rest) = Some (p, rest)"
  by (simp add: readLengthDelimited_def writePayload_def readVarint_write readBytes_def unat_of_nat_len
      del: power_numeral)

lemma writeString_payload: "writeString s = 5 # writePayload s"
  by (simp add: writeString_def writePayload_def)

lemma length_writePayload: "length p \<le> length (writePayload p)"
  by (simp add: writePayload_def)

lemma tag_field: "ucast (drop_bit 3 (push_bit 3 (ucast (i :: u32)) :: u64)) = i"
  by (rule bit_word_eqI) (simp add: bit_unsigned_iff bit_drop_bit_eq bit_push_bit_iff)

lemma readVarint_tag: "readVarint (writeTag i @ rest) = Some (push_bit 3 (ucast i) OR 2, rest)"
  unfolding writeTag_def by (rule readVarint_write)

lemma writeVarint_not_Nil [simp]: "writeVarint v \<noteq> []"
  by (subst writeVarint.simps) simp

lemma writeTag_not_Nil [simp]: "writeTag i \<noteq> []"
  by (simp add: writeTag_def)

lemma writeTyped_not_Nil [simp]: "writeTyped v \<noteq> []"
  by (cases v) (simp_all add: writeString_def)

lemmas read_rules [simp] =
  readVarint_write readVarint_tag readLengthDelimited_payload readBytes_double tag_field zigzag_inverse
  of_host_bytes_double writeString_payload

lemma read_write:
  "length (writeTyped v) < 2 ^ 64 \<Longrightarrow> readTyped e (writeTyped v @ rest) = Some (received e v, rest)"
  "length (writeElems vs) < 2 ^ 64 \<Longrightarrow> readArray e (writeElems vs) = Some (map (received e) vs)"
  "length (writeEntries kvs) < 2 ^ 64 \<Longrightarrow>
     readMap e (writeEntries kvs) = Some (map (\<lambda>(k, v). (k, received e v)) kvs)"
  "length (writeStructFields fs) < 2 ^ 64 \<Longrightarrow>
     readStructFields e (writeStructFields fs) = Some (map (\<lambda>(i, v). (i, received e v)) fs)"
proof (induction v and vs and kvs and fs arbitrary: rest and and and
    rule: writeTyped_writeElems_writeEntries_writeStructFields.induct)
  case (7 a)
  then show ?case using length_writePayload [of "writeElems a"] 
    by (subst readTyped.simps) (simp del: power_numeral)
next
  case (8 m)
  then show ?case using length_writePayload [of "writeEntries m"]
    by (subst readTyped.simps) (simp del: power_numeral)
next
  case (9 fs)
  then show ?case using length_writePayload [of "writeStructFields fs"]
    by (subst readTyped.simps) (simp del: power_numeral)
next
  case (6 s)
  then show ?case using length_writePayload [of s]
    by (subst readTyped.simps) (simp del: power_numeral)
next
  case 10
  show ?case by (simp add: readArray.simps)
next
  case (11 v vs)
  then show ?case by (subst readArray.simps) (simp del: power_numeral)
next
  case 12
  show ?case by (simp add: readMap.simps)
next
  case (13 k v kvs)
  have "readTyped e (writeString k @ rest) = Some (VString k, rest)" for rest
    using 13(3) length_writePayload [of k] by (subst readTyped.simps) (simp del: power_numeral)
  with 13 show ?case by (subst readMap.simps) (simp del: power_numeral)
next
  case 14
  show ?case by (simp add: readStructFields.simps)
next
  case (15 i v fs)
  then show ?case by (subst readStructFields.simps) (simp del: power_numeral)
qed (simp_all add: readTyped.simps)

section \<open>Resources\<close>

text \<open>The number of nodes of a value, counting the bytes of its strings and keys.\<close>

fun vweight :: "rpc_value \<Rightarrow> nat" where
  "vweight (VString s) = 1 + length s"
| "vweight (VArray a) = 1 + sum_list (map vweight a)"
| "vweight (VMap m) = 1 + sum_list (map (\<lambda>(k, v). 1 + length k + vweight v) m)"
| "vweight (VStruct fs) = 1 + sum_list (map (\<lambda>(i, v). 1 + vweight v) fs)"
| "vweight v = 1"

lemma readVarint_loop_suffix: "readVarint_loop n s x bs = Some (y, r) \<Longrightarrow> \<exists>p. bs = p @ r"
proof (induction n s x bs rule: readVarint_loop.induct)
  case (3 n s x b bs)
  then show ?case
    by (cases "b AND 0x80 = 0") (auto simp: Let_def intro: exI [of _ "b # _"])
qed simp_all

lemma readVarint_suffix: "readVarint bs = Some (y, r) \<Longrightarrow> \<exists>p. bs = p @ r"
  by (auto simp: readVarint_def dest: readVarint_loop_suffix)

lemma readLengthDelimited_suffix: "readLengthDelimited bs = Some (p, r) \<Longrightarrow> \<exists>q. bs = q @ p @ r"
  by (fastforce simp: readLengthDelimited_def readBytes_def dest: readVarint_suffix
      split: option.splits if_splits)

lemma readTyped_suffix: "readTyped e bs = Some (v, r) \<Longrightarrow> \<exists>p. bs = p @ r"
proof -
  assume a: "readTyped e bs = Some (v, r)"
  obtain t r0 where bs: "bs = t # r0" using a by (cases bs) (auto simp: readTyped.simps)
  have "\<exists>q. r0 = q @ r"
    using a unfolding bs readTyped.simps [of e "t # r0"]
    by (fastforce simp: readBytes_def split: if_splits option.splits list.splits
        dest: readVarint_suffix readLengthDelimited_suffix intro: exI [of _ "take 8 r0"] exI [of _ "[]"])
  then show ?thesis using bs by (metis append_Cons)
qed

lemma read_weight:
  "readTyped e bs = Some (v, r) \<Longrightarrow> vweight v + length r \<le> length bs"
  "readArray e sub = Some vs \<Longrightarrow> sum_list (map vweight vs) \<le> length sub"
  "readMap e sub2 = Some kvs \<Longrightarrow> sum_list (map (\<lambda>(k, v). 1 + length k + vweight v) kvs) \<le> length sub2"
  "readStructFields e sub3 = Some fs \<Longrightarrow> sum_list (map (\<lambda>(i, v). 1 + vweight v) fs) \<le> length sub3"
proof (induction e bs and e sub and e sub2 and e sub3 arbitrary: v r and vs and kvs and fs
    rule: readTyped_readArray_readMap_readStructFields.induct)
  case (1 e bs)
  obtain t r0 where bs: "bs = t # r0" using "1.prems" by (cases bs) (auto simp: readTyped.simps)
  have arr: "sum_list (map vweight a) + length r' \<le> length r0"
    if "t = 6" "readLengthDelimited r0 = Some (p, r')" "readArray e p = Some a" for p r' a
    using "1.IH"(1) [OF bs] that readLengthDelimited_shorter [OF that(2)] by force
  have mp: "sum_list (map (\<lambda>(k, v). 1 + length k + vweight v) m) + length r' \<le> length r0"
    if "t = 7" "readLengthDelimited r0 = Some (p, r')" "readMap e p = Some m" for p r' m
    using "1.IH"(2) [OF bs] that readLengthDelimited_shorter [OF that(2)] by force
  have st: "sum_list (map (\<lambda>(i, v). 1 + vweight v) fs) + length r' \<le> length r0"
    if "t = 8" "readLengthDelimited r0 = Some (p, r')" "readStructFields e p = Some fs" for p r' fs
    using "1.IH"(3) [OF bs] that readLengthDelimited_shorter [OF that(2)] by force
  show ?case
    using "1.prems" unfolding bs readTyped.simps [of e "t # r0"]
    by (auto simp: readBytes_def split: if_splits option.splits list.splits
        dest!: readVarint_shorter dest: readLengthDelimited_shorter arr mp st)
next
  case (2 e sub)
  then show ?case
    by (auto simp: readArray.simps [of e sub] split: if_splits option.splits) fastforce
next
  case (3 e sub)
  then show ?case
    by (auto simp: readMap.simps [of e sub] split: if_splits option.splits rpc_value.splits) fastforce
next
  case (4 e sub)
  then show ?case
    by (auto simp: readStructFields.simps [of e sub] split: if_splits option.splits dest!: readVarint_shorter) fastforce
qed

section \<open>The debug view\<close>

definition int64_string :: "u64 \<Rightarrow> bytes" where
  "int64_string i = (if sint i < 0 then 0x2D # dec_string (nat (- sint i)) else dec_string (nat (sint i)))"

definition hex_digit :: "byte \<Rightarrow> byte" where
  "hex_digit d = (if d < 10 then 0x30 + d else 0x57 + d)"

text \<open>The escape of one character of a string; \<^verbatim>\<open>snprintf("\\u%04x", c)\<close> for the other control characters.\<close>

definition json_escape :: "byte \<Rightarrow> bytes" where
  "json_escape c =
     (if c = 0x22 then [0x5C, 0x22]
      else if c = 0x5C then [0x5C, 0x5C]
      else if c = 0x0A then [0x5C, 0x6E]
      else if c = 0x0D then [0x5C, 0x72]
      else if c = 0x09 then [0x5C, 0x74]
      else if c < 0x20 then [0x5C, 0x75, 0x30, 0x30, hex_digit (drop_bit 4 c), hex_digit (c AND 0xF)]
      else [c])"

definition json_string :: "bytes \<Rightarrow> bytes" where
  "json_string s = 0x22 # concat (map json_escape s) @ [0x22]"

text \<open>
  \<^verbatim>\<open>Serializer::toJson\<close>; \<open>fmt\<close> is \<^verbatim>\<open>std::to_string(double)\<close> on the object representation, and the
  boolean of the loops is the local \<^verbatim>\<open>first\<close>.
\<close>

fun toJson :: "(u64 \<Rightarrow> bytes) \<Rightarrow> rpc_value \<Rightarrow> bytes"
  and toJson_elems :: "(u64 \<Rightarrow> bytes) \<Rightarrow> bool \<Rightarrow> rpc_value list \<Rightarrow> bytes"
  and toJson_entries :: "(u64 \<Rightarrow> bytes) \<Rightarrow> bool \<Rightarrow> (bytes \<times> rpc_value) list \<Rightarrow> bytes"
  and toJson_fields :: "(u64 \<Rightarrow> bytes) \<Rightarrow> bool \<Rightarrow> (u32 \<times> rpc_value) list \<Rightarrow> bytes" where
  "toJson fmt VNull = lit ''null''"
| "toJson fmt (VBool b) = (if b then lit ''true'' else lit ''false'')"
| "toJson fmt (VInt64 i) = int64_string i"
| "toJson fmt (VUint64 u) = dec_string (unat u)"
| "toJson fmt (VDouble d) = fmt d"
| "toJson fmt (VString s) = json_string s"
| "toJson fmt (VArray a) = 0x5B # toJson_elems fmt True a @ [0x5D]"
| "toJson fmt (VMap m) = 0x7B # toJson_entries fmt True m @ [0x7D]"
| "toJson fmt (VStruct fs) = 0x7B # toJson_fields fmt True fs @ [0x7D]"
| "toJson_elems fmt first [] = []"
| "toJson_elems fmt first (v # vs) =
     (if first then [] else [0x2C]) @ toJson fmt v @ toJson_elems fmt False vs"
| "toJson_entries fmt first [] = []"
| "toJson_entries fmt first ((k, v) # kvs) =
     (if first then [] else [0x2C]) @ json_string k @ [0x3A] @ toJson fmt v @ toJson_entries fmt False kvs"
| "toJson_fields fmt first [] = []"
| "toJson_fields fmt first ((i, v) # fs) =
     (if first then [] else [0x2C]) @ [0x22] @ dec_string (unat i) @ [0x22, 0x3A] @ toJson fmt v @
       toJson_fields fmt False fs"

text \<open>A reader of JSON string literals, after the opening quote; raw control characters are refused.\<close>

definition hex_value :: "byte \<Rightarrow> byte" where
  "hex_value c = (if c < 0x3A then c - 0x30 else c - 0x57)"

fun json_unquote :: "bytes \<Rightarrow> (bytes \<times> bytes) option" where
  "json_unquote [] = None"
| "json_unquote (c # r) =
     (if c = 0x22 then Some ([], r)
      else if c = 0x5C then
        (case r of
           [] \<Rightarrow> None
         | d # r' \<Rightarrow>
             if d = 0x22 \<or> d = 0x5C then map_option (apfst (Cons d)) (json_unquote r')
             else if d = 0x6E then map_option (apfst (Cons 0x0A)) (json_unquote r')
             else if d = 0x72 then map_option (apfst (Cons 0x0D)) (json_unquote r')
             else if d = 0x74 then map_option (apfst (Cons 0x09)) (json_unquote r')
             else (case r' of
                     _ # _ # h # l # r'' \<Rightarrow>
                       map_option (apfst (Cons (push_bit 4 (hex_value h) OR hex_value l))) (json_unquote r'')
                   | _ \<Rightarrow> None))
      else if c < 0x20 then None
      else map_option (apfst (Cons c)) (json_unquote r))"

lemma control_chars: "(c :: byte) < 0x20 \<Longrightarrow> c \<in> set (map of_nat [0..<32])"
proof -
  assume "c < 0x20"
  then have "unat c \<in> set [0..<32]" by (simp add: word_less_nat_alt)
  then have "of_nat (unat c) \<in> set (map of_nat [0..<32] :: byte list)" by (simp only: set_map image_eqI)
  then show ?thesis by simp
qed

lemma hex_control:
  "(c :: byte) < 0x20 \<Longrightarrow>
   push_bit 4 (hex_value (hex_digit (drop_bit 4 c))) OR hex_value (hex_digit (c AND 0xF)) = c"
proof -
  assume "c < 0x20"
  moreover have "\<forall>c \<in> set (map of_nat [0..<32] :: byte list).
      push_bit 4 (hex_value (hex_digit (drop_bit 4 c))) OR hex_value (hex_digit (c AND 0xF)) = c"
    by (simp add: upt_rec hex_digit_def hex_value_def)
  ultimately show ?thesis using control_chars by blast
qed

lemma json_unquote_escape:
  "json_unquote (json_escape c @ r) = map_option (apfst (Cons c)) (json_unquote r)"
  using hex_control [of c] by (auto simp: json_escape_def)

lemma json_unquote_string: "json_unquote (concat (map json_escape s) @ 0x22 # r) = Some (s, r)"
  by (induction s) (simp_all add: json_unquote_escape)

section \<open>Properties\<close>

lemma length_writeVarint_aux:
  "unat v < 2 ^ (7 * n) \<Longrightarrow> 0 < n \<Longrightarrow> length (writeVarint v) \<le> n"
proof (induction v arbitrary: n rule: writeVarint.induct)
  case (1 v)
  obtain m where n: "n = Suc m" using "1.prems"(2) by (cases n) auto
  show ?case
  proof (cases "0x80 \<le> v")
    case True
    have "unat v \<ge> 128" using True by (simp add: word_le_nat_alt)
    have dv: "unat (drop_bit 7 v) = unat v div 128" by (simp add: drop_bit_eq_div unat_div_distrib)
    have lt: "unat v < 128 * 2 ^ (7 * m)" using "1.prems"(1) by (simp add: n power_add)
    have "0 < m" using lt \<open>unat v \<ge> 128\<close> by (cases m) auto
    moreover have "unat (drop_bit 7 v) < 2 ^ (7 * m)"
      using lt dv by (simp add: less_mult_imp_div_less mult.commute)
    ultimately show ?thesis using "1.IH" [OF True, of m] True by (subst writeVarint.simps) (simp add: n)
  qed (subst writeVarint.simps, simp add: n)
qed

lemma length_writeVarint: "length (writeVarint v) \<le> 10"
proof -
  have "unat v < 2 ^ 64" using unsigned_less [of v, where 'a = nat] by simp
  then have "unat v < 2 ^ (7 * 10)" by simp
  then show ?thesis by (rule length_writeVarint_aux) simp
qed

lemma Serializer_decode_encode:
  assumes "length (Serializer_encode v) < 2 ^ 64"
  shows "Serializer_decode e (Serializer_encode v) = Some (received e (VStruct (as_struct v)))"
  using read_write(4) [of "as_struct v" e] assms
  by (simp add: Serializer_decode_def Serializer_encode_def del: power_numeral)



lemma find_field_append:
  "find_field i (xs @ ys) = (case find_field i xs of Some v \<Rightarrow> Some v | None \<Rightarrow> find_field i ys)"
  by (induction xs) auto

lemma find_field_absent: "i \<notin> fst ` set xs \<Longrightarrow> find_field i xs = None"
  by (induction xs) auto



text \<open>C30: The decoder is safe on arbitrary input: it terminates on every byte string, what it leaves unread
  is a suffix of the input (no read past the end), and the value it builds, counted in nodes and string
  bytes, is never larger than the input (no amplification).\<close>

theorem serializer_decode_bounded:
  shows "(\<forall>v r. readTyped e bs = Some (v, r) \<longrightarrow> (\<exists>p. bs = p @ r) \<and> vweight v + length r \<le> length bs) \<and>
    (\<forall>v. Serializer_decode e bs = Some v \<longrightarrow> vweight v \<le> 1 + length bs)"
proof (intro conjI allI impI)
  fix v assume "Serializer_decode e bs = Some v"
  then show "vweight v \<le> 1 + length bs"
    by (auto simp: Serializer_decode_def dest: read_weight(4))
qed (auto dest: readTyped_suffix read_weight(1))

theorem serializer_decode_bounded_witness:
  "let v = VStruct [(1, VString [97, 98])]
   in Serializer_decode Little (Serializer_encode v) = Some v \<and> vweight v \<le> 1 + length (Serializer_encode v)"
proof -
  define v where "v = VStruct [(1, VString [97, 98])]"
  have "length (Serializer_encode v) < 2 ^ 64"
    by (simp add: v_def Serializer_encode_def as_struct_def writeTag_def writeVarint.simps writePayload_def)
  then have "Serializer_decode Little (Serializer_encode v) = Some v"
    by (subst Serializer_decode_encode) (simp_all add: v_def as_struct_def)
  then show ?thesis
    using serializer_decode_bounded [of Little "Serializer_encode v"] by (simp add: v_def Let_def)
qed

text \<open>Doubles travel low byte first but are read in host order: on a big-endian host the decoder
  returns every double with its eight bytes reversed, so for instance 1.0 does not survive.\<close>

theorem serializer_double_big_endian:
  "Serializer_decode Big (Serializer_encode (VStruct [(i, VDouble d)])) = Some (VStruct [(i, VDouble (bswap 8 d))]) \<and>
   bswap 8 (0x3FF0000000000000 :: u64) \<noteq> 0x3FF0000000000000"
proof
  have "length (writeTag i) \<le> 10"
    unfolding writeTag_def by (rule length_writeVarint)
  then have "length (Serializer_encode (VStruct [(i, VDouble d)])) < 2 ^ 64"
    by (simp add: Serializer_encode_def as_struct_def)
  then show "Serializer_decode Big (Serializer_encode (VStruct [(i, VDouble d)])) =
      Some (VStruct [(i, VDouble (bswap 8 d))])"
    by (subst Serializer_decode_encode) (simp_all add: as_struct_def)
  show "bswap 8 (0x3FF0000000000000 :: u64) \<noteq> 0x3FF0000000000000"
    by (simp add: bswap_def le_bytes_def upt_rec)
qed

text \<open>The debug view never leaks a raw control character or an unescaped quote of a string: the literal
  it prints for any byte string is read back by a JSON string reader to exactly that byte string, with
  whatever follows it left over.\<close>

theorem toJson_string_literal:
  "\<exists>lit. toJson fmt (VString s) = 0x22 # lit \<and> json_unquote (lit @ rest) = Some (s, rest)"
  by (simp add: json_string_def json_unquote_string)

end
