(* ===== verification/RpcController.thy ===== *)
theory RpcController
  imports Protocol
begin

text \<open>
  \<^verbatim>\<open>include/RpcController.h\<close>: the per-call context a caller fills in and reads the outcome from.
\<close>

record controller =
  ctl_methodKey :: bytes
  ctl_methodId :: u32
  ctl_timeoutMs :: u32
  ctl_requestKey :: u32
  ctl_idempotent :: bool
  ctl_traceId :: u64
  ctl_status :: u16
  ctl_errorText :: bytes

definition new_controller :: controller where
  "new_controller = \<lparr>ctl_methodKey = [], ctl_methodId = 0, ctl_timeoutMs = 0, ctl_requestKey = 0,
     ctl_idempotent = True, ctl_traceId = 0, ctl_status = kOk, ctl_errorText = []\<rparr>"

definition setMethodKey :: "bytes \<Rightarrow> controller \<Rightarrow> controller" where
  "setMethodKey key c = c\<lparr>ctl_methodKey := key, ctl_methodId := methodIdOf key\<rparr>"

definition setMethod :: "bytes \<Rightarrow> bytes \<Rightarrow> controller \<Rightarrow> controller" where
  "setMethod service method c =
     c\<lparr>ctl_methodKey := service @ lit ''.'' @ method, ctl_methodId := methodIdOf (service @ lit ''.'' @ method)\<rparr>"

definition hasDeadline :: "controller \<Rightarrow> bool" where
  "hasDeadline c \<longleftrightarrow> ctl_timeoutMs c > 0"

definition setStatus :: "u16 \<Rightarrow> bytes \<Rightarrow> controller \<Rightarrow> controller" where
  "setStatus status text c = c\<lparr>ctl_status := status, ctl_errorText := text\<rparr>"

lemma setMethod_key: "setMethod service method c = setMethodKey (service @ lit ''.'' @ method) c"
  by (simp add: setMethod_def setMethodKey_def)

end
