(* ===== verification/Accounting.thy ===== *)
theory Accounting
  imports RpcPrelude "HOL-Library.Multiset"
begin

text \<open>
  Components that take obligations and settle them later: the channel owes every call its done callback,
  the registry every subscription its callback, the server every request an end. A component of this kind
  is a step function with effects; \<open>run_ops\<close> performs a sequence of operations. The locale \<open>accounting\<close> is
  the contract that each operation balances: what it settles and what it leaves waiting is what was
  waiting and what it takes on. Then every sequence of operations balances, so no obligation is lost and
  none is settled twice.
\<close>

fun run_ops :: "('op \<Rightarrow> 's \<Rightarrow> 's \<times> 'e list) \<Rightarrow> 'op list \<Rightarrow> 's \<Rightarrow> 's \<times> 'e list" where
  "run_ops step [] s = (s, [])"
| "run_ops step (x # xs) s =
     (let (s1, e1) = step x s; (s2, e2) = run_ops step xs s1 in (s2, e1 @ e2))"

definition settled :: "('e \<Rightarrow> 'c multiset) \<Rightarrow> 'e list \<Rightarrow> 'c multiset" where
  "settled settles es = sum_list (map settles es)"

lemma settled_simps [simp]:
  "settled f [] = {#}" "settled f (x # xs) = f x + settled f xs" "settled f (xs @ ys) = settled f xs + settled f ys"
  by (simp_all add: settled_def)

lemma settled_single: "settled (\<lambda>c. {#c#}) cs = mset cs"
  by (induction cs) simp_all

lemma settled_concat: "settled f (concat xss) = sum_list (map (settled f) xss)"
  by (induction xss) simp_all

lemma run_ops_append:
  "run_ops step (xs @ ys) s =
     (fst (run_ops step ys (fst (run_ops step xs s))),
      snd (run_ops step xs s) @ snd (run_ops step ys (fst (run_ops step xs s))))"
  by (induction xs arbitrary: s) (simp_all add: split_beta Let_def)

text \<open>Replacing one entry of a table.\<close>

lemma sum_list_update:
  fixes f :: "'a \<Rightarrow> 'b multiset"
  shows "i < length xs \<Longrightarrow> sum_list (map f (xs[i := x])) + f (xs ! i) = sum_list (map f xs) + f x"
proof (induction xs arbitrary: i)
  case (Cons y xs)
  then show ?case
    by (cases i) (simp_all add: ac_simps)
qed simp

text \<open>Taking one entry out of a list.\<close>

definition remove_at :: "nat \<Rightarrow> 'a list \<Rightarrow> 'a list" where
  "remove_at i xs = take i xs @ drop (Suc i) xs"

lemma remove_at_simps:
  assumes "i < length xs"
  shows "length (remove_at i xs) = length xs - 1" "set (remove_at i xs) \<subseteq> set xs"
    "sum_list (map f xs) = f (xs ! i) + sum_list (map (f :: 'a \<Rightarrow> 'b::comm_monoid_add) (remove_at i xs))"
proof -
  show "length (remove_at i xs) = length xs - 1" using assms by (simp add: remove_at_def)
  show "set (remove_at i xs) \<subseteq> set xs" by (auto simp: remove_at_def dest: in_set_takeD in_set_dropD)
  have "sum_list (map f xs) = sum_list (map f (take i xs @ xs ! i # drop (Suc i) xs))"
    using assms by (simp add: id_take_nth_drop [symmetric])
  then show "sum_list (map f xs) = f (xs ! i) + sum_list (map f (remove_at i xs))"
    by (simp add: remove_at_def ac_simps)
qed

locale accounting =
  fixes step :: "'op \<Rightarrow> 's \<Rightarrow> 's \<times> 'e list"
    and ok :: "'s \<Rightarrow> bool"
    and waiting :: "'s \<Rightarrow> 'c multiset"
    and settles :: "'e \<Rightarrow> 'c multiset"
    and issued :: "'op \<Rightarrow> 'c multiset"
  assumes ok_step: "ok s \<Longrightarrow> ok (fst (step x s))"
    and balance: "ok s \<Longrightarrow> settled settles (snd (step x s)) + waiting (fst (step x s)) = waiting s + issued x"
begin

lemma run_ok: "ok s \<Longrightarrow> ok (fst (run_ops step xs s))"
  by (induction xs arbitrary: s) (simp_all add: split_beta Let_def ok_step)

lemma run_balance:
  "ok s \<Longrightarrow> settled settles (snd (run_ops step xs s)) + waiting (fst (run_ops step xs s)) =
    waiting s + sum_list (map issued xs)"
proof (induction xs arbitrary: s)
  case (Cons x xs)
  show ?case
    using Cons.IH [OF ok_step [OF Cons.prems]] balance [OF Cons.prems, of x]
    by (simp add: split_beta Let_def ac_simps)
qed simp

lemma run_at_most_once:
  assumes "ok s" and "waiting s = {#}"
  shows "settled settles (snd (run_ops step xs s)) \<subseteq># sum_list (map issued xs)"
  using run_balance [OF assms(1), of xs] assms(2) by (metis add_0 mset_subset_eq_add_left)

lemma run_exactly_once:
  assumes "ok s" and "waiting s = {#}" and "waiting (fst (run_ops step xs s)) = {#}"
  shows "settled settles (snd (run_ops step xs s)) = sum_list (map issued xs)"
  using run_balance [OF assms(1), of xs] assms(2,3) by simp

end

end
