(* ===== verification/RpcChannel.thy ===== *)
theory RpcChannel
  imports RpcFramer Serializer RpcController Accounting
begin

text \<open>
  \<^verbatim>\<open>include/RpcChannel.h\<close>, \<^verbatim>\<open>src/RpcChannel.cpp\<close>: the client's connection to one server, multiplexing calls
  by request id. Every method is a function from the channel state to the new state and the list of
  effects it performs, in order: callbacks of the callers, socket operations, tasks handed to the event
  loop and timers. The outcomes of system calls and the clock readings are arguments, \<open>tid\<close> is the id
  that the event loop gives to a reconnect timer. A caller (its controller, response and done callback)
  is an element of the type parameter. A use of the null \<^verbatim>\<open>channel_\<close> and a call of an empty
  \<^verbatim>\<open>std::function\<close> are effects of their own.
\<close>

section \<open>State\<close>

datatype conn_state = ConnIdle | Connecting | Ready | ConnClosed

record 'c pending_call =
  pc_id :: u32
  pc_call :: 'c
  pc_hasDone :: bool
  pc_timeoutMs :: u32
  pc_start :: time

record poll_channel =
  poll_reading :: bool
  poll_writing :: bool

record 'c chan =
  ch_state :: conn_state
  ch_sockfd :: int
  ch_channel :: "poll_channel option"
  ch_inputBuffer :: buffer
  ch_pending :: "'c pending_call option list"
  ch_freeSlots :: "nat list"
  ch_connectTimeoutMs :: u32
  ch_outputQueue :: bytes
  ch_heartbeatIntervalMs :: u32
  ch_lastReceivedAt :: time
  ch_unansweredHeartbeats :: u32
  ch_latencyEmaMs :: rat
  ch_reconnectEnabled :: bool
  ch_reconnectTimerId :: nat

definition new_chan :: "time \<Rightarrow> 'c chan" where
  "new_chan now =
     \<lparr>ch_state = ConnIdle, ch_sockfd = -1, ch_channel = None, ch_inputBuffer = new_buffer 1024, ch_pending = [],
      ch_freeSlots = [], ch_connectTimeoutMs = 200, ch_outputQueue = [], ch_heartbeatIntervalMs = 0,
      ch_lastReceivedAt = now, ch_unansweredHeartbeats = 0, ch_latencyEmaMs = 0, ch_reconnectEnabled = True,
      ch_reconnectTimerId = 0\<rparr>"

datatype 'c chan_effect =
    SetStatus 'c u16 bytes
  | SetResponse 'c rpc_value
  | InvokeDone 'c
  | BadFunctionCall
  | NullDereference
  | SocketWrite bytes
  | CloseSocket int
  | RemoveChannel
  | QueueArm u32                     \<comment> \<open>\<^verbatim>\<open>runInLoop\<close>: arm the deadline timer\<close>
  | QueueSend u32 u32 u32 bytes u64  \<comment> \<open>\<^verbatim>\<open>runInLoop\<close>: \<^verbatim>\<open>sendInLoop\<close>\<close>
  | QueueFail u32 u16 bytes          \<comment> \<open>\<^verbatim>\<open>runInLoop\<close>: \<^verbatim>\<open>failPending\<close>\<close>
  | RunAfterTimeout u32 u32          \<comment> \<open>\<^verbatim>\<open>runAfter(ms)\<close>: \<^verbatim>\<open>onCallTimeout(id)\<close>\<close>
  | RunAfterConnect u32
  | RunAfterReconnect nat
  | RunEveryHeartbeat u32
  | CancelTimer nat

type_synonym 'c chan_result = "'c chan \<times> 'c chan_effect list"

datatype connect_result = ConnectOk | ConnectInProgress | ConnectError
datatype write_result = Wrote nat | WriteAgain | WriteError
datatype read_result = ReadBytes bytes "nat \<Rightarrow> time" | ReadEof | ReadIntr | ReadAgain | ReadError

section \<open>Observers and settings\<close>

definition isHealthy :: "'c chan \<Rightarrow> bool" where
  "isHealthy ch \<longleftrightarrow> ch_state ch \<noteq> ConnClosed"

definition inflightCount :: "'c chan \<Rightarrow> nat" where
  "inflightCount ch = length (filter (\<lambda>p. p \<noteq> None) (ch_pending ch))"

definition setConnectTimeoutMs :: "u32 \<Rightarrow> 'c chan \<Rightarrow> 'c chan" where
  "setConnectTimeoutMs ms ch = ch\<lparr>ch_connectTimeoutMs := ms\<rparr>"

definition setHeartbeatIntervalMs :: "u32 \<Rightarrow> 'c chan \<Rightarrow> 'c chan" where
  "setHeartbeatIntervalMs ms ch = ch\<lparr>ch_heartbeatIntervalMs := ms\<rparr>"

section \<open>Closing\<close>

definition scheduleReconnect :: "nat \<Rightarrow> 'c chan \<Rightarrow> 'c chan_result" where
  "scheduleReconnect tid ch =
     (ch\<lparr>ch_reconnectTimerId := tid\<rparr>,
      (if ch_reconnectTimerId ch \<noteq> 0 then [CancelTimer (ch_reconnectTimerId ch)] else []) @
      [RunAfterReconnect tid])"

text \<open>The completion of one doomed call by \<^verbatim>\<open>handleClose\<close>, and by \<^verbatim>\<open>stop\<close> and the destructor.\<close>

definition doom :: "bytes \<Rightarrow> 'c pending_call option \<Rightarrow> 'c chan_effect list" where
  "doom text p =
     (case p of
        None \<Rightarrow> []
      | Some pc \<Rightarrow> SetStatus (pc_call pc) kUnknown text # (if pc_hasDone pc then [InvokeDone (pc_call pc)] else []))"

definition doom_done :: "bytes \<Rightarrow> 'c pending_call option \<Rightarrow> 'c chan_effect list" where
  "doom_done text p =
     (case p of
        None \<Rightarrow> []
      | Some pc \<Rightarrow> if pc_hasDone pc then [SetStatus (pc_call pc) kUnknown text, InvokeDone (pc_call pc)] else [])"

definition close_socket :: "'c chan \<Rightarrow> 'c chan_effect list" where
  "close_socket ch =
     (if ch_sockfd ch \<ge> 0
      then (if ch_channel ch \<noteq> None then [RemoveChannel] else []) @ [CloseSocket (ch_sockfd ch)] else [])"

definition handleClose :: "nat \<Rightarrow> 'c chan \<Rightarrow> 'c chan_result" where
  "handleClose tid ch =
     (if ch_state ch = ConnClosed then (ch, [])
      else let ch1 = ch\<lparr>ch_state := ConnClosed, ch_sockfd := (if ch_sockfd ch \<ge> 0 then -1 else ch_sockfd ch),
                        ch_channel := None, ch_pending := [], ch_freeSlots := []\<rparr>;
               effs = close_socket ch @ concat (map (doom (lit ''connection closed'')) (ch_pending ch))
           in if ch_reconnectEnabled ch
              then let (ch2, effs2) = scheduleReconnect tid ch1 in (ch2, effs @ effs2)
              else (ch1, effs))"

text \<open>The task of \<^verbatim>\<open>stop\<close>, run on the loop thread.\<close>

definition stop_task :: "'c chan \<Rightarrow> 'c chan_result" where
  "stop_task ch =
     (ch\<lparr>ch_reconnectEnabled := False, ch_reconnectTimerId := 0,
         ch_sockfd := (if ch_sockfd ch \<ge> 0 then -1 else ch_sockfd ch), ch_channel := None,
         ch_state := ConnClosed, ch_pending := [], ch_freeSlots := []\<rparr>,
      (if ch_reconnectTimerId ch \<noteq> 0 then [CancelTimer (ch_reconnectTimerId ch)] else []) @
      close_socket ch @ concat (map (doom_done (lit ''channel stopped'')) (ch_pending ch)))"

text \<open>The destructor, which does not go through the event loop.\<close>

definition destroy_chan :: "'c chan \<Rightarrow> 'c chan_result" where
  "destroy_chan ch =
     (ch\<lparr>ch_state := ConnClosed, ch_sockfd := -1, ch_channel := None, ch_pending := [], ch_freeSlots := []\<rparr>,
      (if ch_sockfd ch \<ge> 0 then [CloseSocket (ch_sockfd ch)] else []) @
      concat (map (doom_done (lit ''channel destroyed'')) (ch_pending ch)))"

section \<open>The table of calls in flight\<close>

text \<open>
  \<^verbatim>\<open>asyncCall\<close> up to its \<^verbatim>\<open>return\<close>: \<open>trace\<close> is \<^verbatim>\<open>controller.traceId()\<close> and \<open>gen\<close> the value
  \<^verbatim>\<open>tracing::generateTraceId()\<close> gives if it is zero.
\<close>

definition asyncCall :: "time \<Rightarrow> 'c \<Rightarrow> bool \<Rightarrow> u32 \<Rightarrow> u32 \<Rightarrow> u64 \<Rightarrow> u64 \<Rightarrow> rpc_value \<Rightarrow> 'c chan \<Rightarrow>
    u32 \<times> 'c chan_result" where
  "asyncCall now c hasDone methodId timeoutMs trace gen request ch =
     (let body = Serializer_encode request
      in if ch_state ch = ConnClosed
         then (0, ch, [SetStatus c kUnknown (lit ''channel closed''), if hasDone then InvokeDone c else BadFunctionCall])
         else let (slot, table, free) =
                    (case ch_freeSlots ch of
                       [] \<Rightarrow> (length (ch_pending ch), ch_pending ch @ [None], [])
                     | s # fs \<Rightarrow> (s, ch_pending ch, fs));
                  idv = of_nat slot + 1;
                  pc = \<lparr>pc_id = idv, pc_call = c, pc_hasDone = hasDone, pc_timeoutMs = timeoutMs, pc_start = now\<rparr>
              in (idv, ch\<lparr>ch_pending := table[slot := Some pc], ch_freeSlots := free\<rparr>,
                  (if timeoutMs > 0 then [QueueArm idv] else []) @
                  [QueueSend idv methodId timeoutMs body (if trace \<noteq> 0 then trace else gen)]))"

text \<open>The guard of every access by id: the slot exists, is taken, and holds this id.\<close>

definition pending_at :: "u32 \<Rightarrow> 'c chan \<Rightarrow> 'c pending_call option" where
  "pending_at idv ch =
     (let slot = unat (idv - 1)
      in if slot \<ge> length (ch_pending ch) then None
         else case ch_pending ch ! slot of
                None \<Rightarrow> None
              | Some pc \<Rightarrow> if pc_id pc \<noteq> idv then None else Some pc)"

definition release_slot :: "u32 \<Rightarrow> 'c chan \<Rightarrow> 'c chan" where
  "release_slot idv ch =
     ch\<lparr>ch_pending := (ch_pending ch)[unat (idv - 1) := None], ch_freeSlots := ch_freeSlots ch @ [unat (idv - 1)]\<rparr>"

definition arm_timer :: "u32 \<Rightarrow> 'c chan \<Rightarrow> 'c chan_result" where
  "arm_timer idv ch =
     (ch, case pending_at idv ch of
            None \<Rightarrow> []
          | Some pc \<Rightarrow> if pc_timeoutMs pc > 0 then [RunAfterTimeout (pc_timeoutMs pc) idv] else [])"

definition failPending :: "u32 \<Rightarrow> u16 \<Rightarrow> bytes \<Rightarrow> 'c chan \<Rightarrow> 'c chan_result" where
  "failPending idv status text ch =
     (case pending_at idv ch of
        None \<Rightarrow> (ch, [])
      | Some pc \<Rightarrow> (release_slot idv ch,
          SetStatus (pc_call pc) status text # (if pc_hasDone pc then [InvokeDone (pc_call pc)] else [])))"

definition onCallTimeout :: "u32 \<Rightarrow> 'c chan \<Rightarrow> 'c chan_result" where
  "onCallTimeout idv ch = failPending idv kDeadlineExceeded (lit ''client deadline exceeded'') ch"

definition cancelCall :: "u32 \<Rightarrow> u16 \<Rightarrow> bytes \<Rightarrow> 'c chan \<Rightarrow> 'c chan_result" where
  "cancelCall idv status text ch = (ch, [QueueFail idv status text])"

definition update_ema :: "rounding \<Rightarrow> int \<Rightarrow> rat \<Rightarrow> rat" where
  "update_ema rnd ms ema =
     (if ema \<le> 0 then rnd (of_int ms)
      else rnd (rnd (rnd (1/10) * rnd (of_int ms)) + rnd (rnd (9/10) * ema)))"

definition dispatchResponse :: "rounding \<Rightarrow> endian \<Rightarrow> time \<Rightarrow> message \<Rightarrow> 'c chan \<Rightarrow> 'c chan_result" where
  "dispatchResponse rnd e now resp ch =
     (let h = msg_header resp
      in case pending_at (hdr_requestId h) ch of
           None \<Rightarrow> (ch, [])
         | Some pc \<Rightarrow>
             let ch1 = release_slot (hdr_requestId h) ch;
                 ch2 = (if hdr_status h = kOk
                        then ch1\<lparr>ch_latencyEmaMs := update_ema rnd (to_ms (now - pc_start pc)) (ch_latencyEmaMs ch1)\<rparr>
                        else ch1)
             in (ch2,
                 SetStatus (pc_call pc) (hdr_status h) (if hdr_status h = kOk then [] else lit ''rpc failed'') #
                 (if hdr_status h = kOk \<and> msg_body resp \<noteq> []
                  then case Serializer_decode e (msg_body resp) of None \<Rightarrow> [] | Some v \<Rightarrow> [SetResponse (pc_call pc) v]
                  else []) @
                 (if pc_hasDone pc then [InvokeDone (pc_call pc)] else [])))"

section \<open>Output\<close>

definition flushOutput :: "write_result \<Rightarrow> nat \<Rightarrow> 'c chan \<Rightarrow> 'c chan_result" where
  "flushOutput wr tid ch =
     (if ch_state ch \<noteq> Ready \<or> ch_outputQueue ch = [] then (ch, [])
      else let frame = ch_outputQueue ch; ch1 = ch\<lparr>ch_outputQueue := []\<rparr>
           in case wr of
                WriteError \<Rightarrow> handleClose tid ch1
              | WriteAgain \<Rightarrow> (ch1, [])
              | Wrote n \<Rightarrow>
                  (if n > 0 \<and> n < length frame then ch1\<lparr>ch_outputQueue := drop n frame\<rparr> else ch1,
                   [SocketWrite (take n frame)]))"

definition writeFrame :: "endian \<Rightarrow> write_result \<Rightarrow> nat \<Rightarrow> rpc_header \<Rightarrow> bytes \<Rightarrow> 'c chan \<Rightarrow> 'c chan_result" where
  "writeFrame e wr tid header body ch =
     (let frame = RpcFramer_encode e \<lparr>msg_header = header, msg_body = body\<rparr>
      in if ch_state ch \<noteq> Ready then (ch\<lparr>ch_outputQueue := ch_outputQueue ch @ frame\<rparr>, [])
         else if ch_outputQueue ch \<noteq> []
         then flushOutput wr tid (ch\<lparr>ch_outputQueue := ch_outputQueue ch @ frame\<rparr>)
         else case wr of
                WriteAgain \<Rightarrow> (ch\<lparr>ch_outputQueue := frame\<rparr>, [])
              | WriteError \<Rightarrow> handleClose tid ch
              | Wrote n \<Rightarrow>
                  (if n < length frame then ch\<lparr>ch_outputQueue := drop n frame\<rparr> else ch,
                   [SocketWrite (take n frame)]))"

definition sendInLoop :: "endian \<Rightarrow> write_result \<Rightarrow> nat \<Rightarrow> u32 \<Rightarrow> u32 \<Rightarrow> u32 \<Rightarrow> bytes \<Rightarrow> u64 \<Rightarrow> 'c chan \<Rightarrow>
    'c chan_result" where
  "sendInLoop e wr tid idv methodId timeoutMs body traceId ch =
     (if ch_state ch = ConnClosed then failPending idv kUnknown (lit ''channel closed before send'') ch
      else writeFrame e wr tid
        (zero_header\<lparr>hdr_msgType := kMsgRequest, hdr_requestId := idv, hdr_methodId := methodId,
           hdr_timeoutMs := timeoutMs, hdr_traceId := traceId\<rparr>) body ch)"

section \<open>Connection\<close>

definition onConnected :: "time \<Rightarrow> write_result \<Rightarrow> nat \<Rightarrow> 'c chan \<Rightarrow> 'c chan_result" where
  "onConnected now wr tid ch =
     (let ch1 = ch\<lparr>ch_state := Ready\<rparr>
      in case ch_channel ch1 of
           None \<Rightarrow> (ch1, [NullDereference])
         | Some pch \<Rightarrow>
             let ch2 = ch1\<lparr>ch_channel := Some (pch\<lparr>poll_writing := False, poll_reading := True\<rparr>),
                           ch_lastReceivedAt := now, ch_unansweredHeartbeats := 0\<rparr>;
                 (ch3, effs) = flushOutput wr tid ch2
             in (ch3, (if ch_heartbeatIntervalMs ch2 > 0 then [RunEveryHeartbeat (ch_heartbeatIntervalMs ch2)] else []) @ effs))"

text \<open>\<open>fd\<close> is the result of \<^verbatim>\<open>socket\<close>, \<open>aton\<close> whether \<^verbatim>\<open>inet_pton\<close> accepts the address.\<close>

definition doConnect :: "int \<Rightarrow> bool \<Rightarrow> connect_result \<Rightarrow> time \<Rightarrow> write_result \<Rightarrow> nat \<Rightarrow> 'c chan \<Rightarrow> 'c chan_result" where
  "doConnect fd aton res now wr tid ch =
     (let ch1 = ch\<lparr>ch_state := Connecting, ch_sockfd := fd\<rparr>
      in if fd < 0 then handleClose tid ch1
         else if \<not> aton then handleClose tid ch1
         else case res of
                ConnectOk \<Rightarrow> onConnected now wr tid ch1
              | ConnectError \<Rightarrow> handleClose tid ch1
              | ConnectInProgress \<Rightarrow>
                  (ch1\<lparr>ch_channel := Some \<lparr>poll_reading = False, poll_writing = True\<rparr>\<rparr>,
                   [RunAfterConnect (ch_connectTimeoutMs ch1)]))"

definition start_task :: "int \<Rightarrow> bool \<Rightarrow> connect_result \<Rightarrow> time \<Rightarrow> write_result \<Rightarrow> nat \<Rightarrow> 'c chan \<Rightarrow> 'c chan_result" where
  "start_task fd aton res now wr tid ch =
     (if ch_state ch = ConnIdle then doConnect fd aton res now wr tid ch else (ch, []))"

definition connect_timer :: "nat \<Rightarrow> 'c chan \<Rightarrow> 'c chan_result" where
  "connect_timer tid ch = (if ch_state ch = Connecting then handleClose tid ch else (ch, []))"

definition reconnect_timer :: "int \<Rightarrow> bool \<Rightarrow> connect_result \<Rightarrow> time \<Rightarrow> write_result \<Rightarrow> nat \<Rightarrow> 'c chan \<Rightarrow> 'c chan_result" where
  "reconnect_timer fd aton res now wr tid ch =
     (let ch1 = ch\<lparr>ch_reconnectTimerId := 0\<rparr>
      in if ch_reconnectEnabled ch1 \<and> ch_state ch1 = ConnClosed then doConnect fd aton res now wr tid ch1 else (ch1, []))"

definition handleConnectWrite :: "int \<Rightarrow> time \<Rightarrow> write_result \<Rightarrow> nat \<Rightarrow> 'c chan \<Rightarrow> 'c chan_result" where
  "handleConnectWrite so_error now wr tid ch =
     (if ch_state ch \<noteq> Connecting then (ch, [])
      else if so_error \<noteq> 0 then handleClose tid ch
      else onConnected now wr tid ch)"

definition onHeartbeatTick :: "endian \<Rightarrow> time \<Rightarrow> write_result \<Rightarrow> nat \<Rightarrow> 'c chan \<Rightarrow> 'c chan_result" where
  "onHeartbeatTick e now wr tid ch =
     (if ch_state ch \<noteq> Ready then (ch, [])
      else if to_ms (now - ch_lastReceivedAt ch) < uint (ch_heartbeatIntervalMs ch) then (ch, [])
      else if ch_unansweredHeartbeats ch \<ge> 2 then handleClose tid ch
      else writeFrame e wr tid (zero_header\<lparr>hdr_msgType := kMsgHeartbeat, hdr_requestId := 0\<rparr>) []
             (ch\<lparr>ch_unansweredHeartbeats := ch_unansweredHeartbeats ch + 1\<rparr>))"

text \<open>The frames completed by one read are dispatched in order; \<open>clk i\<close> is the clock at the \<open>i\<close>-th.\<close>

fun dispatch_all :: "rounding \<Rightarrow> endian \<Rightarrow> (nat \<Rightarrow> time) \<Rightarrow> nat \<Rightarrow> message list \<Rightarrow> 'c chan \<Rightarrow> 'c chan_result" where
  "dispatch_all rnd e clk i [] ch = (ch, [])"
| "dispatch_all rnd e clk i (m # ms) ch =
     (let (ch1, effs) = dispatchResponse rnd e (clk i) m ch;
          (ch2, effs') = dispatch_all rnd e clk (Suc i) ms ch1
      in (ch2, effs @ effs'))"

fun read_loop :: "rounding \<Rightarrow> endian \<Rightarrow> nat \<Rightarrow> read_result list \<Rightarrow> 'c chan \<Rightarrow> 'c chan_result" where
  "read_loop rnd e tid [] ch = (ch, [])"
| "read_loop rnd e tid (ReadBytes bs clk # rs) ch =
     (let (ms, b) = RpcFramer_decode e (buf_append bs (ch_inputBuffer ch));
          (ch1, effs) = dispatch_all rnd e clk 0 ms (ch\<lparr>ch_inputBuffer := b\<rparr>);
          (ch2, effs') = read_loop rnd e tid rs ch1
      in (ch2, effs @ effs'))"
| "read_loop rnd e tid (ReadEof # rs) ch = handleClose tid ch"
| "read_loop rnd e tid (ReadIntr # rs) ch = read_loop rnd e tid rs ch"
| "read_loop rnd e tid (ReadAgain # rs) ch = (ch, [])"
| "read_loop rnd e tid (ReadError # rs) ch = handleClose tid ch"

definition handleRead :: "rounding \<Rightarrow> endian \<Rightarrow> time \<Rightarrow> nat \<Rightarrow> read_result list \<Rightarrow> 'c chan \<Rightarrow> 'c chan_result" where
  "handleRead rnd e now tid rs ch =
     read_loop rnd e tid rs (ch\<lparr>ch_lastReceivedAt := now, ch_unansweredHeartbeats := 0\<rparr>)"

section \<open>Executions\<close>

text \<open>The entry points of a channel: calls of its methods, tasks and timers of the loop, poller events.\<close>

datatype 'c chan_op =
    OpCall time 'c bool u32 u32 u64 u64 rpc_value
  | OpArm u32
  | OpTimeout u32
  | OpFail u32 u16 bytes
  | OpSend write_result nat u32 u32 u32 bytes u64
  | OpStart int bool connect_result time write_result nat
  | OpConnectTimer nat
  | OpReconnect int bool connect_result time write_result nat
  | OpConnectWrite int time write_result nat
  | OpClose nat
  | OpRead time nat "read_result list"
  | OpHeartbeat time write_result nat
  | OpStop

fun chan_step :: "rounding \<Rightarrow> endian \<Rightarrow> 'c chan_op \<Rightarrow> 'c chan \<Rightarrow> 'c chan_result" where
  "chan_step rnd e (OpCall now c hasDone mid tmo trace gen req) ch = snd (asyncCall now c hasDone mid tmo trace gen req ch)"
| "chan_step rnd e (OpArm i) ch = arm_timer i ch"
| "chan_step rnd e (OpTimeout i) ch = onCallTimeout i ch"
| "chan_step rnd e (OpFail i status text) ch = failPending i status text ch"
| "chan_step rnd e (OpSend wr tid i mid tmo body trace) ch = sendInLoop e wr tid i mid tmo body trace ch"
| "chan_step rnd e (OpStart fd aton res now wr tid) ch = start_task fd aton res now wr tid ch"
| "chan_step rnd e (OpConnectTimer tid) ch = connect_timer tid ch"
| "chan_step rnd e (OpReconnect fd aton res now wr tid) ch = reconnect_timer fd aton res now wr tid ch"
| "chan_step rnd e (OpConnectWrite err now wr tid) ch = handleConnectWrite err now wr tid ch"
| "chan_step rnd e (OpClose tid) ch = handleClose tid ch"
| "chan_step rnd e (OpRead now tid rs) ch = handleRead rnd e now tid rs ch"
| "chan_step rnd e (OpHeartbeat now wr tid) ch = onHeartbeatTick e now wr tid ch"
| "chan_step rnd e OpStop ch = stop_task ch"

section \<open>The slot table\<close>

text \<open>
  The free slots are exactly the empty ones, each listed once; a taken slot holds the id of its
  position; a closed channel has no table and, like an idle one, no poller channel.
\<close>

definition chan_ok :: "'c chan \<Rightarrow> bool" where
  "chan_ok ch \<longleftrightarrow>
     distinct (ch_freeSlots ch) \<and>
     set (ch_freeSlots ch) = {i. i < length (ch_pending ch) \<and> ch_pending ch ! i = None} \<and>
     (\<forall>i < length (ch_pending ch). \<forall>pc. ch_pending ch ! i = Some pc \<longrightarrow> pc_id pc = of_nat i + 1) \<and>
     (ch_state ch = ConnClosed \<longrightarrow> ch_pending ch = []) \<and>
     (ch_state ch \<in> {ConnClosed, ConnIdle} \<longrightarrow> ch_channel ch = None)"

lemma new_chan_ok: "chan_ok (new_chan now)"
  by (simp add: chan_ok_def new_chan_def)

text \<open>Only the table, the state and the poller channel matter.\<close>

lemma chan_ok_cong:
  "chan_ok ch \<Longrightarrow> ch_pending ch' = ch_pending ch \<Longrightarrow> ch_freeSlots ch' = ch_freeSlots ch \<Longrightarrow>
    ch_state ch' = ch_state ch \<Longrightarrow> (ch_channel ch' = None \<longleftrightarrow> ch_channel ch = None) \<Longrightarrow> chan_ok ch'"
  by (simp add: chan_ok_def)

definition waiting_of :: "'c pending_call option \<Rightarrow> 'c multiset" where
  "waiting_of p = (case p of None \<Rightarrow> {#} | Some pc \<Rightarrow> if pc_hasDone pc then {#pc_call pc#} else {#})"

definition waiting :: "'c chan \<Rightarrow> 'c multiset" where
  "waiting ch = sum_list (map waiting_of (ch_pending ch))"

fun done_of :: "'c chan_effect \<Rightarrow> 'c multiset" where
  "done_of (InvokeDone c) = {#c#}"
| "done_of _ = {#}"

fun issued :: "'c chan_op \<Rightarrow> 'c multiset" where
  "issued (OpCall now c hasDone mid tmo trace gen req) = (if hasDone then {#c#} else {#})"
| "issued _ = {#}"

text \<open>An operation keeps the table well formed and balances the done callbacks.\<close>

definition balanced :: "'c multiset \<Rightarrow> 'c chan \<Rightarrow> 'c chan_result \<Rightarrow> bool" where
  "balanced new ch res \<longleftrightarrow>
     chan_ok (fst res) \<and> settled done_of (snd res) + waiting (fst res) = waiting ch + new"

lemma balanced_refl: "chan_ok ch \<Longrightarrow> balanced {#} ch (ch, [])"
  by (simp add: balanced_def)

lemma balanced_from:
  assumes "balanced {#} ch' res" and "ch_pending ch' = ch_pending ch"
  shows "balanced {#} ch res"
  using assms by (simp add: balanced_def waiting_def)

lemma balanced_seq:
  assumes "balanced {#} ch (ch1, effs1)" and "balanced {#} ch1 (ch2, effs2)"
  shows "balanced {#} ch (ch2, effs1 @ effs2)"
  using assms by (simp add: balanced_def add.assoc)

lemma balanced_silent:
  "balanced new ch (ch', effs) \<Longrightarrow> settled done_of effs' = {#} \<Longrightarrow> balanced new ch (ch', effs' @ effs)"
  by (simp add: balanced_def)

lemma pending_atD:
  assumes "pending_at i ch = Some pc"
  shows "unat (i - 1) < length (ch_pending ch)" "ch_pending ch ! unat (i - 1) = Some pc" "pc_id pc = i"
  using assms by (auto simp: pending_at_def Let_def split: if_splits option.splits)

lemma release_slot_ok:
  assumes "chan_ok ch" and "pending_at i ch = Some pc"
  shows "chan_ok (release_slot i ch)"
  using assms pending_atD [OF assms(2)]
  by (auto simp: chan_ok_def release_slot_def nth_list_update split: if_splits)

lemma waiting_release:
  assumes "pending_at i ch = Some pc"
  shows "waiting ch = waiting (release_slot i ch) + waiting_of (Some pc)"
  using sum_list_update [of "unat (i - 1)" "ch_pending ch" waiting_of None] pending_atD [OF assms]
  by (simp add: waiting_def release_slot_def waiting_of_def)

section \<open>Every operation balances\<close>

lemma settled_doom: "settled done_of (doom text p) = waiting_of p" "settled done_of (doom_done text p) = waiting_of p"
  by (auto simp: doom_def doom_done_def waiting_of_def split: option.splits)

lemma settled_dooms:
  "settled done_of (concat (map (doom text) (ch_pending ch))) = waiting ch"
  "settled done_of (concat (map (doom_done text) (ch_pending ch))) = waiting ch"
  by (simp_all add: settled_concat o_def settled_doom waiting_def)

lemma settled_close_socket [simp]: "settled done_of (close_socket ch) = {#}"
  by (simp add: close_socket_def)

lemma scheduleReconnect_effects [simp]:
  "settled done_of (snd (scheduleReconnect tid ch)) = {#}"
  "fst (scheduleReconnect tid ch) = ch\<lparr>ch_reconnectTimerId := tid\<rparr>"
  by (simp_all add: scheduleReconnect_def)

lemma handleClose_balanced:
  assumes "chan_ok ch"
  shows "balanced {#} ch (handleClose tid ch)"
  using assms
  by (simp add: balanced_def handleClose_def Let_def split_beta settled_dooms chan_ok_def waiting_def [of "_\<lparr>ch_pending := []\<rparr>"])
    (simp add: waiting_def)

lemma stop_balanced: "balanced {#} ch (stop_task ch)"
  by (simp add: balanced_def stop_task_def settled_dooms chan_ok_def waiting_def)

lemma failPending_balanced:
  assumes "chan_ok ch"
  shows "balanced {#} ch (failPending i status text ch)"
proof (cases "pending_at i ch")
  case None
  then show ?thesis using assms by (simp add: failPending_def balanced_refl)
next
  case (Some pc)
  then show ?thesis
    using release_slot_ok [OF assms Some] waiting_release [OF Some]
    by (simp add: failPending_def balanced_def waiting_of_def)
qed

lemma dispatchResponse_balanced:
  assumes "chan_ok ch"
  shows "balanced {#} ch (dispatchResponse rnd e now m ch)"
proof (cases "pending_at (hdr_requestId (msg_header m)) ch")
  case None
  then show ?thesis using assms by (simp add: dispatchResponse_def Let_def balanced_refl)
next
  case (Some pc)
  let ?ch = "release_slot (hdr_requestId (msg_header m)) ch"
  have "chan_ok (?ch\<lparr>ch_latencyEmaMs := x\<rparr>)" for x
    by (rule chan_ok_cong [OF release_slot_ok [OF assms Some]]) simp_all
  moreover have "waiting (?ch\<lparr>ch_latencyEmaMs := x\<rparr>) = waiting ?ch" for x by (simp add: waiting_def)
  ultimately show ?thesis
    using release_slot_ok [OF assms Some] waiting_release [OF Some] Some
    by (simp add: dispatchResponse_def Let_def balanced_def waiting_of_def split: option.split)
qed

lemma dispatch_all_balanced: "chan_ok ch \<Longrightarrow> balanced {#} ch (dispatch_all rnd e clk i ms ch)"
proof (induction ms arbitrary: i ch)
  case Nil
  then show ?case by (simp add: balanced_refl)
next
  case (Cons m ms)
  have d: "balanced {#} ch (dispatchResponse rnd e (clk i) m ch)"
    by (rule dispatchResponse_balanced [OF Cons.prems])
  then have "balanced {#} (fst (dispatchResponse rnd e (clk i) m ch))
    (dispatch_all rnd e clk (Suc i) ms (fst (dispatchResponse rnd e (clk i) m ch)))"
    by (intro Cons.IH) (simp add: balanced_def)
  with d show ?case
    by (simp add: split_beta Let_def) (metis balanced_seq prod.collapse)
qed

lemma read_loop_balanced: "chan_ok ch \<Longrightarrow> balanced {#} ch (read_loop rnd e tid rs ch)"
proof (induction rnd e tid rs ch rule: read_loop.induct)
  case (2 rnd e tid bs clk rs ch)
  obtain ms b where dec: "RpcFramer_decode e (buf_append bs (ch_inputBuffer ch)) = (ms, b)" by fastforce
  let ?ch = "ch\<lparr>ch_inputBuffer := b\<rparr>"
  obtain ch1 effs where d: "dispatch_all rnd e clk 0 ms ?ch = (ch1, effs)" by fastforce
  have ok: "chan_ok ?ch" by (rule chan_ok_cong [OF 2(2)]) simp_all
  have b1: "balanced {#} ch (ch1, effs)"
    using balanced_from [OF dispatch_all_balanced [OF ok, of rnd e clk 0 ms]] d by simp
  then have "balanced {#} ch1 (read_loop rnd e tid rs ch1)"
    using 2(1) [OF dec [symmetric] refl refl] d by (simp add: balanced_def)
  with b1 show ?case
    by (simp add: dec d split_beta) (metis balanced_seq prod.collapse)
qed (simp_all add: balanced_refl handleClose_balanced)

lemma flushOutput_balanced:
  assumes "chan_ok ch"
  shows "balanced {#} ch (flushOutput wr tid ch)"
proof -
  have ok: "chan_ok (ch\<lparr>ch_outputQueue := q\<rparr>)" for q by (rule chan_ok_cong [OF assms]) simp_all
  have same: "balanced {#} ch (ch\<lparr>ch_outputQueue := q\<rparr>, effs)" if "settled done_of effs = {#}" for q effs
    using ok [of q] that by (simp add: balanced_def waiting_def)
  have "balanced {#} ch (handleClose tid (ch\<lparr>ch_outputQueue := []\<rparr>))"
    by (rule balanced_from [OF handleClose_balanced [OF ok]]) simp
  then show ?thesis
    using assms same [of "[]"] same [of _ "drop _ _"]
    by (auto simp: flushOutput_def Let_def balanced_refl intro!: same split: write_result.splits)
qed

lemma writeFrame_balanced:
  assumes "chan_ok ch"
  shows "balanced {#} ch (writeFrame e wr tid h body ch)"
proof -
  have ok: "chan_ok (ch\<lparr>ch_outputQueue := q\<rparr>)" for q by (rule chan_ok_cong [OF assms]) simp_all
  have same: "balanced {#} ch (ch\<lparr>ch_outputQueue := q\<rparr>, effs)" if "settled done_of effs = {#}" for q effs
    using ok [of q] that by (simp add: balanced_def waiting_def)
  have flush: "balanced {#} ch (flushOutput wr tid (ch\<lparr>ch_outputQueue := q\<rparr>))" for q wr
    by (rule balanced_from [OF flushOutput_balanced [OF ok]]) simp
  have "balanced {#} ch (ch, effs)" if "settled done_of effs = {#}" for effs
    using assms that by (simp add: balanced_def)
  then show ?thesis
    using handleClose_balanced [OF assms]
    by (auto simp: writeFrame_def Let_def intro!: same flush split: write_result.splits)
qed

lemma chan_ok_active:
  "chan_ok ch \<Longrightarrow> ch_pending ch' = ch_pending ch \<Longrightarrow> ch_freeSlots ch' = ch_freeSlots ch \<Longrightarrow>
    ch_state ch' \<in> {Connecting, Ready} \<Longrightarrow> chan_ok ch'"
  by (auto simp: chan_ok_def)

lemma sendInLoop_balanced: "chan_ok ch \<Longrightarrow> balanced {#} ch (sendInLoop e wr tid i mid tmo body trace ch)"
  by (simp add: sendInLoop_def failPending_balanced writeFrame_balanced)

lemma onConnected_balanced:
  assumes "chan_ok ch"
  shows "balanced {#} ch (onConnected now wr tid ch)"
proof (cases "ch_channel ch")
  case None
  have "chan_ok (ch\<lparr>ch_state := Ready\<rparr>)" by (rule chan_ok_active [OF assms]) simp_all
  with None show ?thesis by (simp add: onConnected_def balanced_def waiting_def)
next
  case (Some pch)
  define ch2 where "ch2 = ch\<lparr>ch_state := Ready, ch_channel := Some (pch\<lparr>poll_writing := False, poll_reading := True\<rparr>),
    ch_lastReceivedAt := now, ch_unansweredHeartbeats := 0\<rparr>"
  have ok: "chan_ok ch2" by (rule chan_ok_active [OF assms]) (simp_all add: ch2_def)
  have "balanced {#} ch (flushOutput wr tid ch2)"
    by (rule balanced_from [OF flushOutput_balanced [OF ok]]) (simp add: ch2_def)
  then have "balanced {#} ch (fst (flushOutput wr tid ch2), snd (flushOutput wr tid ch2))" by simp
  from balanced_silent [OF this] Some show ?thesis
    unfolding onConnected_def by (simp add: Let_def split_beta ch2_def)
qed

lemma doConnect_balanced:
  assumes "chan_ok ch"
  shows "balanced {#} ch (doConnect fd aton res now wr tid ch)"
proof -
  define ch1 where "ch1 = ch\<lparr>ch_state := Connecting, ch_sockfd := fd\<rparr>"
  have ok: "chan_ok ch1" by (rule chan_ok_active [OF assms]) (simp_all add: ch1_def)
  have same: "ch_pending ch1 = ch_pending ch" by (simp add: ch1_def)
  have "chan_ok (ch1\<lparr>ch_channel := Some x\<rparr>)" for x by (rule chan_ok_active [OF ok]) (simp_all add: ch1_def)
  then have "balanced {#} ch (ch1\<lparr>ch_channel := Some x\<rparr>, [RunAfterConnect n])" for x n
    by (simp add: balanced_def waiting_def same)
  moreover note balanced_from [OF handleClose_balanced [OF ok] same] balanced_from [OF onConnected_balanced [OF ok] same]
  ultimately show ?thesis
    unfolding doConnect_def Let_def ch1_def [symmetric] by (auto split: connect_result.split)
qed

lemma asyncCall_balanced:
  assumes "chan_ok ch"
  shows "balanced (if hasDone then {#c#} else {#}) ch (snd (asyncCall now c hasDone mid tmo trace gen req ch))"
proof (cases "ch_state ch = ConnClosed")
  case True
  then show ?thesis using assms by (simp add: asyncCall_def balanced_def)
next
  case opened: False
  let ?pc = "\<lambda>slot. \<lparr>pc_id = of_nat slot + 1, pc_call = c, pc_hasDone = hasDone, pc_timeoutMs = tmo, pc_start = now\<rparr>"
  show ?thesis
  proof (cases "ch_freeSlots ch")
    case Nil
    have "chan_ok (ch\<lparr>ch_pending := ch_pending ch @ [Some (?pc (length (ch_pending ch)))], ch_freeSlots := []\<rparr>)"
      using assms opened Nil by (auto simp: chan_ok_def nth_append less_Suc_eq)
    then show ?thesis
      using opened Nil by (simp add: asyncCall_def Let_def balanced_def waiting_def waiting_of_def)
  next
    case (Cons s fs)
    have s: "s < length (ch_pending ch)" "ch_pending ch ! s = None"
      using assms Cons by (auto simp: chan_ok_def)
    have "chan_ok (ch\<lparr>ch_pending := (ch_pending ch)[s := Some (?pc s)], ch_freeSlots := fs\<rparr>)"
      using assms opened Cons s by (auto simp: chan_ok_def nth_list_update)
    moreover have "waiting (ch\<lparr>ch_pending := (ch_pending ch)[s := Some (?pc s)], ch_freeSlots := fs\<rparr>) =
      waiting ch + (if hasDone then {#c#} else {#})"
      using sum_list_update [OF s(1), of waiting_of "Some (?pc s)"] s(2) by (simp add: waiting_def waiting_of_def)
    ultimately show ?thesis
      using opened Cons by (simp add: asyncCall_def Let_def balanced_def)
  qed
qed

lemma arm_timer_balanced: "chan_ok ch \<Longrightarrow> balanced {#} ch (arm_timer i ch)"
  by (simp add: arm_timer_def balanced_def split: option.split)

lemma chan_step_balanced: "chan_ok ch \<Longrightarrow> balanced (issued op) ch (chan_step rnd e op ch)"
proof (induction rnd e op ch rule: chan_step.induct)
  case (8 rnd e fd aton res now wr tid ch)
  have ok: "chan_ok (ch\<lparr>ch_reconnectTimerId := 0\<rparr>)" by (rule chan_ok_cong [OF 8]) simp_all
  have "balanced {#} ch (doConnect fd aton res now wr tid (ch\<lparr>ch_reconnectTimerId := 0\<rparr>))"
    by (rule balanced_from [OF doConnect_balanced [OF ok]]) simp
  moreover have "balanced {#} ch (ch\<lparr>ch_reconnectTimerId := 0\<rparr>, [])"
    by (rule balanced_from [OF balanced_refl [OF ok]]) simp
  ultimately show ?case by (simp add: reconnect_timer_def Let_def)
next
  case (11 rnd e now tid rs ch)
  have "chan_ok (ch\<lparr>ch_lastReceivedAt := now, ch_unansweredHeartbeats := 0\<rparr>)" by (rule chan_ok_cong [OF 11]) simp_all
  from balanced_from [OF read_loop_balanced [OF this]] show ?case by (simp add: handleRead_def)
next
  case (12 rnd e now wr tid ch)
  have ok: "chan_ok (ch\<lparr>ch_unansweredHeartbeats := n\<rparr>)" for n by (rule chan_ok_cong [OF 12]) simp_all
  have "balanced {#} ch (writeFrame e wr tid h body (ch\<lparr>ch_unansweredHeartbeats := n\<rparr>))" for h body n
    by (rule balanced_from [OF writeFrame_balanced [OF ok]]) simp
  with 12 show ?case by (simp add: onHeartbeatTick_def balanced_refl handleClose_balanced)
qed (simp_all add: asyncCall_balanced arm_timer_balanced onCallTimeout_def failPending_balanced sendInLoop_balanced start_task_def
    doConnect_balanced connect_timer_def handleClose_balanced handleConnectWrite_def onConnected_balanced stop_balanced
    balanced_refl)

interpretation calls: accounting "chan_step rnd e" chan_ok waiting done_of issued for rnd e
  using chan_step_balanced by unfold_locales (auto simp: balanced_def)

section \<open>Lookups in the table\<close>

lemma pending_at_slot:
  assumes "i < length (ch_pending ch)" and "length (ch_pending ch) < 2 ^ 32" and "ch_pending ch ! i = Some pc"
    and "pc_id pc = of_nat i + 1"
  shows "pending_at (of_nat i + 1) ch = Some pc"
proof -
  have "unat (of_nat i :: u32) = i" using assms(1,2) by (simp add: unat_of_nat)
  with assms show ?thesis by (simp add: pending_at_def Let_def)
qed

lemma word_pred_succ: "of_nat (unat (i - 1 :: u32)) + 1 = i"
  by simp

text \<open>A call that reuses the slot of a finished one gets its id.\<close>

lemma asyncCall_reuses:
  assumes "ch_state ch \<noteq> ConnClosed" and "ch_freeSlots ch = [unat (i - 1)]" and "unat (i - 1) < length (ch_pending ch)"
  shows "fst (asyncCall now c hasDone mid tmo trace gen req ch) = i"
    "pending_at i (fst (snd (asyncCall now c hasDone mid tmo trace gen req ch))) =
      Some \<lparr>pc_id = i, pc_call = c, pc_hasDone = hasDone, pc_timeoutMs = tmo, pc_start = now\<rparr>"
  using assms by (simp_all add: asyncCall_def Let_def pending_at_def)

lemma failPending_Some:
  "pending_at i ch = Some pc \<Longrightarrow> failPending i status text ch =
    (release_slot i ch, SetStatus (pc_call pc) status text # (if pc_hasDone pc then [InvokeDone (pc_call pc)] else []))"
  by (simp add: failPending_def)

lemma handleClose_closes: "ch_state (fst (handleClose tid ch)) = ConnClosed"
  by (simp add: handleClose_def Let_def split_beta)

lemma new_chan_waiting [simp]: "waiting (new_chan now) = {#}"
  by (simp add: waiting_def new_chan_def)

lemma closed_not_waiting: "chan_ok ch \<Longrightarrow> ch_state ch = ConnClosed \<Longrightarrow> waiting ch = {#}"
  by (simp add: chan_ok_def waiting_def)

lemma release_fields [simp]:
  "ch_state (release_slot i ch) = ch_state ch" "ch_outputQueue (release_slot i ch) = ch_outputQueue ch"
  "ch_freeSlots (release_slot i ch) = ch_freeSlots ch @ [unat (i - 1)]"
  "length (ch_pending (release_slot i ch)) = length (ch_pending ch)"
  by (simp_all add: release_slot_def)

text \<open>A channel closed, or still ready with \<open>n\<close> unanswered heartbeats since the bytes \<open>ch\<close> last received.\<close>

definition silent :: "u32 \<Rightarrow> 'c chan \<Rightarrow> 'c chan \<Rightarrow> bool" where
  "silent n ch ch' \<longleftrightarrow> ch_state ch' = ConnClosed \<or>
     ch_state ch' = Ready \<and> ch_unansweredHeartbeats ch' = n \<and>
     ch_lastReceivedAt ch' = ch_lastReceivedAt ch \<and> ch_heartbeatIntervalMs ch' = ch_heartbeatIntervalMs ch"

lemma writeFrame_silent: "silent n ch ch' \<Longrightarrow> ch_state ch' = Ready \<Longrightarrow> silent n ch (fst (writeFrame e wr tid h body ch'))"
  by (auto simp: silent_def writeFrame_def flushOutput_def Let_def handleClose_closes split: write_result.splits)

lemma heartbeat_silent:
  assumes "silent n ch ch'" and "n < 2" and "uint (ch_heartbeatIntervalMs ch) \<le> to_ms (t - ch_lastReceivedAt ch)"
  shows "silent (n + 1) ch (fst (onHeartbeatTick e t wr tid ch'))"
proof (cases "ch_state ch' = Ready")
  case True
  then have "silent (n + 1) ch (ch'\<lparr>ch_unansweredHeartbeats := ch_unansweredHeartbeats ch' + 1\<rparr>)"
    using assms(1) by (auto simp: silent_def)
  from writeFrame_silent [OF this] True assms show ?thesis
    by (auto simp: onHeartbeatTick_def silent_def)
next
  case False
  then show ?thesis using assms(1) by (auto simp: onHeartbeatTick_def silent_def)
qed

lemma heartbeat_dead:
  assumes "silent 2 ch ch'" and "uint (ch_heartbeatIntervalMs ch) \<le> to_ms (t - ch_lastReceivedAt ch)"
  shows "ch_state (fst (onHeartbeatTick e t wr tid ch')) = ConnClosed"
  using assms by (auto simp: onHeartbeatTick_def silent_def handleClose_closes)

text \<open>The bytes that effects put on the socket.\<close>

fun on_socket :: "'c chan_effect \<Rightarrow> bytes" where
  "on_socket (SocketWrite bs) = bs"
| "on_socket _ = []"

definition written :: "'c chan_effect list \<Rightarrow> bytes" where
  "written effs = concat (map on_socket effs)"

lemma written_simps [simp]:
  "written [] = []" "written (x # xs) = on_socket x @ written xs" "written (xs @ ys) = written xs @ written ys"
  by (simp_all add: written_def)

lemma written_doom [simp]: "written (doom why p) = []"
  by (simp add: doom_def split: option.split)

lemma written_dooms [simp]: "written (concat (map (doom why) ps)) = []"
  by (induction ps) simp_all

section \<open>Properties\<close>

text \<open>C1: Exactly one completion. Take any sequence of events on a new channel: calls, responses in any order,
  duplicated or unsolicited, deadlines, cancellations, write and connect failures, heartbeats, reconnects and
  stops. The done callbacks invoked and the calls still in flight are together exactly the calls issued, so
  no call is completed twice or forgotten; and when the channel ends up closed, every call issued has
  been completed.\<close>

theorem channel_completes_once:
  assumes "run_ops (chan_step rnd e) ops (new_chan now) = (ch, effs)"
  shows "settled done_of effs + waiting ch = sum_list (map issued ops) \<and>
    (ch_state ch = ConnClosed \<longrightarrow> settled done_of effs = sum_list (map issued ops))"
proof -
  have b: "settled done_of effs + waiting ch = sum_list (map issued ops)"
    using calls.run_balance [where s = "new_chan now" and xs = ops and rnd = rnd and e = e, OF new_chan_ok] assms by simp
  have "chan_ok ch" using calls.run_ok [where s = "new_chan now" and xs = ops and rnd = rnd and e = e, OF new_chan_ok] assms by simp
  with b show ?thesis using closed_not_waiting by fastforce
qed

theorem channel_completes_once_witness:
  "\<exists>ch effs. run_ops (chan_step id Little) [OpCall 0 (1 :: nat) True 7 100 0 5 VNull, OpTimeout 1, OpTimeout 1, OpStop] (new_chan 0) =
     (ch, effs) \<and> ch_state ch = ConnClosed \<and> settled done_of effs = {#1#}"
proof -
  let ?ops = "[OpCall 0 (1 :: nat) True 7 100 0 5 VNull, OpTimeout 1, OpTimeout 1, OpStop]"
  obtain ch effs where r: "run_ops (chan_step id Little) ?ops (new_chan 0) = (ch, effs)" by fastforce
  have "ch_state ch = ConnClosed"
    using r by (auto simp: split_beta Let_def stop_task_def)
  then show ?thesis using r channel_completes_once [OF r] by simp
qed

text \<open>C24: Multiplexing. In a well-formed table a response whose request id belongs to a call in flight completes
  exactly that call, whatever order the responses come in: the caller gets the status of the response, the
  decoded body if the status is ok, its done callback is invoked, its slot becomes free, and no
  other slot changes.\<close>

theorem channel_routes_response:
  assumes "chan_ok ch" and "i < length (ch_pending ch)" and "length (ch_pending ch) < 2 ^ 32"
    and "ch_pending ch ! i = Some pc" and "hdr_requestId (msg_header resp) = of_nat i + 1"
    and "dispatchResponse rnd e now resp ch = (ch', effs)"
  shows "ch_pending ch' = (ch_pending ch)[i := None] \<and> ch_freeSlots ch' = ch_freeSlots ch @ [i] \<and>
    effs = [SetStatus (pc_call pc) (hdr_status (msg_header resp))
              (if hdr_status (msg_header resp) = kOk then [] else lit ''rpc failed'')] @
           (if hdr_status (msg_header resp) = kOk \<and> msg_body resp \<noteq> []
            then map (SetResponse (pc_call pc)) (case Serializer_decode e (msg_body resp) of None \<Rightarrow> [] | Some v \<Rightarrow> [v]) else []) @
           (if pc_hasDone pc then [InvokeDone (pc_call pc)] else [])"
proof -
  have "pc_id pc = of_nat i + 1" using assms(1,2,4) by (auto simp: chan_ok_def)
  note at = pending_at_slot [OF assms(2,3,4) this]
  have "unat (of_nat i :: u32) = i" using assms(2,3) by (simp add: unat_of_nat)
  then show ?thesis
    using assms(5,6) at by (auto simp: dispatchResponse_def Let_def release_slot_def split: if_splits option.splits)
qed

theorem channel_routes_response_witness:
  "let resp = \<lparr>msg_header = zero_header\<lparr>hdr_requestId := 2, hdr_status := kMethodNotFound\<rparr>, msg_body = []\<rparr>;
       ch = fst (run_ops (chan_step id Little) [OpCall 0 (1 :: nat) True 7 100 0 5 VNull, OpCall 0 2 True 7 100 0 5 VNull] (new_chan 0));
       (ch', effs) = dispatchResponse id Little 0 resp ch
   in chan_ok ch \<and> ch_pending ch' = (ch_pending ch)[1 := None] \<and>
      effs = [SetStatus 2 kMethodNotFound (lit ''rpc failed''), InvokeDone 2]"
proof -
  define resp where "resp = \<lparr>msg_header = zero_header\<lparr>hdr_requestId := 2, hdr_status := kMethodNotFound\<rparr>, msg_body = []\<rparr>"
  let ?ops = "[OpCall 0 (1 :: nat) True 7 100 0 5 VNull, OpCall 0 2 True 7 100 0 5 VNull]"
  define ch where "ch = fst (run_ops (chan_step id Little) ?ops (new_chan 0))"
  have ok: "chan_ok ch" unfolding ch_def by (rule calls.run_ok [OF new_chan_ok])
  have pend: "ch_pending ch = [Some \<lparr>pc_id = 1, pc_call = 1, pc_hasDone = True, pc_timeoutMs = 100, pc_start = 0\<rparr>,
    Some \<lparr>pc_id = 2, pc_call = 2, pc_hasDone = True, pc_timeoutMs = 100, pc_start = 0\<rparr>]"
    by (simp add: ch_def new_chan_def asyncCall_def split_beta Let_def)
  obtain ch' effs where d: "dispatchResponse id Little 0 resp ch = (ch', effs)" by fastforce
  have "kMethodNotFound \<noteq> kOk" by (simp add: status_defs)
  with channel_routes_response [OF ok, of 1 _ resp id Little 0 ch' effs] ok d pend show ?thesis
    unfolding Let_def ch_def [symmetric] resp_def [symmetric] by (simp add: resp_def)
qed

text \<open>Reuse of ids. The id of a call is its slot, slots are reused, and deadline timers are not cancelled. When
  the only free slot is the one a finished call left, the next call gets its id; then the timer of the
  finished call, if it got its response in time, completes the new call with deadline exceeded; and if it had
  timed out, its late response completes the new call as if it were its own.\<close>

theorem channel_id_reuse:
  assumes "chan_ok ch" and "ch_state ch \<noteq> ConnClosed" and "ch_freeSlots ch = []" and "pending_at i ch = Some pc"
    and "hdr_requestId (msg_header resp) = i" and "hdr_status (msg_header resp) = kOk"
    and "ch1 = fst (dispatchResponse rnd e t resp ch)" and "(j, ch2, effs) = asyncCall now c True mid tmo trace gen req ch1"
    and "ch1' = fst (onCallTimeout i ch)" and "(j', ch2', effs') = asyncCall now c True mid tmo trace gen req ch1'"
  shows "j = i \<and> snd (onCallTimeout i ch2) = [SetStatus c kDeadlineExceeded (lit ''client deadline exceeded''), InvokeDone c] \<and>
    j' = i \<and> (\<exists>xs. snd (dispatchResponse rnd e t resp ch2') = SetStatus c kOk [] # xs @ [InvokeDone c])"
proof -
  have slot: "unat (i - 1) < length (ch_pending ch)" by (rule pending_atD [OF assms(4)])
  have ch1: "ch_state ch1 \<noteq> ConnClosed" "ch_freeSlots ch1 = [unat (i - 1)]" "unat (i - 1) < length (ch_pending ch1)"
    using assms(2-6) slot by (simp_all add: assms(7) dispatchResponse_def Let_def)
  have ch1': "ch_state ch1' \<noteq> ConnClosed" "ch_freeSlots ch1' = [unat (i - 1)]" "unat (i - 1) < length (ch_pending ch1')"
    using assms(2-4) slot by (simp_all add: assms(9) onCallTimeout_def failPending_Some)
  have p: "pending_at i ch2 = Some \<lparr>pc_id = i, pc_call = c, pc_hasDone = True, pc_timeoutMs = tmo, pc_start = now\<rparr>" "j = i"
    using asyncCall_reuses [OF ch1, of now c True mid tmo trace gen req] assms(8) by (metis fst_conv snd_conv)+
  have p': "pending_at i ch2' = Some \<lparr>pc_id = i, pc_call = c, pc_hasDone = True, pc_timeoutMs = tmo, pc_start = now\<rparr>" "j' = i"
    using asyncCall_reuses [OF ch1', of now c True mid tmo trace gen req] assms(10) by (metis fst_conv snd_conv)+
  have "snd (onCallTimeout i ch2) = [SetStatus c kDeadlineExceeded (lit ''client deadline exceeded''), InvokeDone c]"
    by (simp add: onCallTimeout_def failPending_Some [OF p(1)])
  moreover have "\<exists>xs. snd (dispatchResponse rnd e t resp ch2') = SetStatus c kOk [] # xs @ [InvokeDone c]"
    unfolding dispatchResponse_def Let_def assms(5,6) p'(1) by simp
  ultimately show ?thesis using p(2) p'(2) by blast
qed

theorem channel_id_reuse_witness:
  "let ch = fst (run_ops (chan_step id Little) [OpCall 0 (1 :: nat) True 7 100 0 5 VNull] (new_chan 0));
       resp = \<lparr>msg_header = zero_header\<lparr>hdr_requestId := 1, hdr_status := kOk\<rparr>, msg_body = []\<rparr>;
       (j, ch2, _) = asyncCall 0 2 True 7 100 0 5 VNull (fst (dispatchResponse id Little 0 resp ch))
   in chan_ok ch \<and> j = 1 \<and> snd (onCallTimeout 1 ch2) = [SetStatus 2 kDeadlineExceeded (lit ''client deadline exceeded''), InvokeDone 2]"
proof -
  define ch where "ch = fst (run_ops (chan_step id Little) [OpCall 0 (1 :: nat) True 7 100 0 5 VNull] (new_chan 0))"
  define resp where "resp = \<lparr>msg_header = zero_header\<lparr>hdr_requestId := 1, hdr_status := kOk\<rparr>, msg_body = []\<rparr>"
  have ok: "chan_ok ch" unfolding ch_def by (rule calls.run_ok [OF new_chan_ok])
  have st: "ch_state ch \<noteq> ConnClosed" "ch_freeSlots ch = []"
    "pending_at 1 ch = Some \<lparr>pc_id = 1, pc_call = 1, pc_hasDone = True, pc_timeoutMs = 100, pc_start = 0\<rparr>"
    by (simp_all add: ch_def new_chan_def asyncCall_def split_beta Let_def pending_at_def)
  have resp: "hdr_requestId (msg_header resp) = 1" "hdr_status (msg_header resp) = kOk" by (simp_all add: resp_def)
  obtain j ch2 effs where a: "(j, ch2, effs) = asyncCall 0 2 True 7 100 0 5 VNull (fst (dispatchResponse id Little 0 resp ch))"
    by (metis prod_cases3)
  obtain j' ch2' effs' where a': "(j', ch2', effs') = asyncCall 0 2 True 7 100 0 5 VNull (fst (onCallTimeout 1 ch))"
    by (metis prod_cases3)
  from channel_id_reuse [OF ok st resp refl a refl a'] ok show ?thesis
    unfolding Let_def ch_def [symmetric] resp_def [symmetric] a [symmetric] by simp
qed

text \<open>Dead peers. On a ready channel whose peer stays silent, three heartbeat ticks, each at least an interval
  after the last bytes received, close the channel whatever the socket accepts, and complete every call
  in flight.\<close>

theorem channel_heartbeat_closes:
  assumes "chan_ok ch" and "ch_state ch = Ready" and "ch_unansweredHeartbeats ch = 0"
    and "\<forall>t \<in> {t1, t2, t3}. uint (ch_heartbeatIntervalMs ch) \<le> to_ms (t - ch_lastReceivedAt ch)"
    and "run_ops (chan_step rnd e) [OpHeartbeat t1 w1 d1, OpHeartbeat t2 w2 d2, OpHeartbeat t3 w3 d3] ch = (ch', effs)"
  shows "ch_state ch' = ConnClosed \<and> settled done_of effs = waiting ch"
proof -
  let ?ch1 = "fst (onHeartbeatTick e t1 w1 d1 ch)"
  let ?ch2 = "fst (onHeartbeatTick e t2 w2 d2 ?ch1)"
  have "silent 0 ch ch" using assms(2,3) by (simp add: silent_def)
  then have "silent 1 ch ?ch1" using heartbeat_silent [of 0 ch ch t1 e w1 d1] assms(4) by simp
  then have "silent 2 ch ?ch2" using heartbeat_silent [of 1 ch ?ch1 t2 e w2 d2] assms(4) by simp
  then have closed: "ch_state ch' = ConnClosed"
    using heartbeat_dead [of ch ?ch2 t3 e w3 d3] assms(4,5) by (auto simp: split_beta Let_def)
  have "chan_ok ch'"
    using calls.run_ok [OF assms(1), of rnd e "[OpHeartbeat t1 w1 d1, OpHeartbeat t2 w2 d2, OpHeartbeat t3 w3 d3]"]
    by (simp only: assms(5) fst_conv)
  then have "waiting ch' = {#}" using closed by (rule closed_not_waiting)
  then have "settled done_of effs = waiting ch"
    using calls.run_balance [OF assms(1), of rnd e "[OpHeartbeat t1 w1 d1, OpHeartbeat t2 w2 d2, OpHeartbeat t3 w3 d3]"]
    by (simp only: assms(5) fst_conv snd_conv) simp
  with closed show ?thesis ..
qed

theorem channel_heartbeat_closes_witness:
  "let ch = (new_chan 0 :: nat chan)\<lparr>ch_state := Ready, ch_heartbeatIntervalMs := 5, ch_channel := Some \<lparr>poll_reading = True, poll_writing = False\<rparr>\<rparr>
   in ch_state (fst (run_ops (chan_step id Little)
        [OpHeartbeat (msec 5) (Wrote 32) 1, OpHeartbeat (msec 10) WriteAgain 2, OpHeartbeat (msec 15) (Wrote 32) 3] ch)) = ConnClosed"
proof -
  define ch where "ch = (new_chan 0 :: nat chan)\<lparr>ch_state := Ready, ch_heartbeatIntervalMs := 5, ch_channel := Some \<lparr>poll_reading = True, poll_writing = False\<rparr>\<rparr>"
  have ok: "chan_ok ch" by (simp add: ch_def chan_ok_def new_chan_def)
  have st: "ch_state ch = Ready" "ch_unansweredHeartbeats ch = 0"
    "\<forall>t \<in> {msec 5, msec 10, msec 15}. uint (ch_heartbeatIntervalMs ch) \<le> to_ms (t - ch_lastReceivedAt ch)"
    by (simp_all add: ch_def new_chan_def to_ms_def msec_def)
  show ?thesis
    unfolding Let_def ch_def [symmetric]
    using channel_heartbeat_closes [OF ok st prod.collapse [symmetric]] by blast
qed

text \<open>Output stream. As long as no write fails and none is refused while older output is queued, sending a
  frame neither loses, repeats nor reorders bytes: what goes to the socket followed by what stays queued
  is what was queued followed by the frame.\<close>

theorem channel_output_stream:
  assumes "writeFrame e wr tid h body ch = (ch', effs)" and "wr \<noteq> WriteError"
    and "ch_state ch = Ready \<longrightarrow> ch_outputQueue ch \<noteq> [] \<longrightarrow> (\<exists>n > 0. wr = Wrote n)"
  shows "written effs @ ch_outputQueue ch' = ch_outputQueue ch @ RpcFramer_encode e \<lparr>msg_header = h, msg_body = body\<rparr>"
  using assms by (auto simp: writeFrame_def flushOutput_def written_def Let_def
      simp del: take_append drop_append split: write_result.splits if_splits)

theorem channel_output_stream_witness:
  "let ch = (new_chan 0 :: nat chan)\<lparr>ch_state := Ready, ch_outputQueue := [1, 2, 3]\<rparr>;
       (ch', effs) = writeFrame Little (Wrote 2) 1 zero_header [] ch
   in written effs @ ch_outputQueue ch' = [1, 2, 3] @ RpcFramer_encode Little \<lparr>msg_header = zero_header, msg_body = []\<rparr>"
  using channel_output_stream [of Little "Wrote 2" 1 zero_header "[]" "(new_chan 0 :: nat chan)\<lparr>ch_state := Ready, ch_outputQueue := [1, 2, 3]\<rparr>"]
  by (simp add: Let_def split_beta)

text \<open>Lost output. When older output is queued on a ready channel and the socket would block, sending a frame
  discards the queue and the frame: nothing is written and nothing stays queued.\<close>

theorem channel_flush_drops:
  assumes "ch_state ch = Ready" and "ch_outputQueue ch \<noteq> []"
  shows "let (ch', effs) = writeFrame e WriteAgain tid h body ch in written effs = [] \<and> ch_outputQueue ch' = []"
  using assms by (simp add: writeFrame_def flushOutput_def written_def Let_def)

theorem channel_flush_drops_witness:
  "let ch = (new_chan 0 :: nat chan)\<lparr>ch_state := Ready, ch_outputQueue := [1, 2, 3]\<rparr>;
       (ch', effs) = writeFrame Little WriteAgain 1 zero_header [] ch
   in ch_outputQueue ch \<noteq> [] \<and> written effs = [] \<and> ch_outputQueue ch' = []"
  using channel_flush_drops [of "(new_chan 0 :: nat chan)\<lparr>ch_state := Ready, ch_outputQueue := [1, 2, 3]\<rparr>" Little 1 zero_header "[]"]
  by (simp add: Let_def split_beta)

text \<open>Torn frames. Closing a channel keeps its output queue. When a frame was only partly written and the
  connection then breaks, the first bytes sent on the new connection are the rest of that frame.\<close>

theorem channel_reconnect_torn_frame:
  assumes "ch_state ch = Ready" and "ch_outputQueue ch = []" and "ch_reconnectEnabled ch" and "0 \<le> fd"
    and "frame = RpcFramer_encode e \<lparr>msg_header = h, msg_body = body\<rparr>" and "n < length frame" and "length frame \<le> n + k"
  shows "written (snd (run_ops (chan_step rnd e)
    [OpClose d1, OpReconnect fd True ConnectInProgress t1 WriteAgain d2, OpConnectWrite 0 t2 (Wrote k) d3]
    (fst (writeFrame e (Wrote n) d0 h body ch)))) = drop n frame"
proof -
  let ?ch1 = "ch\<lparr>ch_outputQueue := drop n frame\<rparr>"
  have w: "fst (writeFrame e (Wrote n) d0 h body ch) = ?ch1"
    using assms by (simp add: writeFrame_def Let_def)
  have c: "snd (handleClose d1 ?ch1) = close_socket ?ch1 @
      concat (map (doom (lit ''connection closed'')) (ch_pending ch)) @ snd (scheduleReconnect d1 ?ch1)"
    and q: "ch_outputQueue (fst (handleClose d1 ?ch1)) = drop n frame" "ch_reconnectEnabled (fst (handleClose d1 ?ch1))"
    using assms by (simp_all add: handleClose_def Let_def split_beta scheduleReconnect_def close_socket_def)
  have quiet: "written (snd (handleClose d1 ?ch1)) = []"
    unfolding c by (simp add: close_socket_def scheduleReconnect_def)
  then show ?thesis
    using q assms(4,6,7) handleClose_closes [of d1 ?ch1] unfolding w
    by (simp add: split_beta Let_def reconnect_timer_def doConnect_def handleConnectWrite_def onConnected_def flushOutput_def)
qed

theorem channel_reconnect_torn_frame_witness:
  "let ch = (new_chan 0 :: nat chan)\<lparr>ch_state := Ready\<rparr>;
       frame = RpcFramer_encode Little \<lparr>msg_header = zero_header, msg_body = []\<rparr>
   in length frame = 32 \<and> written (snd (run_ops (chan_step id Little)
        [OpClose 1, OpReconnect 5 True ConnectInProgress 0 WriteAgain 2, OpConnectWrite 0 0 (Wrote 22) 3]
        (fst (writeFrame Little (Wrote 10) 4 zero_header [] ch)))) = drop 10 frame"
proof -
  let ?frame = "RpcFramer_encode Little \<lparr>msg_header = zero_header, msg_body = []\<rparr>"
  have len: "length ?frame = 32" by (simp add: RpcFramer_encode_bytes kMaxBodyLen_def)
  show ?thesis
    using channel_reconnect_torn_frame [where ch = "(new_chan 0 :: nat chan)\<lparr>ch_state := Ready\<rparr>" and fd = 5 and n = 10 and k = 22
        and frame = ?frame and e = Little and h = zero_header and body = "[]" and rnd = id and ?t1.0 = 0 and ?t2.0 = 0
        and ?d0.0 = 4 and ?d1.0 = 1 and ?d2.0 = 2 and ?d3.0 = 3] len
    by (simp add: new_chan_def Let_def)
qed

text \<open>Immediate connect. When \<open>connect\<close> succeeds at once, a channel that is idle or closed, which is when it
  connects, has no poller channel, and \<open>onConnected\<close> uses the null pointer.\<close>

theorem channel_immediate_connect:
  assumes "chan_ok ch" and "ch_state ch \<in> {ConnIdle, ConnClosed}" and "0 \<le> fd"
  shows "NullDereference \<in> set (snd (doConnect fd True ConnectOk now wr tid ch))"
  using assms by (auto simp: chan_ok_def doConnect_def onConnected_def Let_def)

theorem channel_immediate_connect_witness:
  "NullDereference \<in> set (snd (doConnect 5 True ConnectOk 0 WriteAgain 1 (new_chan 0 :: nat chan)))"
  using channel_immediate_connect [of "new_chan 0 :: nat chan" 5 0 WriteAgain 1] new_chan_ok [of 0]
  by (simp add: new_chan_def)

end
