(* ===== verification/AtomicLoop.thy ===== *)
theory AtomicLoop
  imports RpcPrelude
begin

text \<open>
  The lock-free loop that \<^verbatim>\<open>ConcurrencyLimiter::tryAcquire\<close>, \<^verbatim>\<open>RetryBudget::tryConsume\<close> and
  \<^verbatim>\<open>RetryBudget::refund\<close> share, run by any number of threads on one atomic variable:
  \<^verbatim>\<open>
    T x = v.load();
    while (guard(x)) { if (v.compare_exchange_weak(x, upd(x))) return true; }
    return false;
  \<close>
  A configuration is the value of the atomic and, per thread, the operation it runs with its local
  copy \<open>x\<close>. Every interleaving of the threads is a run; its trace lists the operations that returned,
  in the order they returned, with their results. A \<^verbatim>\<open>fetch_add\<close> or \<^verbatim>\<open>fetch_sub\<close> is an operation whose guard
  is always true. The locale \<open>cas_object\<close> is the contract of a data structure built from such loops: an
  invariant that every successful update keeps, along traces that respect a usage discipline; its
  lemmas hold for every interleaving.
\<close>

type_synonym ('o, 'v) cas_conf = "'v \<times> (nat \<Rightarrow> ('o \<times> 'v) option)"

inductive cas_run :: "('o \<Rightarrow> 'v \<Rightarrow> bool) \<Rightarrow> ('o \<Rightarrow> 'v \<Rightarrow> 'v) \<Rightarrow> 'v \<Rightarrow> ('o \<times> bool) list \<Rightarrow>
    ('o, 'v) cas_conf \<Rightarrow> bool"
  for guard :: "'o \<Rightarrow> 'v \<Rightarrow> bool" and upd :: "'o \<Rightarrow> 'v \<Rightarrow> 'v" and v0 :: 'v where
  cas_init: "cas_run guard upd v0 [] (v0, \<lambda>_. None)"
| cas_load: "cas_run guard upd v0 tr (v, th) \<Longrightarrow> th i = None \<Longrightarrow>
    cas_run guard upd v0 tr (v, th(i \<mapsto> (opn, v)))"
| cas_won: "cas_run guard upd v0 tr (v, th) \<Longrightarrow> th i = Some (opn, v) \<Longrightarrow> guard opn v \<Longrightarrow>
    cas_run guard upd v0 (tr @ [(opn, True)]) (upd opn v, th(i := None))"
| cas_again: "cas_run guard upd v0 tr (v, th) \<Longrightarrow> th i = Some (opn, x) \<Longrightarrow> guard opn x \<Longrightarrow>
    cas_run guard upd v0 tr (v, th(i \<mapsto> (opn, v)))"
| cas_gave_up: "cas_run guard upd v0 tr (v, th) \<Longrightarrow> th i = Some (opn, x) \<Longrightarrow> \<not> guard opn x \<Longrightarrow>
    cas_run guard upd v0 (tr @ [(opn, False)]) (v, th(i := None))"

text \<open>The number of successful returns of an operation in a trace.\<close>

definition wins :: "'o \<Rightarrow> ('o \<times> bool) list \<Rightarrow> nat" where
  "wins opn tr = length (filter (\<lambda>x. x = (opn, True)) tr)"

lemma wins_Nil [simp]: "wins opn [] = 0"
  by (simp add: wins_def)

lemma wins_snoc [simp]:
  "wins opn (tr @ [(op', ok)]) = wins opn tr + (if op' = opn \<and> ok then 1 else 0)"
  by (simp add: wins_def)

text \<open>The sequential meaning of a trace: the successful operations applied one after the other.\<close>

definition atomic_apply :: "('o \<Rightarrow> 'v \<Rightarrow> 'v) \<Rightarrow> 'o \<times> bool \<Rightarrow> 'v \<Rightarrow> 'v" where
  "atomic_apply upd x v = (if snd x then upd (fst x) v else v)"

lemma cas_run_linear: "cas_run guard upd v0 tr c \<Longrightarrow> fst c = fold (atomic_apply upd) tr v0"
  by (induction rule: cas_run.induct) (simp_all add: atomic_apply_def)

locale cas_object =
  fixes guard :: "'o \<Rightarrow> 'v \<Rightarrow> bool"
    and upd :: "'o \<Rightarrow> 'v \<Rightarrow> 'v"
    and disciplined :: "('o \<times> bool) list \<Rightarrow> bool"
    and good :: "('o \<times> bool) list \<Rightarrow> 'v \<Rightarrow> bool"
  assumes disciplined_prefix: "disciplined (tr @ [x]) \<Longrightarrow> disciplined tr"
    and good_failure: "good tr v \<Longrightarrow> good (tr @ [(opn, False)]) v"
    and good_success: "good tr v \<Longrightarrow> disciplined (tr @ [(opn, True)]) \<Longrightarrow> guard opn v \<Longrightarrow>
      good (tr @ [(opn, True)]) (upd opn v)"
begin

text \<open>Whatever the interleaving, a disciplined run satisfies the invariant.\<close>

lemma run_good:
  "cas_run guard upd v0 tr c \<Longrightarrow> good [] v0 \<Longrightarrow> disciplined tr \<Longrightarrow> good tr (fst c)"
proof (induction rule: cas_run.induct)
  case (cas_won tr v th i opn)
  then show ?case using disciplined_prefix good_success by fastforce
next
  case (cas_gave_up tr v th i opn x)
  then show ?case using disciplined_prefix good_failure by fastforce
qed simp_all

text \<open>
  Linearizability: the value is what the successful operations, applied atomically in the order they
  returned, make of the initial one.
\<close>

lemma run_linear: "cas_run guard upd v0 tr (v, th) \<Longrightarrow> v = fold (atomic_apply upd) tr v0"
  using cas_run_linear by fastforce

end

end
