(* ===== verification/ConcurrencyLimiter.thy ===== *)
theory ConcurrencyLimiter
  imports AtomicLoop
begin

text \<open>
  \<^verbatim>\<open>include/ConcurrencyLimiter.h\<close>: the atomic semaphore that bounds the requests in flight. The record and
  the functions give the effect of one call that is not disturbed by other threads; the operations of
  the shared counter, \<open>lim_guard\<close> and \<open>lim_upd\<close>, give the loops for the interleaving semantics of
  \<open>AtomicLoop\<close>.
\<close>

record limiter =
  lim_max :: u64
  lim_current :: u64

definition new_limiter :: "u64 \<Rightarrow> limiter" where
  "new_limiter mx = \<lparr>lim_max = mx, lim_current = 0\<rparr>"

definition tryAcquire :: "limiter \<Rightarrow> bool \<times> limiter" where
  "tryAcquire l =
     (if lim_max l = 0 then (True, l)
      else if lim_current l < lim_max l then (True, l\<lparr>lim_current := lim_current l + 1\<rparr>)
      else (False, l))"

definition limiter_release :: "limiter \<Rightarrow> limiter" where
  "limiter_release l = l\<lparr>lim_current := lim_current l - 1\<rparr>"

section \<open>Threads\<close>

datatype lim_op = Acquire | Release

fun lim_guard :: "u64 \<Rightarrow> lim_op \<Rightarrow> u64 \<Rightarrow> bool" where
  "lim_guard mx Acquire v \<longleftrightarrow> v < mx"
| "lim_guard mx Release v \<longleftrightarrow> True"

fun lim_upd :: "lim_op \<Rightarrow> u64 \<Rightarrow> u64" where
  "lim_upd Acquire v = v + 1"
| "lim_upd Release v = v - 1"

text \<open>The usage discipline: at no moment more slots were given back than taken.\<close>

definition lim_disciplined :: "(lim_op \<times> bool) list \<Rightarrow> bool" where
  "lim_disciplined tr \<longleftrightarrow> (\<forall>n \<le> length tr. wins Release (take n tr) \<le> wins Acquire (take n tr))"

definition lim_good :: "u64 \<Rightarrow> (lim_op \<times> bool) list \<Rightarrow> u64 \<Rightarrow> bool" where
  "lim_good mx tr v \<longleftrightarrow> v \<le> mx \<and> unat v + wins Release tr = wins Acquire tr"

lemma lim_disciplined_last: "lim_disciplined tr \<Longrightarrow> wins Release tr \<le> wins Acquire tr"
  by (auto simp: lim_disciplined_def dest: spec [of _ "length tr"])

lemma lim_disciplined_prefix:
  assumes "lim_disciplined (tr @ [x])"
  shows "lim_disciplined tr"
  unfolding lim_disciplined_def
proof (intro allI impI)
  fix n assume "n \<le> length tr"
  with assms show "wins Release (take n tr) \<le> wins Acquire (take n tr)"
    by (auto simp: lim_disciplined_def dest!: spec [of _ n])
qed

interpretation lim: cas_object "lim_guard mx" lim_upd lim_disciplined "lim_good mx" for mx :: u64
proof unfold_locales
  fix tr v opn
  assume good: "lim_good mx tr v" and disc: "lim_disciplined (tr @ [(opn, True)])" and g: "lim_guard mx opn v"
  show "lim_good mx (tr @ [(opn, True)]) (lim_upd opn v)"
  proof (cases opn)
    case Acquire
    then show ?thesis
      using good g unat_succ [of v mx] by (auto simp: lim_good_def inc_le)
  next
    case Release
    with good lim_disciplined_last [OF disc] have "unat v \<noteq> 0"
      by (auto simp: lim_good_def)
    then have "v \<noteq> 0" by auto
    moreover have "unat (v - 1) \<le> unat mx"
      using good unat_pred [OF \<open>v \<noteq> 0\<close>] by (auto simp: lim_good_def word_le_nat_alt)
    ultimately show ?thesis
      using good Release \<open>unat v \<noteq> 0\<close> by (auto simp: lim_good_def unat_pred word_le_nat_alt)
  qed
qed (auto simp: lim_good_def intro: lim_disciplined_prefix)

section \<open>Properties\<close>

text \<open>C13: Overload protection. Any number of threads race through \<open>tryAcquire\<close> and \<open>release\<close> of a limiter
  with a positive bound, each giving back only slots that were taken. In every interleaving, spurious CAS
  failures included, the counter equals the number of slots currently held and never exceeds the bound.\<close>

theorem limiter_bound:
  assumes "cas_run (lim_guard mx) lim_upd 0 tr (v, th)" and "lim_disciplined tr"
  shows "unat v = wins Acquire tr - wins Release tr \<and> wins Acquire tr - wins Release tr \<le> unat mx"
  using lim.run_good [OF assms(1) _ assms(2)] by (auto simp: lim_good_def word_le_nat_alt)

theorem limiter_bound_witness:
  "\<exists>v th. cas_run (lim_guard 1) lim_upd 0 [(Acquire, True), (Acquire, False)] (v, th) \<and>
     lim_disciplined [(Acquire, True), (Acquire, False)] \<and>
     unat v = wins Acquire [(Acquire, True), (Acquire, False)] - wins Release [(Acquire, True), (Acquire, False)]"
proof -
  have r1: "cas_run (lim_guard 1) lim_upd 0 [] (0, ((\<lambda>_. None)(0 \<mapsto> (Acquire, 0)))(1 \<mapsto> (Acquire, 0)))"
    by (intro cas_run.cas_load cas_run.cas_init) simp_all
  from cas_run.cas_won [OF r1, of 0 Acquire]
  have r2: "cas_run (lim_guard 1) lim_upd 0 [(Acquire, True)] (1, (\<lambda>_. None)(1 \<mapsto> (Acquire, 0)))"
    by (simp add: fun_upd_twist)
  from cas_run.cas_again [OF r2, of 1 Acquire 0]
  have r3: "cas_run (lim_guard 1) lim_upd 0 [(Acquire, True)] (1, (\<lambda>_. None)(1 \<mapsto> (Acquire, 1)))"
    by simp
  from cas_run.cas_gave_up [OF r3, of 1 Acquire 1]
  have r4: "cas_run (lim_guard 1) lim_upd 0 [(Acquire, True), (Acquire, False)] (1, \<lambda>_. None)"
    by simp
  have d: "lim_disciplined [(Acquire, True), (Acquire, False)]"
    by (auto simp: lim_disciplined_def wins_def take_Cons' filter_empty_conv)
  show ?thesis using r4 d limiter_bound [OF r4 d] by blast
qed

end
