(* ===== verification/RetryPolicy.thy ===== *)
theory RetryPolicy
  imports AtomicLoop Protocol
begin

text \<open>
  \<^verbatim>\<open>include/RetryPolicy.h\<close>: which outcomes of a call are retried, the token budget all calls of a cluster
  channel share, and the randomised exponential backoff. The value of \<^verbatim>\<open>std::rand()\<close> is an argument of
  \<open>jitterBackoff\<close>.
\<close>

record retry_options =
  opt_maxAttempts :: u32
  opt_budgetTokens :: u32
  opt_baseBackoffMs :: u32
  opt_maxBackoffMs :: u32
  opt_hedgeAfterMs :: u32
  opt_recoveryMinWorking :: u32

definition default_retry_options :: retry_options where
  "default_retry_options = \<lparr>opt_maxAttempts = 3, opt_budgetTokens = 10, opt_baseBackoffMs = 50,
     opt_maxBackoffMs = 1000, opt_hedgeAfterMs = 0, opt_recoveryMinWorking = 1\<rparr>"

section \<open>RetryBudget\<close>

record retry_budget =
  bud_max :: u32
  bud_tokens :: u32

definition new_budget :: "u32 \<Rightarrow> retry_budget" where
  "new_budget mx = \<lparr>bud_max = mx, bud_tokens = mx\<rparr>"

definition budget_reset :: "u32 \<Rightarrow> retry_budget \<Rightarrow> retry_budget" where
  "budget_reset mx b = b\<lparr>bud_max := mx, bud_tokens := mx\<rparr>"

definition tryConsume :: "retry_budget \<Rightarrow> bool \<times> retry_budget" where
  "tryConsume b = (if bud_tokens b > 0 then (True, b\<lparr>bud_tokens := bud_tokens b - 1\<rparr>) else (False, b))"

definition refund :: "retry_budget \<Rightarrow> retry_budget" where
  "refund b = (if bud_tokens b < bud_max b then b\<lparr>bud_tokens := bud_tokens b + 1\<rparr> else b)"

definition available :: "retry_budget \<Rightarrow> u32" where
  "available b = bud_tokens b"

text \<open>The two loops as operations of one atomic variable.\<close>

datatype bud_op = Consume | Refund

fun bud_guard :: "u32 \<Rightarrow> bud_op \<Rightarrow> u32 \<Rightarrow> bool" where
  "bud_guard mx Consume t \<longleftrightarrow> t > 0"
| "bud_guard mx Refund t \<longleftrightarrow> t < mx"

fun bud_upd :: "bud_op \<Rightarrow> u32 \<Rightarrow> u32" where
  "bud_upd Consume t = t - 1"
| "bud_upd Refund t = t + 1"

section \<open>Retry decision and backoff\<close>

definition shouldRetry :: "u16 \<Rightarrow> bool \<Rightarrow> u32 \<Rightarrow> u32 \<Rightarrow> bool" where
  "shouldRetry status idempotent attempt maxAttempts =
     (if attempt \<ge> maxAttempts then False
      else if status = kOk \<or> status = kDeadlineExceeded then False
      else if status = kUnknown then idempotent
      else False)"

definition jitterBackoff :: "nat \<Rightarrow> u32 \<Rightarrow> u32 \<Rightarrow> u32 \<Rightarrow> u32" where
  "jitterBackoff rand attempt baseMs maxMs =
     (let exp = push_bit (if attempt > 8 then 8 else unat attempt) (ucast baseMs :: u64);
          cap = (if exp > ucast maxMs then ucast maxMs else exp);
          r = of_nat (rand mod 1000) * cap div 1000
      in ucast r)"

section \<open>The budget under concurrency\<close>

definition bud_good :: "u32 \<Rightarrow> (bud_op \<times> bool) list \<Rightarrow> u32 \<Rightarrow> bool" where
  "bud_good mx tr t \<longleftrightarrow> t \<le> mx \<and> unat t + wins Consume tr = unat mx + wins Refund tr"

interpretation bud: cas_object "bud_guard mx" bud_upd "\<lambda>_. True" "bud_good mx" for mx :: u32
proof unfold_locales
  fix tr t opn
  assume good: "bud_good mx tr t" and g: "bud_guard mx opn t"
  show "bud_good mx (tr @ [(opn, True)]) (bud_upd opn t)"
  proof (cases opn)
    case Consume
    with g have "t \<noteq> 0" "unat t \<noteq> 0" by (auto simp: word_less_nat_alt unat_eq_0)
    then show ?thesis
      using good Consume by (auto simp: bud_good_def unat_pred word_le_nat_alt)
  next
    case Refund
    then show ?thesis
      using good g unat_succ [of t mx] by (auto simp: bud_good_def inc_le)
  qed
qed (auto simp: bud_good_def)

text \<open>The bounds that keep the 64-bit backoff arithmetic from wrapping.\<close>

lemma backoff_exp:
  "unat (push_bit (if attempt > 8 then 8 else unat (attempt :: u32)) (ucast (baseMs :: u32) :: u64)) =
     unat baseMs * 2 ^ min 8 (unat attempt)"
proof -
  let ?n = "if attempt > 8 then 8 else unat attempt"
  have n: "?n = min 8 (unat attempt)"
    by (auto simp: word_less_nat_alt min_def)
  have "unat baseMs * 2 ^ ?n \<le> unat baseMs * 2 ^ 8"
    unfolding n by (intro mult_le_mono2 power_increasing) auto
  also have "\<dots> < 2 ^ 64"
    using unsigned_less [of baseMs, where 'a = nat] by simp
  finally have "unat baseMs * 2 ^ ?n < 2 ^ 64" .
  then show ?thesis
    unfolding n [symmetric] unsigned_push_bit_eq unat_ucast_u64
    unfolding push_bit_eq_mult by (intro take_bit_nat_eq_self) simp
qed


lemma jitter_backoff_value:
  "unat (jitterBackoff rand attempt baseMs maxMs) =
     (rand mod 1000) * min (unat maxMs) (unat baseMs * 2 ^ min 8 (unat attempt)) div 1000"
proof -
  define e :: u64 where "e = push_bit (if attempt > 8 then 8 else unat attempt) (ucast baseMs)"
  define cap :: u64 where "cap = (if e > ucast maxMs then ucast maxMs else e)"
  have up: "unat (ucast maxMs :: u64) = unat maxMs"
    by (simp add: unat_ucast_u64)
  have cap: "unat cap = min (unat maxMs) (unat baseMs * 2 ^ min 8 (unat attempt))"
    using backoff_exp [of attempt baseMs] unfolding cap_def e_def
    by (simp add: word_less_nat_alt up min_def del: push_bit_of_0)
  have mx: "unat maxMs < 2 ^ 32"
    using unsigned_less [of maxMs, where 'a = nat] by simp
  then have cap32: "unat cap < 2 ^ 32" unfolding cap by (simp add: min_less_iff_disj)
  have r: "rand mod 1000 < 1000" by simp
  have le: "rand mod 1000 * unat cap \<le> 1000 * unat cap" using r by (intro mult_le_mono1) simp
  also have "\<dots> < 2 ^ 64" using cap32 by simp
  finally have small: "rand mod 1000 * unat cap < 2 ^ 64" .
  have q: "unat (of_nat (rand mod 1000) * cap div 1000) = rand mod 1000 * unat cap div 1000"
  proof -
    have "unat (of_nat (rand mod 1000) :: u64) = rand mod 1000"
      using r by (simp add: unat_of_nat)
    then show ?thesis using small by (simp add: unat_div_distrib unat_word_ariths)
  qed
  have "rand mod 1000 * unat cap div 1000 \<le> unat cap"
    using le by linarith
  then have "rand mod 1000 * unat cap div 1000 < 2 ^ 32" using cap32 by linarith
  then show ?thesis
    unfolding jitterBackoff_def Let_def e_def [symmetric] cap_def [symmetric] unsigned_ucast_eq q
    by (simp add: cap take_bit_nat_eq_self)
qed

section \<open>Properties\<close>

text \<open>C28: Retry budget. However many threads race through \<open>tryConsume\<close> and \<open>refund\<close>, the tokens left are
  the initial ones minus the granted retries plus the accepted refunds, and never more than the maximum, so
  at no moment can more retries have been granted than tokens existed.\<close>

theorem retry_budget_conserved:
  assumes "cas_run (bud_guard mx) bud_upd mx tr (t, th)"
  shows "unat t + wins Consume tr = unat mx + wins Refund tr \<and> t \<le> mx \<and>
    wins Consume tr \<le> unat mx + wins Refund tr"
proof -
  have "bud_good mx [] mx" by (simp add: bud_good_def)
  from bud.run_good [OF assms this] show ?thesis by (auto simp: bud_good_def)
qed

theorem retry_budget_conserved_witness:
  "\<exists>th. cas_run (bud_guard 1) bud_upd 1 [(Refund, False), (Consume, True)] (0, th) \<and>
     unat (0 :: u32) + wins Consume [(Refund, False), (Consume, True)] =
     unat (1 :: u32) + wins Refund [(Refund, False), (Consume, True)]"
proof -
  have r1: "cas_run (bud_guard 1) bud_upd 1 [] (1, ((\<lambda>_. None)(0 \<mapsto> (Consume, 1)))(1 \<mapsto> (Refund, 1)))"
    by (intro cas_run.cas_load cas_run.cas_init) simp_all
  from cas_run.cas_gave_up [OF r1, of 1 Refund 1]
  have r2: "cas_run (bud_guard 1) bud_upd 1 [(Refund, False)] (1, (\<lambda>_. None)(0 \<mapsto> (Consume, 1)))"
    by (simp add: fun_upd_twist)
  from cas_run.cas_won [OF r2, of 0 Consume]
  have r3: "cas_run (bud_guard 1) bud_upd 1 [(Refund, False), (Consume, True)] (0, \<lambda>_. None)"
    by simp
  show ?thesis using r3 retry_budget_conserved [OF r3] by blast
qed

text \<open>Backoff. For every random number, attempt, base and maximum the 32- and 64-bit computation of
  \<open>jitterBackoff\<close> is exactly the floor of the random fraction of min(max, base * 2^min(attempt, 8)): nothing
  wraps around or is truncated, the delay never exceeds the configured maximum, and it is strictly below
  the exponential cap whenever that is positive.\<close>

theorem jitter_backoff_exact:
  "let cap = min (unat maxMs) (unat baseMs * 2 ^ min 8 (unat attempt)) in
     unat (jitterBackoff rand attempt baseMs maxMs) = rand mod 1000 * cap div 1000 \<and>
     jitterBackoff rand attempt baseMs maxMs \<le> maxMs \<and>
     (cap = 0 \<or> unat (jitterBackoff rand attempt baseMs maxMs) < cap)"
proof -
  define cap where "cap = min (unat maxMs) (unat baseMs * 2 ^ min 8 (unat attempt))"
  have v: "unat (jitterBackoff rand attempt baseMs maxMs) = rand mod 1000 * cap div 1000"
    unfolding cap_def by (rule jitter_backoff_value)
  have "rand mod 1000 * cap \<le> 999 * cap" by (intro mult_le_mono1) simp
  then have "rand mod 1000 * cap div 1000 \<le> cap" and "cap = 0 \<or> rand mod 1000 * cap div 1000 < cap"
    by linarith+
  moreover have "cap \<le> unat maxMs" by (simp add: cap_def)
  ultimately show ?thesis using v by (auto simp: word_le_nat_alt Let_def cap_def [symmetric])
qed

end
