(* ===== verification/CircuitBreaker.thy ===== *)
theory CircuitBreaker
  imports RpcPrelude
begin

text \<open>
  \<^verbatim>\<open>include/CircuitBreaker.h\<close>, \<^verbatim>\<open>src/CircuitBreaker.cpp\<close>: the per-instance circuit breaker. Every method runs
  under the breaker's mutex, so an execution is a sequence of calls. Each reading of the steady clock is
  an argument, in the order the code takes them. The error rate is a double: its operations are those of
  the rationals, each followed by the rounding \<open>rnd\<close>.
\<close>

record bucket =
  b_start :: time
  b_requests :: u64
  b_errors :: u64

datatype cb_state = Closed | Open | HalfOpen

record breaker =
  cb_buckets :: "bucket list"
  cb_windowMs :: time
  cb_state :: cb_state
  cb_openedAt :: time
  cb_lastIsolation :: time
  cb_minRequestAmount :: u64
  cb_errorRateThreshold :: rat

definition kMaxIsolation :: time where
  "kMaxIsolation = msec 30000"

definition new_breaker :: "u64 \<Rightarrow> rat \<Rightarrow> time \<Rightarrow> breaker" where
  "new_breaker minAmount threshold window =
     \<lparr>cb_buckets = [], cb_windowMs = window, cb_state = Closed, cb_openedAt = 0,
      cb_lastIsolation = msec 100, cb_minRequestAmount = minAmount, cb_errorRateThreshold = threshold\<rparr>"

definition rollWindowLocked :: "time \<Rightarrow> breaker \<Rightarrow> breaker" where
  "rollWindowLocked now b =
     (let bs = dropWhile (\<lambda>k. now - b_start k \<ge> cb_windowMs b) (cb_buckets b)
      in b\<lparr>cb_buckets :=
             (if bs = [] \<or> now - b_start (last bs) \<ge> msec 1000
              then bs @ [\<lparr>b_start = now, b_requests = 0, b_errors = 0\<rparr>] else bs)\<rparr>)"

definition tally :: "breaker \<Rightarrow> u64 \<times> u64" where
  "tally b = fold (\<lambda>k (reqs, errs). (reqs + b_requests k, errs + b_errors k)) (cb_buckets b) (0, 0)"

text \<open>
  The comparison \<^verbatim>\<open>double(errors) / double(total) > threshold\<close>. With no requests the quotient is
  not a number and the comparison is false; errors without requests would give infinity.
\<close>

definition rate_exceeds :: "rounding \<Rightarrow> u64 \<Rightarrow> u64 \<Rightarrow> rat \<Rightarrow> bool" where
  "rate_exceeds rnd errs reqs threshold =
     (if reqs = 0 then errs \<noteq> 0
      else rnd (rnd (of_nat (unat errs)) / rnd (of_nat (unat reqs))) > threshold)"

definition allowRequest :: "rounding \<Rightarrow> time \<Rightarrow> time \<Rightarrow> breaker \<Rightarrow> bool \<times> breaker" where
  "allowRequest rnd now1 now2 b0 =
     (let b = rollWindowLocked now1 b0
      in case cb_state b of
           Closed \<Rightarrow>
             let (reqs, errs) = tally b
             in (True, if reqs \<ge> cb_minRequestAmount b \<and> rate_exceeds rnd errs reqs (cb_errorRateThreshold b)
                       then b\<lparr>cb_state := Open, cb_openedAt := now2\<rparr> else b)
         | Open \<Rightarrow>
             if now2 - cb_openedAt b \<ge> cb_lastIsolation b then (True, b\<lparr>cb_state := HalfOpen\<rparr>) else (False, b)
         | HalfOpen \<Rightarrow> (False, b))"

definition cb_record :: "bool \<Rightarrow> time \<Rightarrow> time \<Rightarrow> breaker \<Rightarrow> breaker" where
  "cb_record error now1 now2 b0 =
     (let b = (if cb_buckets b0 = [] \<or> now1 - b_start (last (cb_buckets b0)) \<ge> cb_windowMs b0
               then rollWindowLocked now2 b0 else b0);
          k = last (cb_buckets b)
      in b\<lparr>cb_buckets := butlast (cb_buckets b) @
             [k\<lparr>b_requests := b_requests k + 1, b_errors := (if error then b_errors k + 1 else b_errors k)\<rparr>]\<rparr>)"

definition onSuccess :: "time \<Rightarrow> time \<Rightarrow> time \<Rightarrow> breaker \<Rightarrow> breaker" where
  "onSuccess now1 now2 now3 b0 =
     (let b = rollWindowLocked now1 b0
      in if cb_state b = HalfOpen
         then b\<lparr>cb_state := Closed, cb_buckets := [], cb_lastIsolation := msec 100\<rparr>
         else cb_record False now2 now3 b)"

definition onError :: "time \<Rightarrow> time \<Rightarrow> time \<Rightarrow> breaker \<Rightarrow> breaker" where
  "onError now1 now2 now3 b0 =
     (let b = rollWindowLocked now1 b0
      in if cb_state b = HalfOpen
         then b\<lparr>cb_state := Open, cb_openedAt := now2,
                cb_lastIsolation := min (cb_lastIsolation b * 2) kMaxIsolation\<rparr>
         else cb_record True now2 now3 b)"

definition isOpen :: "breaker \<Rightarrow> bool" where
  "isOpen b \<longleftrightarrow> cb_state b = Open"

definition isAvailable :: "time \<Rightarrow> breaker \<Rightarrow> bool" where
  "isAvailable now b =
     (if cb_state b = Closed \<or> cb_state b = HalfOpen then True
      else now - cb_openedAt b \<ge> cb_lastIsolation b)"

section \<open>Executions\<close>

text \<open>
  A call with the clock readings it takes. \<open>cb_step\<close> performs it and gives the answer of \<open>allowRequest\<close>
  where the call is one; \<open>cb_exec\<close> performs a sequence of calls.
\<close>

datatype cb_call = Allow time time | Success time time time | Failure time time time

fun cb_step :: "rounding \<Rightarrow> cb_call \<Rightarrow> breaker \<Rightarrow> bool list \<times> breaker" where
  "cb_step rnd (Allow t1 t2) b = (let (ok, b') = allowRequest rnd t1 t2 b in ([ok], b'))"
| "cb_step rnd (Success t1 t2 t3) b = ([], onSuccess t1 t2 t3 b)"
| "cb_step rnd (Failure t1 t2 t3) b = ([], onError t1 t2 t3 b)"

fun cb_exec :: "rounding \<Rightarrow> cb_call list \<Rightarrow> breaker \<Rightarrow> bool list \<times> breaker" where
  "cb_exec rnd [] b = ([], b)"
| "cb_exec rnd (c # cs) b =
     (let (os, b') = cb_step rnd c b; (os', b'') = cb_exec rnd cs b' in (os @ os', b''))"

fun clocks :: "cb_call \<Rightarrow> time list" where
  "clocks (Allow t1 t2) = [t1, t2]"
| "clocks (Success t1 t2 t3) = [t1, t2, t3]"
| "clocks (Failure t1 t2 t3) = [t1, t2, t3]"


definition failures :: "cb_call list \<Rightarrow> nat" where
  "failures cs = length (filter (\<lambda>c. case c of Failure _ _ _ \<Rightarrow> True | _ \<Rightarrow> False) cs)"

definition no_success :: "cb_call list \<Rightarrow> bool" where
  "no_success cs = list_all (\<lambda>c. case c of Success _ _ _ \<Rightarrow> False | _ \<Rightarrow> True) cs"

text \<open>Probe attempts that all fail: per entry, the clock readings of the grant and of the failure.\<close>

definition failed_probes :: "((time \<times> time) \<times> (time \<times> time \<times> time)) list \<Rightarrow> cb_call list" where
  "failed_probes ts = concat (map (\<lambda>((t1, t2), (u1, u2, u3)). [Allow t1 t2, Failure u1 u2 u3]) ts)"

section \<open>What each call does to the state machine\<close>

lemma roll_fields [simp]:
  "cb_state (rollWindowLocked t b) = cb_state b"
  "cb_openedAt (rollWindowLocked t b) = cb_openedAt b"
  "cb_lastIsolation (rollWindowLocked t b) = cb_lastIsolation b"
  "cb_windowMs (rollWindowLocked t b) = cb_windowMs b"
  "cb_minRequestAmount (rollWindowLocked t b) = cb_minRequestAmount b"
  "cb_errorRateThreshold (rollWindowLocked t b) = cb_errorRateThreshold b"
  by (simp_all add: rollWindowLocked_def Let_def)

lemma record_fields [simp]:
  "cb_state (cb_record e t t' b) = cb_state b"
  "cb_openedAt (cb_record e t t' b) = cb_openedAt b"
  "cb_lastIsolation (cb_record e t t' b) = cb_lastIsolation b"
  "cb_windowMs (cb_record e t t' b) = cb_windowMs b"
  by (simp_all add: cb_record_def Let_def)

lemma roll_not_empty [simp]: "cb_buckets (rollWindowLocked t b) \<noteq> []"
  by (simp add: rollWindowLocked_def Let_def)

text \<open>The outcome of a call outside the half-open state is only counted.\<close>

lemma outcome_counted:
  assumes "cb_state b \<noteq> HalfOpen"
  shows "cb_state (onSuccess t1 t2 t3 b) = cb_state b" "cb_state (onError t1 t2 t3 b) = cb_state b"
    "cb_openedAt (onSuccess t1 t2 t3 b) = cb_openedAt b" "cb_openedAt (onError t1 t2 t3 b) = cb_openedAt b"
    "cb_lastIsolation (onSuccess t1 t2 t3 b) = cb_lastIsolation b"
    "cb_lastIsolation (onError t1 t2 t3 b) = cb_lastIsolation b"
  using assms by (simp_all add: onSuccess_def onError_def Let_def)

lemma probe_outcome:
  assumes "cb_state b = HalfOpen"
  shows "cb_state (onSuccess t1 t2 t3 b) = Closed" "cb_buckets (onSuccess t1 t2 t3 b) = []"
    "cb_lastIsolation (onSuccess t1 t2 t3 b) = msec 100"
    "cb_state (onError t1 t2 t3 b) = Open" "cb_openedAt (onError t1 t2 t3 b) = t2"
    "cb_lastIsolation (onError t1 t2 t3 b) = min (cb_lastIsolation b * 2) kMaxIsolation"
  using assms by (simp_all add: onSuccess_def onError_def Let_def)

lemma allow_open:
  assumes "cb_state b = Open"
  shows "allowRequest rnd t1 t2 b =
    (cb_openedAt b + cb_lastIsolation b \<le> t2,
     (rollWindowLocked t1 b)\<lparr>cb_state := if cb_openedAt b + cb_lastIsolation b \<le> t2 then HalfOpen else Open\<rparr>)"
proof -
  have "(rollWindowLocked t1 b)\<lparr>cb_state := Open\<rparr> = rollWindowLocked t1 b"
    using assms roll_fields(1) [of t1 b] by (metis breaker.surjective breaker.update_convs(3))
  moreover have "cb_openedAt b + cb_lastIsolation b \<le> t2 \<longleftrightarrow> cb_lastIsolation b \<le> t2 - cb_openedAt b"
    by linarith
  ultimately show ?thesis
    using assms by (auto simp: allowRequest_def Let_def)
qed

lemma allow_half_open:
  "cb_state b = HalfOpen \<Longrightarrow> allowRequest rnd t1 t2 b = (False, rollWindowLocked t1 b)"
  by (simp add: allowRequest_def Let_def)

lemma allow_closed:
  assumes "cb_state b = Closed"
  shows "fst (allowRequest rnd t1 t2 b)"
    "cb_state (snd (allowRequest rnd t1 t2 b)) \<in> {Closed, Open}"
    "cb_lastIsolation (snd (allowRequest rnd t1 t2 b)) = cb_lastIsolation b"
  using assms by (auto simp: allowRequest_def Let_def split: prod.splits)

lemma cb_exec_append:
  "cb_exec rnd (cs @ ds) b =
     (fst (cb_exec rnd cs b) @ fst (cb_exec rnd ds (snd (cb_exec rnd cs b))),
      snd (cb_exec rnd ds (snd (cb_exec rnd cs b))))"
  by (induction cs arbitrary: b) (simp_all add: split_beta Let_def)

section \<open>The window of buckets\<close>

text \<open>
  Buckets are at least a second apart, none starts in the future, and together they span less than the
  window.
\<close>

definition window_ok :: "time \<Rightarrow> breaker \<Rightarrow> bool" where
  "window_ok now b \<longleftrightarrow>
     sorted_wrt (\<lambda>x y. b_start x + msec 1000 \<le> b_start y) (cb_buckets b) \<and>
     (\<forall>k \<in> set (cb_buckets b). b_start k \<le> now) \<and>
     (cb_buckets b = [] \<or> b_start (last (cb_buckets b)) - b_start (hd (cb_buckets b)) < cb_windowMs b)"

lemma window_ok_later: "window_ok t b \<Longrightarrow> t \<le> t' \<Longrightarrow> window_ok t' b"
  by (force simp: window_ok_def)

lemma window_ok_cong:
  "cb_buckets b' = cb_buckets b \<Longrightarrow> cb_windowMs b' = cb_windowMs b \<Longrightarrow> window_ok t b' = window_ok t b"
  by (simp add: window_ok_def)

lemma spaced_last:
  assumes "sorted_wrt (\<lambda>x y. b_start x + msec 1000 \<le> b_start y) bs" and "k \<in> set bs"
  shows "b_start k \<le> b_start (last bs)"
proof -
  obtain xs ys where bs: "bs = xs @ k # ys"
    using assms(2) by (meson split_list)
  show ?thesis
  proof (cases "ys = []")
    case False
    then have "b_start k + msec 1000 \<le> b_start (last ys)"
      using assms(1) by (simp add: bs sorted_wrt_append)
    then show ?thesis using False by (simp add: bs msec_def)
  qed (simp add: bs)
qed

lemma roll_window_ok:
  assumes ok: "window_ok t b" and t: "t \<le> now" and w: "0 < cb_windowMs b"
  shows "window_ok now (rollWindowLocked now b)"
proof -
  define bs where "bs = dropWhile (\<lambda>k. now - b_start k \<ge> cb_windowMs b) (cb_buckets b)"
  have sorted: "sorted_wrt (\<lambda>x y. b_start x + msec 1000 \<le> b_start y) bs"
    using ok unfolding window_ok_def bs_def dropWhile_eq_drop by (simp add: sorted_wrt_drop)
  have past: "b_start k \<le> now" if "k \<in> set bs" for k
    using ok t that unfolding window_ok_def bs_def by (auto dest!: set_dropWhileD intro: order_trans)
  have span: "now - b_start (hd bs) < cb_windowMs b" if "bs \<noteq> []"
    using that hd_dropWhile [of "\<lambda>k. now - b_start k \<ge> cb_windowMs b" "cb_buckets b"]
    unfolding bs_def by linarith
  show ?thesis
  proof (cases "bs = [] \<or> now - b_start (last bs) \<ge> msec 1000")
    case True
    have "b_start k + msec 1000 \<le> now" if "k \<in> set bs" for k
    proof -
      have "b_start k \<le> b_start (last bs)"
        using spaced_last [OF sorted that] .
      with True that show ?thesis by auto
    qed
    with True sorted past span w show ?thesis
      by (auto simp: window_ok_def rollWindowLocked_def bs_def [symmetric] sorted_wrt_append hd_append)
  next
    case False
    then have "b_start (last bs) \<le> now" using past by simp
    with False span have "b_start (last bs) - b_start (hd bs) < cb_windowMs b" by linarith
    with False sorted past show ?thesis
      by (auto simp: window_ok_def rollWindowLocked_def bs_def [symmetric])
  qed
qed

lemma bump_window_ok:
  assumes "window_ok t b" and "cb_buckets b \<noteq> []" and "b_start k' = b_start (last (cb_buckets b))"
  shows "window_ok t (b\<lparr>cb_buckets := butlast (cb_buckets b) @ [k']\<rparr>)"
proof -
  obtain ks k where ks: "cb_buckets b = ks @ [k]"
    using assms(2) by (metis append_butlast_last_id)
  show ?thesis
    using assms by (cases ks) (auto simp: window_ok_def ks sorted_wrt_append)
qed

lemma record_window_ok:
  assumes "window_ok t b" "t \<le> t1" "t1 \<le> t2" "0 < cb_windowMs b"
  shows "window_ok t2 (cb_record e t1 t2 b)"
proof -
  let ?b = "if cb_buckets b = [] \<or> t1 - b_start (last (cb_buckets b)) \<ge> cb_windowMs b
    then rollWindowLocked t2 b else b"
  have "window_ok t2 ?b" and "cb_buckets ?b \<noteq> []"
    using assms roll_window_ok [of t b t2] window_ok_later [of t b t2] by (auto split: if_splits)
  then show ?thesis
    unfolding cb_record_def Let_def by (intro bump_window_ok) simp_all
qed

lemma allow_buckets:
  "cb_buckets (snd (allowRequest rnd t1 t2 b)) = cb_buckets (rollWindowLocked t1 b)"
  "cb_windowMs (snd (allowRequest rnd t1 t2 b)) = cb_windowMs b"
  by (auto simp: allowRequest_def Let_def split: prod.splits cb_state.splits)

lemma step_window_ok:
  assumes ok: "window_ok t b" and w: "0 < cb_windowMs b" and sorted: "sorted (t # clocks c)"
  shows "window_ok (last (clocks c)) (snd (cb_step rnd c b)) \<and>
    cb_windowMs (snd (cb_step rnd c b)) = cb_windowMs b"
proof -
  have roll: "window_ok t1 (rollWindowLocked t1 b)" if "t \<le> t1" for t1
    using roll_window_ok [OF ok that w] .
  have rec: "window_ok t3 (cb_record e t2 t3 (rollWindowLocked t1 b))" if "t \<le> t1" "t1 \<le> t2" "t2 \<le> t3" for t1 t2 t3 e
    by (rule record_window_ok [OF roll]) (simp_all add: that w)
  have later: "window_ok t3 (rollWindowLocked t1 b)" if "t \<le> t1" "t1 \<le> t3" for t1 t3
    using window_ok_later [OF roll [OF that(1)] that(2)] .
  show ?thesis
  proof (cases c)
    case (Allow t1 t2)
    then show ?thesis
      using sorted later [of t1 t2] allow_buckets [of rnd t1 t2 b]
      by (simp add: split_beta Let_def window_ok_def)
  next
    case (Success t1 t2 t3)
    then show ?thesis
      using sorted rec [of t1 t2 t3 False] by (simp add: onSuccess_def Let_def window_ok_def)
  next
    case (Failure t1 t2 t3)
    then show ?thesis
      using sorted rec [of t1 t2 t3 True] later [of t1 t3] by (simp add: onError_def Let_def window_ok_def)
  qed
qed

lemma exec_window_ok:
  assumes "window_ok t b" "0 < cb_windowMs b" "sorted (t # concat (map clocks cs))"
  shows "\<exists>t'. window_ok t' (snd (cb_exec rnd cs b)) \<and> cb_windowMs (snd (cb_exec rnd cs b)) = cb_windowMs b"
  using assms
proof (induction cs arbitrary: t b)
  case (Cons c cs)
  have "clocks c \<noteq> []" by (cases c) auto
  with Cons.prems(3) have "sorted (last (clocks c) # concat (map clocks cs))"
    by (auto simp: sorted_append)
  moreover have "sorted (t # clocks c)" using Cons.prems(3) by (auto simp: sorted_append)
  ultimately show ?case
    using Cons.IH [of "last (clocks c)" "snd (cb_step rnd c b)"] step_window_ok [OF Cons.prems(1,2)] Cons.prems(2)
    by (simp add: split_beta Let_def)
qed auto

lemma spaced_span:
  "sorted_wrt (\<lambda>x y. b_start x + msec 1000 \<le> b_start y) bs \<Longrightarrow> bs \<noteq> [] \<Longrightarrow>
    int (length bs - 1) * msec 1000 \<le> b_start (last bs) - b_start (hd bs)"
proof (induction bs)
  case (Cons a bs)
  then show ?case by (cases bs) (auto simp: algebra_simps)
qed simp

section \<open>Properties\<close>

text \<open>C15: Isolation. While the circuit is open and its isolation period has not elapsed, no request is let
  through: whatever calls arrive, late results of earlier requests included, every \<open>allowRequest\<close> answers
  false and the circuit stays open.\<close>

theorem breaker_isolates:
  assumes "cb_state b = Open" and "\<forall>c \<in> set cs. \<forall>t \<in> set (clocks c). t < cb_openedAt b + cb_lastIsolation b"
  shows "True \<notin> set (fst (cb_exec rnd cs b)) \<and> cb_state (snd (cb_exec rnd cs b)) = Open"
  using assms
proof (induction cs arbitrary: b)
  case (Cons c cs)
  have "cb_state (snd (cb_step rnd c b)) = Open \<and> True \<notin> set (fst (cb_step rnd c b)) \<and>
    cb_openedAt (snd (cb_step rnd c b)) = cb_openedAt b \<and>
    cb_lastIsolation (snd (cb_step rnd c b)) = cb_lastIsolation b"
    using Cons.prems by (cases c) (simp_all add: allow_open outcome_counted)
  then show ?case
    using Cons.IH [of "snd (cb_step rnd c b)"] Cons.prems by (simp add: split_beta Let_def)
qed simp

theorem breaker_isolates_witness:
  "let b = (new_breaker 5 (1/2) (msec 10000))\<lparr>cb_state := Open, cb_openedAt := msec 50\<rparr>;
       cs = [Allow (msec 60) (msec 61), Success (msec 70) (msec 71) (msec 72), Allow (msec 149) (msec 149)]
   in cb_state b = Open \<and> True \<notin> set (fst (cb_exec id cs b)) \<and> cb_state (snd (cb_exec id cs b)) = Open"
  using breaker_isolates [of "(new_breaker 5 (1/2) (msec 10000))\<lparr>cb_state := Open, cb_openedAt := msec 50\<rparr>"
      "[Allow (msec 60) (msec 61), Success (msec 70) (msec 71) (msec 72), Allow (msec 149) (msec 149)]" id]
  by (simp add: new_breaker_def msec_def Let_def)

lemma grants_bounded:
  "cb_state b \<noteq> Closed \<Longrightarrow> no_success cs \<Longrightarrow>
    length (filter id (fst (cb_exec rnd cs b))) \<le> failures cs + (if cb_state b = Open then 1 else 0) \<and>
    cb_state (snd (cb_exec rnd cs b)) \<noteq> Closed"
proof (induction cs arbitrary: b)
  case (Cons c cs)
  show ?case
  proof (cases c)
    case (Allow t1 t2)
    let ?b = "snd (allowRequest rnd t1 t2 b)"
    have "cb_state ?b \<noteq> Closed \<and> (fst (allowRequest rnd t1 t2 b) \<longrightarrow> cb_state b = Open \<and> cb_state ?b = HalfOpen) \<and>
      (\<not> fst (allowRequest rnd t1 t2 b) \<longrightarrow> cb_state ?b = cb_state b)"
      using Cons.prems(1) by (cases "cb_state b") (simp_all add: allow_open allow_half_open)
    moreover have "no_success cs" using Cons.prems(2) by (simp add: no_success_def)
    ultimately show ?thesis
      using Cons.IH [of ?b] Allow by (auto simp: split_beta Let_def failures_def)
  next
    case (Failure t1 t2 t3)
    have "cb_state (onError t1 t2 t3 b) = Open"
      using Cons.prems(1) by (cases "cb_state b") (simp_all add: outcome_counted probe_outcome)
    moreover have "no_success cs" using Cons.prems(2) by (simp add: no_success_def)
    ultimately show ?thesis
      using Cons.IH [of "onError t1 t2 t3 b"] Failure by (simp add: split_beta Let_def failures_def)
  qed (use Cons.prems in \<open>simp add: no_success_def\<close>)
qed simp

text \<open>C29: Single probe. From an open circuit, as long as no success is reported, at most one request is let
  through per reported failure plus one: a tripped backend receives one probe at a time, however many
  callers ask and however much time passes.\<close>

theorem breaker_single_probe:
  assumes "cb_state b = Open" and "no_success cs"
  shows "length (filter id (fst (cb_exec rnd cs b))) \<le> failures cs + 1"
  using grants_bounded [of b cs rnd] assms by simp

theorem breaker_single_probe_witness:
  "let b = (new_breaker 5 (1/2) (msec 10000))\<lparr>cb_state := Open\<rparr>;
       cs = [Allow (msec 200) (msec 200), Allow (msec 90000) (msec 90000), Allow (msec 99000) (msec 99000)]
   in cb_state b = Open \<and> no_success cs \<and> length (filter id (fst (cb_exec id cs b))) \<le> failures cs + 1"
  using breaker_single_probe [of "(new_breaker 5 (1/2) (msec 10000))\<lparr>cb_state := Open\<rparr>"
      "[Allow (msec 200) (msec 200), Allow (msec 90000) (msec 90000), Allow (msec 99000) (msec 99000)]" id]
  by (simp add: new_breaker_def no_success_def Let_def)

lemma capped_doubling:
  assumes "0 \<le> (k :: int)"
  shows "min (min x k * 2 ^ n) k = min (x * 2 ^ n) k"
proof (cases "x \<le> k")
  case False
  have "k \<le> k * 2 ^ n" using assms by (simp add: mult_le_cancel_left1)
  moreover have "k * 2 ^ n \<le> x * 2 ^ n" using False by (intro mult_right_mono) auto
  ultimately have "min (k * 2 ^ n) k = k" "min (x * 2 ^ n) k = k" by linarith+
  then show ?thesis using False by simp
qed simp

lemma failed_probes_run:
  "cb_state b = Open \<Longrightarrow> cb_lastIsolation b \<le> kMaxIsolation \<Longrightarrow> 0 \<le> cb_lastIsolation b \<Longrightarrow>
    fst (cb_exec rnd (failed_probes ts) b) = replicate (length ts) True \<Longrightarrow>
    cb_state (snd (cb_exec rnd (failed_probes ts) b)) = Open \<and>
    cb_lastIsolation (snd (cb_exec rnd (failed_probes ts) b)) =
      min (cb_lastIsolation b * 2 ^ length ts) kMaxIsolation"
proof (induction ts arbitrary: b)
  case Nil
  then show ?case by (simp add: failed_probes_def)
next
  case (Cons p ts)
  obtain t1 t2 u1 u2 u3 where p: "p = ((t1, t2), (u1, u2, u3))" by (metis surj_pair)
  let ?b = "onError u1 u2 u3 (snd (allowRequest rnd t1 t2 b))"
  have exec: "cb_exec rnd (failed_probes (p # ts)) b =
    (fst (allowRequest rnd t1 t2 b) # fst (cb_exec rnd (failed_probes ts) ?b),
     snd (cb_exec rnd (failed_probes ts) ?b))"
    by (simp add: p failed_probes_def split_beta Let_def)
  then have "fst (allowRequest rnd t1 t2 b)"
    and rest: "fst (cb_exec rnd (failed_probes ts) ?b) = replicate (length ts) True"
    using Cons.prems(4) by simp_all
  then have g: "cb_openedAt b + cb_lastIsolation b \<le> t2"
    using Cons.prems(1) by (simp add: allow_open)
  have st: "cb_state ?b = Open" "cb_lastIsolation ?b = min (cb_lastIsolation b * 2) kMaxIsolation"
    using g Cons.prems(1) by (simp_all add: allow_open probe_outcome)
  have pos: "0 \<le> kMaxIsolation" by (simp add: kMaxIsolation_def msec_def)
  then have IH: "cb_state (snd (cb_exec rnd (failed_probes ts) ?b)) = Open"
    "cb_lastIsolation (snd (cb_exec rnd (failed_probes ts) ?b)) =
      min (min (cb_lastIsolation b * 2) kMaxIsolation * 2 ^ length ts) kMaxIsolation"
    using Cons.IH [of ?b] rest st Cons.prems(3) by auto
  have "min (min (cb_lastIsolation b * 2) kMaxIsolation * 2 ^ length ts) kMaxIsolation =
    min (cb_lastIsolation b * 2 ^ length (p # ts)) kMaxIsolation"
    using capped_doubling [OF pos] by (simp add: mult.assoc)
  with IH show ?case unfolding exec by simp
qed

text \<open>Backoff of probes. After a trip, \<open>n\<close> probes that were granted and failed leave the circuit open with
  isolation min(100 ms * 2^n, 30 s); the next probe that is granted and succeeds closes it, with an
  empty window and the isolation back at 100 ms.\<close>

theorem breaker_backoff:
  assumes "cb_state b = Open" and "cb_lastIsolation b = msec 100"
    and "cb_exec rnd (failed_probes ts) b = (replicate (length ts) True, b')"
    and "allowRequest rnd t1 t2 b' = (True, b'')"
  shows "cb_state b' = Open \<and> cb_lastIsolation b' = min (msec 100 * 2 ^ length ts) (msec 30000) \<and>
    cb_state (onSuccess u1 u2 u3 b'') = Closed \<and> cb_buckets (onSuccess u1 u2 u3 b'') = [] \<and>
    cb_lastIsolation (onSuccess u1 u2 u3 b'') = msec 100"
proof -
  have b': "cb_state b' = Open \<and> cb_lastIsolation b' = min (msec 100 * 2 ^ length ts) (msec 30000)"
    using failed_probes_run [of b rnd ts] assms(1-3) by (simp add: kMaxIsolation_def msec_def)
  then have "cb_state b'' = HalfOpen"
    using assms(4) by (auto simp: allow_open split: if_splits)
  with b' show ?thesis by (simp add: probe_outcome)
qed

theorem breaker_backoff_witness:
  "let b = (new_breaker 5 (1/2) (msec 10000))\<lparr>cb_state := Open\<rparr>;
       ts = [((msec 100, msec 100), (msec 110, msec 110, msec 110))];
       b' = snd (cb_exec id (failed_probes ts) b);
       b'' = snd (allowRequest id (msec 310) (msec 310) b')
   in cb_exec id (failed_probes ts) b = ([True], b') \<and> allowRequest id (msec 310) (msec 310) b' = (True, b'') \<and>
      cb_lastIsolation b' = msec 200 \<and> cb_lastIsolation (onSuccess 0 0 0 b'') = msec 100"
proof -
  define b where "b = (new_breaker 5 (1/2) (msec 10000))\<lparr>cb_state := Open\<rparr>"
  let ?ts = "[((msec 100, msec 100), (msec 110, msec 110, msec 110))]"
  define b' where "b' = snd (cb_exec id (failed_probes ?ts) b)"
  define b'' where "b'' = snd (allowRequest id (msec 310) (msec 310) b')"
  have st: "cb_state b = Open" "cb_openedAt b = 0" "cb_lastIsolation b = msec 100"
    by (simp_all add: b_def new_breaker_def)
  have e: "cb_exec id (failed_probes ?ts) b = (replicate (length ?ts) True, b')"
    by (simp add: b'_def failed_probes_def allow_open st split_beta Let_def)
  have "cb_state b' = Open" "cb_openedAt b' = msec 110" "cb_lastIsolation b' = min (msec 100 * 2) kMaxIsolation"
    by (simp_all add: b'_def failed_probes_def allow_open st probe_outcome split_beta Let_def)
  then have a: "allowRequest id (msec 310) (msec 310) b' = (True, b'')"
    by (simp add: b''_def allow_open msec_def kMaxIsolation_def)
  have "cb_exec id (failed_probes ?ts) b = ([True], b') \<and> allowRequest id (msec 310) (msec 310) b' = (True, b'') \<and>
      cb_lastIsolation b' = msec 200 \<and> cb_lastIsolation (onSuccess 0 0 0 b'') = msec 100"
    using breaker_backoff [OF st(1,3) e a, of 0 0 0] e a by (simp add: msec_def)
  then show ?thesis
    unfolding Let_def b_def [symmetric] b'_def [symmetric] b''_def [symmetric] .
qed

text \<open>A probe without an outcome. In the half-open state, whatever time passes and however many callers ask,
  every request is refused and the state does not change, while \<open>isAvailable\<close> answers true at every moment: if
  the probe's outcome is never reported, the instance stays eligible for load balancing and refuses
  every request sent to it.\<close>

theorem breaker_probe_without_outcome:
  assumes "cb_state b = HalfOpen"
  shows "let (os, b') = cb_exec rnd (map (\<lambda>t. Allow t t) ts) b
    in os = replicate (length ts) False \<and> cb_state b' = HalfOpen \<and> isAvailable now b'"
proof -
  have "fst (cb_exec rnd (map (\<lambda>t. Allow t t) ts) b) = replicate (length ts) False \<and>
    cb_state (snd (cb_exec rnd (map (\<lambda>t. Allow t t) ts) b)) = HalfOpen"
    using assms by (induction ts arbitrary: b) (simp_all add: allow_half_open split_beta Let_def)
  then show ?thesis by (simp add: split_beta isAvailable_def)
qed

theorem breaker_probe_without_outcome_witness:
  "let b = (new_breaker 5 (1/2) (msec 10000))\<lparr>cb_state := HalfOpen\<rparr>
   in cb_state b = HalfOpen \<and> fst (cb_exec id [Allow (msec 1) (msec 1), Allow (msec 90000) (msec 90000)] b) = [False, False]"
  using breaker_probe_without_outcome [of "(new_breaker 5 (1/2) (msec 10000))\<lparr>cb_state := HalfOpen\<rparr>" id "[msec 1, msec 90000]" 0]
  by (simp add: split_beta Let_def)

lemma sorted_start: "sorted (xs :: time list) \<Longrightarrow> \<exists>t. sorted (t # xs)"
  by (cases xs) auto

text \<open>Window. Along every sequence of calls with a monotone clock, a breaker keeps at most one bucket per
  second of its window plus one: the memory of the sliding window is bounded.\<close>

theorem breaker_window_bounded:
  assumes "0 < w" and "sorted (concat (map clocks cs))"
  shows "int (length (cb_buckets (snd (cb_exec rnd cs (new_breaker n thr w)))) - 1) * msec 1000 < w"
proof -
  let ?b = "snd (cb_exec rnd cs (new_breaker n thr w))"
  obtain t where "sorted (t # concat (map clocks cs))"
    using sorted_start [OF assms(2)] by blast
  moreover have "window_ok t (new_breaker n thr w)" by (simp add: window_ok_def new_breaker_def)
  ultimately obtain t' where "window_ok t' ?b" and "cb_windowMs ?b = w"
    using exec_window_ok [of t "new_breaker n thr w" cs rnd] assms(1) by (auto simp: new_breaker_def)
  then show ?thesis
    using spaced_span [of "cb_buckets ?b"] assms(1) by (cases "cb_buckets ?b = []") (auto simp: window_ok_def)
qed

theorem breaker_window_bounded_witness:
  "sorted (concat (map clocks [Allow 0 0, Success 1 2 3, Failure 1000000003 1000000003 1000000003])) \<and>
   int (length (cb_buckets (snd (cb_exec id [Allow 0 0, Success 1 2 3, Failure 1000000003 1000000003 1000000003]
     (new_breaker 5 (1/2) (msec 10000))))) - 1) * msec 1000 < msec 10000"
  using breaker_window_bounded [of "msec 10000" "[Allow 0 0, Success 1 2 3, Failure 1000000003 1000000003 1000000003]" id 5 "1/2"]
  by (simp add: msec_def)

end
