(* ===== verification/LoadBalancer.thy ===== *)
theory LoadBalancer
  imports Protocol
begin

text \<open>
  \<^verbatim>\<open>include/LoadBalancer.h\<close>, \<^verbatim>\<open>src/LoadBalancer.cpp\<close>: the three strategies that choose an instance of a cluster.
  Each \<open>pick\<close> answers an index of \<open>states\<close>, or the number of states when there is none to choose. Doubles
  are rationals with a rounding after every operation; the random generator of the power-of-two
  strategy is a parameter, its state threaded through. \<^verbatim>\<open>std::sort\<close> of the hash ring is \<open>sort_key\<close>, which keeps
  entries of equal hash in the order they were pushed. The locale \<open>load_balancer\<close> is the contract of
  \<^verbatim>\<open>LoadBalancer::pick\<close>.
\<close>

record instance_state =
  healthy :: bool
  inflight :: u64
  latencyEmaMs :: rat
  weight :: rat

definition healthy_indices :: "instance_state list \<Rightarrow> nat list" where
  "healthy_indices states = filter (\<lambda>i. healthy (states ! i)) [0..<length states]"

section \<open>Power of two choices\<close>

definition score :: "rounding \<Rightarrow> instance_state \<Rightarrow> rat" where
  "score rnd s =
     (let w = (if weight s > 0 then weight s else 1)
      in rnd (rnd (latencyEmaMs s * rnd (rnd (of_nat (unat (inflight s))) + 1)) / w))"

text \<open>\<open>draw g n\<close> is a draw of \<^verbatim>\<open>uniform_int_distribution(0, n - 1)\<close> from the generator state \<open>g\<close>.\<close>

definition p2c_pick :: "rounding \<Rightarrow> ('g \<Rightarrow> nat \<Rightarrow> nat \<times> 'g) \<Rightarrow> 'g \<Rightarrow> instance_state list \<Rightarrow> u32 \<Rightarrow> nat \<times> 'g" where
  "p2c_pick rnd draw g states requestKey =
     (let hs = healthy_indices states
      in if hs = [] then (length states, g)
         else if length hs = 1 then (hs ! 0, g)
         else let (i, g1) = draw g (length hs);
                  (j, g2) = draw g1 (length hs);
                  a = hs ! i; b = hs ! j
              in (if score rnd (states ! a) \<le> score rnd (states ! b) then a else b, g2))"

section \<open>Smooth weighted round robin\<close>

text \<open>One round of the loop that raises every current weight and tracks the largest.\<close>

definition wrr_round :: "rounding \<Rightarrow> (nat \<Rightarrow> rat) \<Rightarrow> nat \<Rightarrow> rat list \<times> nat \<Rightarrow> rat list \<times> nat" where
  "wrr_round rnd w i cb =
     (let cur = (fst cb)[i := rnd (fst cb ! i + w i)]
      in (cur, if cur ! i > cur ! snd cb then i else snd cb))"

definition wrr_pick :: "rounding \<Rightarrow> rat list \<Rightarrow> instance_state list \<Rightarrow> u32 \<Rightarrow> nat \<times> rat list" where
  "wrr_pick rnd current states requestKey =
     (let hs = healthy_indices states; n = length hs
      in if hs = [] then (length states, current)
         else let w = (\<lambda>i. weight (states ! (hs ! i)));
                  cur0 = (if length current \<noteq> n then replicate n 0 else current);
                  tot = fold (\<lambda>i t. rnd (t + w i)) [0..<n] 0;
                  (cur, best) = fold (wrr_round rnd w) [0..<n] (cur0, 0)
              in (hs ! best, cur[best := rnd (cur ! best - tot)]))"

section \<open>Consistent hashing\<close>

record ring_entry =
  re_hash :: u32
  re_instanceIndex :: nat

record hash_balancer =
  virtualNodes :: nat
  ring :: "ring_entry list"
  ringVersion :: nat

definition new_hash_balancer :: "nat \<Rightarrow> hash_balancer" where
  "new_hash_balancer v = \<lparr>virtualNodes = (if v > 0 then v else 160), ring = [], ringVersion = 0\<rparr>"

definition ring_key :: "nat \<Rightarrow> nat \<Rightarrow> bytes" where
  "ring_key i v = dec_string i @ lit ''#'' @ dec_string v"

definition ring_points :: "nat \<Rightarrow> nat \<Rightarrow> ring_entry list" where
  "ring_points vn i = map (\<lambda>v. \<lparr>re_hash = fnv1a32 (ring_key i v), re_instanceIndex = i\<rparr>) [0..<vn]"

definition rebuild :: "hash_balancer \<Rightarrow> instance_state list \<Rightarrow> hash_balancer" where
  "rebuild hb states =
     hb\<lparr>ring := sort_key re_hash
          (concat (map (ring_points (virtualNodes hb)) (healthy_indices states)))\<rparr>"

text \<open>\<^verbatim>\<open>std::lower_bound\<close> on the sorted ring, wrapping to its beginning.\<close>

definition ring_lookup :: "ring_entry list \<Rightarrow> u32 \<Rightarrow> ring_entry" where
  "ring_lookup r key = (case dropWhile (\<lambda>x. re_hash x < key) r of [] \<Rightarrow> hd r | x # _ \<Rightarrow> x)"

definition hash_pick :: "hash_balancer \<Rightarrow> instance_state list \<Rightarrow> u32 \<Rightarrow> nat \<times> hash_balancer" where
  "hash_pick hb0 states requestKey =
     (let hb = (if ringVersion hb0 \<noteq> length states + 1
                then (rebuild hb0 states)\<lparr>ringVersion := length states + 1\<rparr> else hb0)
      in if ring hb = [] then (length states, hb)
         else let key = (if requestKey \<noteq> 0 then requestKey else fnv1a32 (lit ''default''))
              in (re_instanceIndex (ring_lookup (ring hb) key), hb))"

section \<open>The contract of a strategy\<close>

lemma healthy_indices_iff [simp]: "i \<in> set (healthy_indices states) \<longleftrightarrow> i < length states \<and> healthy (states ! i)"
  by (auto simp: healthy_indices_def)

lemma healthy_indices_empty: "healthy_indices states = [] \<longleftrightarrow> (\<forall>s \<in> set states. \<not> healthy s)"
  by (auto simp: healthy_indices_def filter_empty_conv all_set_conv_all_nth)

locale load_balancer =
  fixes pick :: "'st \<Rightarrow> instance_state list \<Rightarrow> u32 \<Rightarrow> nat \<times> 'st"
    and valid :: "'st \<Rightarrow> bool"
  assumes pick_healthy: "valid st \<Longrightarrow> healthy_indices states \<noteq> [] \<Longrightarrow>
      fst (pick st states key) \<in> set (healthy_indices states)"
    and pick_nothing: "healthy_indices states = [] \<Longrightarrow> fst (pick st states key) = length states"
    and pick_valid: "valid st \<Longrightarrow> valid (snd (pick st states key))"
begin

text \<open>The test by which the caller recognises that no instance is available.\<close>

lemma pick_range:
  assumes "valid st"
  shows "fst (pick st states key) < length states \<longleftrightarrow> healthy_indices states \<noteq> []"
  using pick_healthy [OF assms, of states key] pick_nothing [of states st key] by auto

lemma pick_sound:
  assumes "valid st" and "fst (pick st states key) < length states"
  shows "healthy (states ! fst (pick st states key))"
  using assms pick_healthy [OF assms(1), of states key] pick_range [OF assms(1), of states key]
  by simp

text \<open>Any number of picks, each over the states at its time, only ever choose healthy instances.\<close>

lemma picks_sound:
  assumes "valid st"
  shows "valid (fold (\<lambda>(states, key) st. snd (pick st states key)) qs st)"
  using assms by (induction qs arbitrary: st) (auto intro: pick_valid)

end

section \<open>Power of two choices keeps the contract\<close>

definition in_range :: "('g \<Rightarrow> nat \<Rightarrow> nat \<times> 'g) \<Rightarrow> bool" where
  "in_range draw \<longleftrightarrow> (\<forall>g n. 0 < n \<longrightarrow> fst (draw g n) < n)"

lemma p2c_pick_cases:
  assumes "in_range draw" and "healthy_indices states \<noteq> []"
  obtains a b where "a \<in> set (healthy_indices states)" "b \<in> set (healthy_indices states)"
    "fst (p2c_pick rnd draw g states key) = (if score rnd (states ! a) \<le> score rnd (states ! b) then a else b)"
proof (cases "length (healthy_indices states) = 1")
  case True
  then have "healthy_indices states ! 0 \<in> set (healthy_indices states)" by (intro nth_mem) simp
  then show ?thesis
    using that [of "healthy_indices states ! 0" "healthy_indices states ! 0"] True assms(2)
    by (simp add: p2c_pick_def Let_def)
next
  case False
  define n where "n = length (healthy_indices states)"
  define a where "a = healthy_indices states ! fst (draw g n)"
  define b where "b = healthy_indices states ! fst (draw (snd (draw g n)) n)"
  have "0 < n" using assms(2) by (simp add: n_def)
  then have "fst (draw g n) < length (healthy_indices states)"
    "fst (draw (snd (draw g n)) n) < length (healthy_indices states)"
    using assms(1) by (simp_all add: in_range_def n_def)
  then have "a \<in> set (healthy_indices states)" "b \<in> set (healthy_indices states)"
    unfolding a_def b_def by (simp_all only: nth_mem)
  moreover have "fst (p2c_pick rnd draw g states key) = (if score rnd (states ! a) \<le> score rnd (states ! b) then a else b)"
    using False assms(2) by (simp add: p2c_pick_def Let_def split_beta n_def a_def b_def)
  ultimately show ?thesis by (rule that)
qed

text \<open>The strategy over any random generator that answers within the range it is asked for.\<close>

definition p2c_with :: "rounding \<Rightarrow> ('g \<Rightarrow> nat \<Rightarrow> nat \<times> 'g) \<times> 'g \<Rightarrow> instance_state list \<Rightarrow> u32 \<Rightarrow>
    nat \<times> (('g \<Rightarrow> nat \<Rightarrow> nat \<times> 'g) \<times> 'g)" where
  "p2c_with rnd dg states key = (let (i, g) = p2c_pick rnd (fst dg) (snd dg) states key in (i, (fst dg, g)))"

interpretation p2c: load_balancer "p2c_with rnd" "\<lambda>dg. in_range (fst dg)" for rnd
proof unfold_locales
  show "fst (p2c_with rnd dg states key) \<in> set (healthy_indices states)"
    if "in_range (fst dg)" "healthy_indices states \<noteq> []" for dg states key
    by (rule p2c_pick_cases [OF that, of rnd "snd dg" key]) (simp add: p2c_with_def split_beta del: healthy_indices_iff)
qed (simp_all add: p2c_with_def p2c_pick_def split_beta)

section \<open>Smooth weighted round robin keeps the contract\<close>

lemma wrr_rounds:
  assumes "length cur = n" "k \<le> n"
  shows "\<exists>best. fold (wrr_round rnd w) [0..<k] (cur, 0) =
      (map (\<lambda>i. if i < k then rnd (cur ! i + w i) else cur ! i) [0..<n], best) \<and>
    (k = 0 \<and> best = 0 \<or> best < k) \<and> (\<forall>i<k. rnd (cur ! i + w i) \<le> rnd (cur ! best + w best))"
  using assms(2)
proof (induction k)
  case 0
  then show ?case using assms(1) by (auto intro: nth_equalityI)
next
  case (Suc k)
  then obtain best where IH: "fold (wrr_round rnd w) [0..<k] (cur, 0) =
      (map (\<lambda>i. if i < k then rnd (cur ! i + w i) else cur ! i) [0..<n], best)"
    "k = 0 \<and> best = 0 \<or> best < k" "\<forall>i<k. rnd (cur ! i + w i) \<le> rnd (cur ! best + w best)"
    by auto
  define cur' where "cur' = map (\<lambda>i. if i < Suc k then rnd (cur ! i + w i) else cur ! i) [0..<n]"
  have upd: "(map (\<lambda>i. if i < k then rnd (cur ! i + w i) else cur ! i) [0..<n])[k := rnd (cur ! k + w k)] = cur'"
    using Suc.prems by (auto intro: nth_equalityI simp: cur'_def nth_list_update)
  have "cur' ! k = rnd (cur ! k + w k)" "cur' ! best = rnd (cur ! best + w best)"
    using Suc.prems IH(2) by (auto simp: cur'_def)
  then have "fold (wrr_round rnd w) [0..<Suc k] (cur, 0) =
    (cur', if rnd (cur ! best + w best) < rnd (cur ! k + w k) then k else best)"
    using upd Suc.prems by (simp add: IH(1)) (simp add: wrr_round_def Let_def)
  moreover have "\<forall>i<Suc k. rnd (cur ! i + w i) \<le> rnd (cur ! best + w best)"
    if "\<not> rnd (cur ! best + w best) < rnd (cur ! k + w k)"
    using IH(3) that by (auto simp: less_Suc_eq)
  moreover have "\<forall>i<Suc k. rnd (cur ! i + w i) \<le> rnd (cur ! k + w k)"
    if "rnd (cur ! best + w best) < rnd (cur ! k + w k)"
    using IH(3) that by (auto simp: less_Suc_eq intro: order_trans less_imp_le)
  ultimately show ?case
    using IH(2) unfolding cur'_def by (auto simp del: upt_Suc)
qed

text \<open>The current weights a pick starts from.\<close>

definition wrr_start :: "nat \<Rightarrow> rat list \<Rightarrow> rat list" where
  "wrr_start n current = (if length current \<noteq> n then replicate n 0 else current)"

lemma wrr_pick_spec:
  fixes states :: "instance_state list"
  defines "hs \<equiv> healthy_indices states"
  defines "w \<equiv> \<lambda>i. weight (states ! (hs ! i))"
  assumes "hs \<noteq> []"
  obtains best where "best < length hs"
    "\<forall>i < length hs. rnd (wrr_start (length hs) cur ! i + w i) \<le> rnd (wrr_start (length hs) cur ! best + w best)"
    "wrr_pick rnd cur states key = (hs ! best,
      (map (\<lambda>i. rnd (wrr_start (length hs) cur ! i + w i)) [0..<length hs])
        [best := rnd (rnd (wrr_start (length hs) cur ! best + w best) - fold (\<lambda>i t. rnd (t + w i)) [0..<length hs] 0)])"
proof -
  have len: "length (wrr_start (length hs) cur) = length hs" by (simp add: wrr_start_def)
  obtain best where best: "fold (wrr_round rnd w) [0..<length hs] (wrr_start (length hs) cur, 0) =
      (map (\<lambda>i. if i < length hs then rnd (wrr_start (length hs) cur ! i + w i) else wrr_start (length hs) cur ! i)
        [0..<length hs], best)" "best < length hs"
    "\<forall>i < length hs. rnd (wrr_start (length hs) cur ! i + w i) \<le> rnd (wrr_start (length hs) cur ! best + w best)"
    using wrr_rounds [OF len order.refl, of rnd w] assms(3) by auto
  have m: "map (\<lambda>i. if i < length hs then rnd (wrr_start (length hs) cur ! i + w i) else wrr_start (length hs) cur ! i)
        [0..<length hs] = map (\<lambda>i. rnd (wrr_start (length hs) cur ! i + w i)) [0..<length hs]"
    by (rule map_cong) auto
  show ?thesis
    using that [OF best(2,3)] best(1,2) assms(3) unfolding m
    by (simp add: wrr_pick_def Let_def hs_def [symmetric] w_def [symmetric] wrr_start_def [symmetric])
qed

interpretation wrr: load_balancer "wrr_pick rnd" "\<lambda>_. True" for rnd
proof unfold_locales
  show "fst (wrr_pick rnd cur states key) \<in> set (healthy_indices states)"
    if "healthy_indices states \<noteq> []" for cur states key
    by (rule wrr_pick_spec [OF that, of rnd cur key]) (simp del: healthy_indices_iff)
qed (simp_all add: wrr_pick_def)

section \<open>Fairness of the smooth weighted round robin\<close>

text \<open>Doubles represent the integers up to 2 to the 53 exactly.\<close>

definition exact_ints :: "rounding \<Rightarrow> bool" where
  "exact_ints rnd \<longleftrightarrow> (\<forall>k :: int. \<bar>k\<bar> \<le> 2 ^ 53 \<longrightarrow> rnd (of_int k) = of_int k)"

text \<open>The instances that \<open>k\<close> picks of a balancer choose while the states stay the same.\<close>

fun wrr_run :: "rounding \<Rightarrow> nat \<Rightarrow> instance_state list \<Rightarrow> nat list \<times> rat list" where
  "wrr_run rnd 0 states = ([], [])"
| "wrr_run rnd (Suc k) states =
     (let (ps, cur) = wrr_run rnd k states; (p, cur') = wrr_pick rnd cur states 0 in (ps @ [p], cur'))"

lemma exact_fold_sum:
  assumes "exact_ints rnd" and "(\<Sum>i<n. wn i) \<le> 2 ^ 53"
  shows "fold (\<lambda>i t. rnd (t + of_nat (wn i))) [0..<n] 0 = of_nat (\<Sum>i<n. wn i)"
  using assms(2)
proof (induction n)
  case (Suc n)
  then have "fold (\<lambda>i t. rnd (t + of_nat (wn i))) [0..<Suc n] 0 = rnd (of_int (int (\<Sum>i<Suc n. wn i)))"
    by simp
  also have "\<dots> = of_int (int (\<Sum>i<Suc n. wn i))"
    using assms(1) Suc.prems unfolding exact_ints_def by (metis abs_of_nat of_nat_le_iff of_nat_numeral of_nat_power)
  finally show ?case by simp
qed simp

text \<open>
  After \<open>k\<close> picks, the current weight of the \<open>i\<close>-th healthy instance is \<open>k w\<^sub>i - W c\<^sub>i\<close>, where \<open>c\<^sub>i\<close> counts
  its picks, and above \<open>- W\<close>.
\<close>

definition wrr_inv :: "nat \<Rightarrow> (nat \<Rightarrow> nat) \<Rightarrow> nat list \<Rightarrow> nat \<Rightarrow> nat list \<Rightarrow> rat list \<Rightarrow> bool" where
  "wrr_inv W wn hs k ps cur \<longleftrightarrow>
     (\<forall>i<length hs. wrr_start (length hs) cur ! i =
        of_int (int k * int (wn i) - int W * int (count_list ps (hs ! i))) \<and>
        - int W < int k * int (wn i) - int W * int (count_list ps (hs ! i))) \<and>
     (\<Sum>i<length hs. count_list ps (hs ! i)) = k"

lemma balanced_bound:
  fixes c :: "nat \<Rightarrow> int"
  assumes "\<And>i. i < n \<Longrightarrow> - W < c i" and "(\<Sum>i<n. c i) = 0" and "i < n" and "0 \<le> W"
  shows "\<bar>c i\<bar> \<le> int n * W"
proof -
  have "(\<Sum>j<n. c j) = c i + (\<Sum>j\<in>{..<n} - {i}. c j)"
    using assms(3) by (simp add: sum.remove)
  moreover have "(\<Sum>j\<in>{..<n} - {i}. - W) \<le> (\<Sum>j\<in>{..<n} - {i}. c j)"
    using assms(1) by (intro sum_mono) (auto intro: less_imp_le)
  ultimately have "c i \<le> (int n - 1) * W"
    using assms(2,3) by (simp add: of_nat_diff algebra_simps)
  moreover have "(int n - 1) * W \<le> int n * W" "1 * W \<le> int n * W"
    using assms(3,4) by (intro mult_right_mono; simp)+
  ultimately show ?thesis using assms(1) [OF assms(3)] by linarith
qed

lemma max_above_average:
  fixes c :: "nat \<Rightarrow> int"
  assumes "\<And>i. i < n \<Longrightarrow> c i \<le> m" and "0 < (\<Sum>i<n. c i)"
  shows "0 < m"
proof (rule ccontr)
  assume "\<not> 0 < m"
  then have "(\<Sum>i<n. c i) \<le> (\<Sum>i<n. 0)" using assms(1) by (intro sum_mono) force
  with assms(2) show False by simp
qed

lemma exact_total:
  assumes "exact_ints rnd" and "\<And>i. i < n \<Longrightarrow> w i = of_nat (wn i)" and "(\<Sum>i<n. wn i) \<le> 2 ^ 53"
  shows "fold (\<lambda>i t. rnd (t + w i)) [0..<n] 0 = of_int (\<Sum>i<n. int (wn i))"
proof -
  have "fold (\<lambda>i t. rnd (t + w i)) [0..<n] 0 = fold (\<lambda>i t. rnd (t + of_nat (wn i))) [0..<n] 0"
    by (rule fold_cong) (simp_all add: assms(2))
  then show ?thesis
    using exact_fold_sum [OF assms(1,3)] by simp
qed

text \<open>With integer weights a pick computes exactly the smooth round robin over the integers.\<close>

lemma wrr_exact_pick:
  fixes states :: "instance_state list" and c :: "nat \<Rightarrow> int"
  defines "hs \<equiv> healthy_indices states"
  assumes exact: "exact_ints rnd" and ne: "hs \<noteq> []" and n: "n = length hs"
    and wn: "\<And>i. i < n \<Longrightarrow> weight (states ! (hs ! i)) = of_nat (wn i)"
    and W: "int W = (\<Sum>i<n. int (wn i))" "0 < W" "(int n + 1) * int W \<le> 2 ^ 53"
    and c: "\<And>i. i < n \<Longrightarrow> wrr_start n cur ! i = of_int (c i)" "\<And>i. i < n \<Longrightarrow> - int W < c i" "(\<Sum>i<n. c i) = 0"
  obtains best where "best < n" "0 < c best + int (wn best)"
    "wrr_pick rnd cur states 0 = (hs ! best, map (\<lambda>i. of_int (c i + int (wn i) - (if i = best then int W else 0))) [0..<n])"
proof -
  let ?w = "\<lambda>i. weight (states ! (hs ! i))"
  have small: "\<bar>c i + int (wn i)\<bar> \<le> 2 ^ 53" if "i < n" for i
  proof -
    have "int (wn i) \<le> int W" unfolding W(1) using that by (intro member_le_sum) auto
    moreover have "\<bar>c i\<bar> \<le> int n * int W" using c(2,3) that by (intro balanced_bound) auto
    ultimately show ?thesis using W(3) by (simp add: algebra_simps)
  qed
  have up: "rnd (wrr_start n cur ! i + ?w i) = of_int (c i + int (wn i))" if "i < n" for i
  proof -
    have "wrr_start n cur ! i + ?w i = of_int (c i + int (wn i))" using c(1) wn that by simp
    then show ?thesis using exact small [OF that] unfolding exact_ints_def by metis
  qed
  have "0 \<le> int n * int W" by simp
  then have "int W \<le> 2 ^ 53" using W(3) unfolding distrib_right by linarith
  then have "(\<Sum>i<n. wn i) \<le> 2 ^ 53" unfolding W(1) by (simp flip: of_nat_sum)
  then have tot: "fold (\<lambda>i t. rnd (t + ?w i)) [0..<n] 0 = of_int (int W)"
    unfolding W(1) by (intro exact_total exact wn)
  obtain best where best: "best < n" "\<forall>i<n. rnd (wrr_start n cur ! i + ?w i) \<le> rnd (wrr_start n cur ! best + ?w best)"
    "wrr_pick rnd cur states 0 = (hs ! best, (map (\<lambda>i. rnd (wrr_start n cur ! i + ?w i)) [0..<n])
      [best := rnd (rnd (wrr_start n cur ! best + ?w best) - fold (\<lambda>i t. rnd (t + ?w i)) [0..<n] 0)])"
    using wrr_pick_spec [OF ne [unfolded hs_def], of rnd cur 0] unfolding hs_def [symmetric] n [symmetric] by blast
  have pos: "0 < c best + int (wn best)"
  proof (rule max_above_average [of n "\<lambda>i. c i + int (wn i)"])
    show "c i + int (wn i) \<le> c best + int (wn best)" if "i < n" for i
      using best(1,2) that up by (metis of_int_le_iff)
    show "0 < (\<Sum>i<n. c i + int (wn i))" using c(3) W(1,2) by (simp add: sum.distrib)
  qed
  then have "\<bar>c best + int (wn best) - int W\<bar> \<le> 2 ^ 53"
    using small [OF best(1)] \<open>int W \<le> 2 ^ 53\<close> by linarith
  then have "rnd (of_int (c best + int (wn best)) - of_int (int W)) = of_int (c best + int (wn best) - int W)"
    using exact unfolding exact_ints_def by (metis of_int_diff)
  then have "wrr_pick rnd cur states 0 =
      (hs ! best, map (\<lambda>i. of_int (c i + int (wn i) - (if i = best then int W else 0))) [0..<n])"
    unfolding best(3) tot up [OF best(1)] using up by (auto intro!: nth_equalityI simp: nth_list_update)
  with best(1) pos show ?thesis by (rule that)
qed

lemma wrr_inv_step:
  fixes states :: "instance_state list"
  defines "hs \<equiv> healthy_indices states"
  assumes exact: "exact_ints rnd" and ne: "hs \<noteq> []"
    and wn: "\<And>i. i < length hs \<Longrightarrow> weight (states ! (hs ! i)) = of_nat (wn i)"
    and W: "int W = (\<Sum>i<length hs. int (wn i))" "0 < W" "(int (length hs) + 1) * int W \<le> 2 ^ 53"
    and inv: "wrr_inv W wn hs k ps cur"
  shows "wrr_inv W wn hs (Suc k) (ps @ [fst (wrr_pick rnd cur states 0)]) (snd (wrr_pick rnd cur states 0))"
proof -
  define n where "n = length hs"
  define cnt where "cnt i = count_list ps (hs ! i)" for i
  define c where "c i = int k * int (wn i) - int W * int (cnt i)" for i
  have start: "wrr_start n cur ! i = of_int (c i)" and low: "- int W < c i" if "i < n" for i
    using inv that by (simp_all add: wrr_inv_def c_def cnt_def n_def)
  have cnts: "(\<Sum>i<n. cnt i) = k"
    using inv by (simp add: wrr_inv_def cnt_def n_def)
  then have "(\<Sum>i<n. c i) = 0"
    unfolding c_def sum_subtractf sum_distrib_left [symmetric] W(1) [folded n_def, symmetric]
    by (simp flip: of_nat_sum)
  from wrr_exact_pick [OF exact ne [unfolded hs_def] n_def [unfolded hs_def] wn [folded n_def, unfolded hs_def]
      W [folded n_def] start low this]
  obtain best where best: "best < n" "0 < c best + int (wn best)"
    "wrr_pick rnd cur states 0 = (hs ! best, map (\<lambda>i. of_int (c i + int (wn i) - (if i = best then int W else 0))) [0..<n])"
    unfolding hs_def by blast
  have count: "count_list (ps @ [hs ! best]) (hs ! i) = cnt i + (if i = best then 1 else 0)" if "i < n" for i
    using that best(1) by (simp add: nth_eq_iff_index_eq hs_def healthy_indices_def n_def cnt_def)
  have eq: "int (Suc k) * int (wn i) - int W * int (cnt i + (if i = best then 1 else 0)) =
    c i + int (wn i) - (if i = best then int W else 0)" for i
    by (simp add: c_def algebra_simps)
  have "(\<Sum>i<n. count_list (ps @ [hs ! best]) (hs ! i)) = (\<Sum>i<n. cnt i + (if i = best then 1 else 0))"
    by (rule sum.cong) (simp_all only: count lessThan_iff)
  also have "\<dots> = Suc k" using best(1) cnts by (simp add: sum.distrib)
  finally have total: "(\<Sum>i<n. count_list (ps @ [hs ! best]) (hs ! i)) = Suc k" .
  have "- int W < c i + int (wn i) - (if i = best then int W else 0)" if "i < n" for i
    using low [OF that] best(2) by auto
  then have "wrr_start n (snd (wrr_pick rnd cur states 0)) ! i =
        of_int (int (Suc k) * int (wn i) - int W * int (count_list (ps @ [hs ! best]) (hs ! i))) \<and>
      - int W < int (Suc k) * int (wn i) - int W * int (count_list (ps @ [hs ! best]) (hs ! i))" if "i < n" for i
    unfolding count [OF that] eq using that best(3) by (simp add: wrr_start_def)
  with total show ?thesis
    by (simp add: wrr_inv_def n_def [symmetric] best(3) del: count_list_append of_nat_Suc of_int_diff)
qed

text \<open>The counts of a full cycle.\<close>

lemma counts_exact:
  fixes a b :: "nat \<Rightarrow> nat"
  assumes "\<And>i. i < n \<Longrightarrow> a i \<le> b i" and "(\<Sum>i<n. a i) = (\<Sum>i<n. b i)" and "i < n"
  shows "a i = b i"
proof (rule ccontr)
  assume "a i \<noteq> b i"
  then have "a i < b i" using assms(1,3) by (simp add: le_neq_implies_less)
  then have "(\<Sum>i<n. a i) < (\<Sum>i<n. b i)"
    using assms(1,3) by (intro sum_strict_mono_ex1) auto
  with assms(2) show False by simp
qed

lemma wrr_run_inv:
  fixes states :: "instance_state list"
  defines "hs \<equiv> healthy_indices states"
  assumes "exact_ints rnd" and "hs \<noteq> []"
    and "\<And>i. i < length hs \<Longrightarrow> weight (states ! (hs ! i)) = of_nat (wn i)"
    and "int W = (\<Sum>i<length hs. int (wn i))" "0 < W" "(int (length hs) + 1) * int W \<le> 2 ^ 53"
  shows "wrr_inv W wn hs k (fst (wrr_run rnd k states)) (snd (wrr_run rnd k states))"
proof (induction k)
  case 0
  then show ?case using assms by (simp add: wrr_inv_def wrr_start_def)
next
  case (Suc k)
  show ?case
    using wrr_inv_step [OF assms(2-7) [unfolded hs_def] Suc [unfolded hs_def]]
    by (simp add: split_beta Let_def hs_def)
qed

section \<open>The hash ring\<close>

lemma ring_points_filter:
  "filter (\<lambda>x. re_instanceIndex x \<noteq> j) (ring_points vn i) = (if i = j then [] else ring_points vn i)"
  by (simp add: ring_points_def filter_map o_def)

lemma ring_concat_filter:
  "filter (\<lambda>x. re_instanceIndex x \<noteq> j) (concat (map (ring_points vn) is)) =
     concat (map (ring_points vn) (filter (\<lambda>i. i \<noteq> j) is))"
  by (induction "is") (simp_all add: ring_points_filter)

lemma healthy_indices_without:
  "healthy_indices (states[j := (states ! j)\<lparr>healthy := False\<rparr>]) = filter (\<lambda>i. i \<noteq> j) (healthy_indices states)"
proof -
  have "healthy (states[j := (states ! j)\<lparr>healthy := False\<rparr>] ! i) \<longleftrightarrow> healthy (states ! i) \<and> i \<noteq> j"
    if "i < length states" for i
    using that by (cases "i = j") auto
  then show ?thesis
    unfolding healthy_indices_def filter_filter length_list_update by (intro filter_cong) auto
qed

lemma rebuild_without:
  "ring (rebuild hb (states[j := (states ! j)\<lparr>healthy := False\<rparr>])) =
     filter (\<lambda>x. re_instanceIndex x \<noteq> j) (ring (rebuild hb states))"
  by (simp add: rebuild_def healthy_indices_without ring_concat_filter filter_sort)

lemma ring_lookup_filter:
  assumes "P (ring_lookup r key)" and "r \<noteq> []"
  shows "ring_lookup (filter P r) key = ring_lookup r key"
proof (cases "dropWhile (\<lambda>x. re_hash x < key) r")
  case Nil
  then have d: "dropWhile (\<lambda>x. re_hash x < key) (filter P r) = []" by (auto simp: dropWhile_eq_Nil_conv)
  have "P (hd r)" using assms(1) unfolding ring_lookup_def Nil by simp
  then have "hd (filter P r) = hd r" using assms(2) by (cases r) simp_all
  then show ?thesis unfolding ring_lookup_def Nil d by simp
next
  case (Cons x xs)
  define ys where "ys = takeWhile (\<lambda>x. re_hash x < key) r"
  have r: "r = ys @ x # xs" using takeWhile_dropWhile_id [of "\<lambda>x. re_hash x < key" r] Cons by (simp add: ys_def)
  have ys: "\<forall>y \<in> set ys. re_hash y < key" by (auto simp: ys_def dest: set_takeWhileD)
  have x: "\<not> re_hash x < key" using Cons by (metis dropWhile_eq_Cons_conv)
  have P: "P x" using assms(1) Cons by (simp add: ring_lookup_def)
  show ?thesis
    using ys x P by (simp add: ring_lookup_def r dropWhile_append)
qed

lemma ring_lookup_mem: "r \<noteq> [] \<Longrightarrow> ring_lookup r key \<in> set r"
  by (auto simp: ring_lookup_def dest: set_dropWhileD split: list.splits)
    (metis list.set_intros(1) set_dropWhileD)

lemma hash_pick_new:
  "hash_pick (new_hash_balancer v) states key =
     (let hb = (rebuild (new_hash_balancer v) states)\<lparr>ringVersion := length states + 1\<rparr>
      in (if ring hb = [] then length states
          else re_instanceIndex (ring_lookup (ring hb) (if key \<noteq> 0 then key else fnv1a32 (lit ''default''))), hb))"
  by (simp add: hash_pick_def new_hash_balancer_def Let_def)

lemma ring_rebuild_set:
  "set (ring (rebuild hb states)) = (\<Union>i \<in> set (healthy_indices states). set (ring_points (virtualNodes hb) i))"
  by (simp add: rebuild_def del: healthy_indices_iff)

lemma hash_pick_new_healthy:
  assumes "healthy_indices states \<noteq> []"
  shows "ring (rebuild (new_hash_balancer v) states) \<noteq> []"
    "x \<in> set (ring (rebuild (new_hash_balancer v) states)) \<Longrightarrow> re_instanceIndex x \<in> set (healthy_indices states)"
    "fst (hash_pick (new_hash_balancer v) states key) \<in> set (healthy_indices states)"
proof -
  let ?r = "ring (rebuild (new_hash_balancer v) states)"
  have "ring_points (virtualNodes (new_hash_balancer v)) i \<noteq> []" for i
    by (simp add: ring_points_def new_hash_balancer_def)
  then have "set ?r \<noteq> {}" unfolding ring_rebuild_set using assms by (simp del: healthy_indices_iff)
  then show ne: "?r \<noteq> []" by simp
  show mem: "re_instanceIndex x \<in> set (healthy_indices states)" if "x \<in> set ?r" for x
    using that unfolding ring_rebuild_set ring_points_def by auto
  show "fst (hash_pick (new_hash_balancer v) states key) \<in> set (healthy_indices states)"
    using mem [OF ring_lookup_mem [OF ne]] ne by (simp add: hash_pick_new Let_def del: healthy_indices_iff)
qed

section \<open>Properties\<close>

text \<open>C20: Fairness of the weighted round robin. Let the healthy instances have integer weights of total \<open>W\<close>
  small enough for exact doubles. A new balancer has, after every number \<open>k\<close> of picks, chosen each of them less
  than \<open>k w / W + 1\<close> times, and after \<open>W\<close> picks exactly \<open>w\<close> times, \<open>w\<close> its weight.\<close>

theorem wrr_fair:
  assumes "exact_ints rnd" and "\<forall>i \<in> set (healthy_indices states). weight (states ! i) = of_nat (wn i)"
    and "W = sum_list (map wn (healthy_indices states))" and "0 < W"
    and "(length (healthy_indices states) + 1) * W \<le> 2 ^ 53" and "i \<in> set (healthy_indices states)"
  shows "count_list (fst (wrr_run rnd k states)) i * W < k * wn i + W \<and>
    count_list (fst (wrr_run rnd W states)) i = wn i"
proof -
  define hs where "hs = healthy_indices states"
  define v where "v i = wn (hs ! i)" for i
  have ne: "hs \<noteq> []" and W: "W = (\<Sum>i<length hs. v i)"
    using assms(3,4) by (auto simp: hs_def v_def sum_list_sum_nth atLeast0LessThan)
  have "int ((length hs + 1) * W) \<le> int (2 ^ 53)"
    using assms(5) unfolding hs_def of_nat_le_iff .
  then have big: "(int (length hs) + 1) * int W \<le> 2 ^ 53" by (simp add: algebra_simps)
  have inv: "wrr_inv W v hs k (fst (wrr_run rnd k states)) (snd (wrr_run rnd k states))" for k
    unfolding hs_def
  proof (rule wrr_run_inv [OF assms(1)])
    show "weight (states ! (healthy_indices states ! j)) = of_nat (v j)" if "j < length (healthy_indices states)" for j
      using assms(2) nth_mem [OF that] by (simp add: v_def hs_def del: healthy_indices_iff)
  qed (use ne W big assms(4) in \<open>simp_all add: hs_def\<close>)
  have bound: "count_list (fst (wrr_run rnd k states)) (hs ! j) * W < k * v j + W" if "j < length hs" for j k
  proof -
    have "- int W < int k * int (v j) - int W * int (count_list (fst (wrr_run rnd k states)) (hs ! j))"
      using inv [of k] that by (simp add: wrr_inv_def)
    then have "int (count_list (fst (wrr_run rnd k states)) (hs ! j) * W) < int (k * v j + W)"
      by (simp add: algebra_simps)
    then show ?thesis by (simp only: of_nat_less_iff)
  qed
  have le: "count_list (fst (wrr_run rnd W states)) (hs ! j) \<le> v j" if "j < length hs" for j
  proof -
    have "count_list (fst (wrr_run rnd W states)) (hs ! j) * W < (v j + 1) * W"
      using bound [OF that, of W] by (simp add: algebra_simps)
    then have "count_list (fst (wrr_run rnd W states)) (hs ! j) < v j + 1"
      by (rule mult_less_cancel2 [THEN iffD1, THEN conjunct2])
    then show ?thesis by simp
  qed
  have "(\<Sum>j<length hs. count_list (fst (wrr_run rnd W states)) (hs ! j)) = W"
    using inv [of W] by (simp add: wrr_inv_def)
  from counts_exact [OF le trans [OF this W]]
  have exact: "count_list (fst (wrr_run rnd W states)) (hs ! j) = v j" if "j < length hs" for j
    using that by blast
  obtain j where "j < length hs" "i = hs ! j"
    using assms(6) unfolding hs_def [symmetric] by (metis in_set_conv_nth)
  then show ?thesis using bound [of j k] exact [of j] by (simp add: v_def)
qed

theorem wrr_fair_witness:
  "let states = [\<lparr>healthy = True, inflight = 0, latencyEmaMs = 0, weight = 2\<rparr>,
                 \<lparr>healthy = False, inflight = 0, latencyEmaMs = 0, weight = 7\<rparr>,
                 \<lparr>healthy = True, inflight = 0, latencyEmaMs = 0, weight = 1\<rparr>]
   in healthy_indices states = [0, 2] \<and> count_list (fst (wrr_run id 3 states)) 0 = 2"
proof -
  let ?states = "[\<lparr>healthy = True, inflight = 0, latencyEmaMs = 0, weight = 2\<rparr>,
    \<lparr>healthy = False, inflight = 0, latencyEmaMs = 0, weight = 7\<rparr>,
    \<lparr>healthy = True, inflight = 0, latencyEmaMs = 0, weight = 1\<rparr>]"
  have hs: "healthy_indices ?states = [0, 2]" by (simp add: healthy_indices_def upt_rec)
  have "count_list (fst (wrr_run id 3 ?states)) 0 = (\<lambda>i. if i = 0 then 2 else 1) (0 :: nat)"
    by (rule conjunct2 [OF wrr_fair [of id ?states _ 3 0 0]]) (simp_all add: hs exact_ints_def)
  with hs show ?thesis by (simp add: Let_def)
qed



text \<open>A stale ring. The ring is rebuilt only when the number of states changes: after one pick over a
  single healthy instance, that instance is still chosen, whatever the key, when it is no longer healthy.\<close>

theorem hash_picks_unhealthy:
  "fst (hash_pick (snd (hash_pick (new_hash_balancer v) [s\<lparr>healthy := True\<rparr>] key)) [s\<lparr>healthy := False\<rparr>] key') = 0"
proof -
  let ?r = "ring (rebuild (new_hash_balancer v) [s\<lparr>healthy := True\<rparr>])"
  have h: "healthy_indices [s\<lparr>healthy := True\<rparr>] = [0]" by (simp add: healthy_indices_def)
  have ne: "?r \<noteq> []" and idx: "\<forall>x \<in> set ?r. re_instanceIndex x = 0"
    using hash_pick_new_healthy(1,2) [where states = "[s\<lparr>healthy := True\<rparr>]" and v = v] unfolding h by auto
  moreover have "snd (hash_pick (new_hash_balancer v) [s\<lparr>healthy := True\<rparr>] key) =
    (rebuild (new_hash_balancer v) [s\<lparr>healthy := True\<rparr>])\<lparr>ringVersion := 2\<rparr>"
    by (simp add: hash_pick_new Let_def)
  ultimately show ?thesis
    using ring_lookup_mem [OF ne] by (simp add: hash_pick_def Let_def)
qed

end
