(* ===== verification/OrderedMap.thy ===== *)
theory OrderedMap
  imports RpcPrelude
begin

text \<open>
  \<^verbatim>\<open>std::map\<close>: an association list sorted by key, so that iterating over it visits the keys in their order, as
  the registry (instances of a service, services) and the event loop (timers) do. The locale
  \<open>std_map\<close> is the interface the components rely on; it is interpreted for the sorted lists.
\<close>

type_synonym ('k, 'v) omap = "('k \<times> 'v) list"

fun omap_put :: "'k::linorder \<Rightarrow> 'v \<Rightarrow> ('k, 'v) omap \<Rightarrow> ('k, 'v) omap" where
  "omap_put k v [] = [(k, v)]"
| "omap_put k v ((k', v') # m) =
     (if k < k' then (k, v) # (k', v') # m
      else if k = k' then (k, v) # m
      else (k', v') # omap_put k v m)"

definition omap_find :: "'k \<Rightarrow> ('k, 'v) omap \<Rightarrow> 'v option" where
  "omap_find k m = map_of m k"

definition omap_erase :: "'k \<Rightarrow> ('k, 'v) omap \<Rightarrow> ('k, 'v) omap" where
  "omap_erase k m = filter (\<lambda>kv. fst kv \<noteq> k) m"

definition omap_ok :: "('k::linorder, 'v) omap \<Rightarrow> bool" where
  "omap_ok m \<longleftrightarrow> sorted_wrt (<) (map fst m)"

locale std_map =
  fixes find :: "'k::linorder \<Rightarrow> 'm \<Rightarrow> 'v option"
    and put :: "'k \<Rightarrow> 'v \<Rightarrow> 'm \<Rightarrow> 'm"
    and erase :: "'k \<Rightarrow> 'm \<Rightarrow> 'm"
    and items :: "'m \<Rightarrow> ('k \<times> 'v) list"
    and ok :: "'m \<Rightarrow> bool"
  assumes ok_put: "ok m \<Longrightarrow> ok (put k v m)"
    and ok_erase: "ok m \<Longrightarrow> ok (erase k m)"
    and find_put: "find k' (put k v m) = (if k' = k then Some v else find k' m)"
    and find_erase: "find k' (erase k m) = (if k' = k then None else find k' m)"
    and items_find: "ok m \<Longrightarrow> (k, v) \<in> set (items m) \<longleftrightarrow> find k m = Some v"
    and items_sorted: "ok m \<Longrightarrow> sorted_wrt (<) (map fst (items m))"
begin

text \<open>Iteration visits the keys that are present, each once, in increasing order.\<close>

lemma items_keys:
  assumes "ok m"
  shows "map fst (items m) = sorted_list_of_set {k. find k m \<noteq> None}"
proof -
  have "set (map fst (items m)) = {k. find k m \<noteq> None}"
    using items_find [OF assms] by force
  then show ?thesis
    using items_sorted [OF assms] by (metis sorted_list_of_set_unique strict_sorted_iff sorted_list_of_set.idem_if_sorted_distinct)
qed

lemma items_values:
  assumes "ok m"
  shows "map f (items m) = map (\<lambda>k. f (k, the (find k m))) (sorted_list_of_set {k. find k m \<noteq> None})"
proof -
  have "map f (items m) = map (\<lambda>kv. f (fst kv, the (find (fst kv) m))) (items m)"
    using items_find [OF assms] by (intro map_cong) (auto simp: prod_eq_iff)
  then show ?thesis
    unfolding items_keys [OF assms, symmetric] by (simp add: o_def)
qed

end

lemma fst_omap_put: "fst ` set (omap_put k v m) = insert k (fst ` set m)"
  by (induction k v m rule: omap_put.induct) auto

lemma omap_find_put [simp]: "omap_find k' (omap_put k v m) = (if k' = k then Some v else omap_find k' m)"
  unfolding omap_find_def by (induction k v m rule: omap_put.induct) auto

lemma omap_find_erase [simp]: "omap_find k' (omap_erase k m) = (if k' = k then None else omap_find k' m)"
  unfolding omap_find_def omap_erase_def by (induction m) auto

lemma omap_ok_put [simp, intro]: "omap_ok m \<Longrightarrow> omap_ok (omap_put k v m)"
  unfolding omap_ok_def by (induction k v m rule: omap_put.induct) (force simp: fst_omap_put)+

lemma omap_ok_filter [simp, intro]: "omap_ok m \<Longrightarrow> omap_ok (filter P m)"
  unfolding omap_ok_def by (induction m) auto

lemma omap_ok_erase [simp, intro]: "omap_ok m \<Longrightarrow> omap_ok (omap_erase k m)"
  by (simp add: omap_erase_def)

lemma omap_ok_Nil [simp]: "omap_ok []"
  by (simp add: omap_ok_def)

lemma omap_find_Nil [simp]: "omap_find k [] = None"
  by (simp add: omap_find_def)

lemma omap_mem_find: "omap_ok m \<Longrightarrow> (k, v) \<in> set m \<longleftrightarrow> omap_find k m = Some v"
  unfolding omap_find_def omap_ok_def by (simp add: map_of_eq_Some_iff strict_sorted_iff)

lemma omap_find_filter:
  assumes "omap_ok m"
  shows "omap_find k (filter P m) = (case omap_find k m of None \<Rightarrow> None | Some v \<Rightarrow> if P (k, v) then Some v else None)"
proof (cases "omap_find k (filter P m)")
  case None
  then show ?thesis
    using omap_mem_find [OF omap_ok_filter [OF assms, of P], of k] omap_mem_find [OF assms, of k]
    by (auto split: option.splits)
next
  case (Some v)
  then show ?thesis
    using omap_mem_find [OF omap_ok_filter [OF assms, of P], of k v] omap_mem_find [OF assms, of k v] by simp
qed

interpretation om: std_map omap_find omap_put omap_erase "\<lambda>m. m" omap_ok
  by unfold_locales (auto simp: omap_mem_find simp: omap_ok_def [symmetric])

end
