(* ===== verification/LocalRegistry.thy ===== *)
theory LocalRegistry
  imports OrderedMap Accounting "HOL-Library.List_Lexorder"
begin

text \<open>
  \<^verbatim>\<open>include/Registry.h\<close>, \<^verbatim>\<open>include/LocalRegistry.h\<close>, \<^verbatim>\<open>src/LocalRegistry.cpp\<close>: the in-process service registry with
  leases and one-shot watches. Every method holds the registry's mutex while it works on the state, so
  an execution is a sequence of calls; each operation returns the callbacks it invokes after unlocking, in
  order. A \<^verbatim>\<open>WatchCallback\<close> is an option of an arbitrary type: \<open>None\<close> is the empty \<^verbatim>\<open>std::function\<close>. Clock readings are
  arguments. The specification at the end of the model forgets sweeping: an instance is visible
  exactly while its lease has not expired.
\<close>

record instance_info =
  ii_service :: bytes
  ii_host :: bytes
  ii_port :: u16
  ii_instanceId :: u64

definition addr :: "instance_info \<Rightarrow> bytes" where
  "addr i = ii_host i @ lit '':'' @ dec_string (unat (ii_port i))"

record lease_entry =
  en_info :: instance_info
  en_leaseDeadline :: time
  en_leaseMs :: u32

record 'cb service_state =
  ss_instances :: "(u64, lease_entry) omap"
  ss_watchers :: "'cb option list"
  ss_version :: u64

type_synonym 'cb registry = "(bytes, 'cb service_state) omap"

definition empty_service :: "'cb service_state" where
  "empty_service = \<lparr>ss_instances = [], ss_watchers = [], ss_version = 0\<rparr>"

text \<open>\<^verbatim>\<open>services_[service]\<close>, which creates the state of an unknown service.\<close>

definition service_at :: "bytes \<Rightarrow> 'cb registry \<Rightarrow> 'cb service_state" where
  "service_at s r = (case omap_find s r of None \<Rightarrow> empty_service | Some st \<Rightarrow> st)"

definition run_callbacks :: "'cb option list \<Rightarrow> 'cb list" where
  "run_callbacks cbs = concat (map (\<lambda>cb. case cb of None \<Rightarrow> [] | Some f \<Rightarrow> [f]) cbs)"

definition registerService :: "time \<Rightarrow> instance_info \<Rightarrow> u32 \<Rightarrow> 'cb registry \<Rightarrow> 'cb list \<times> 'cb registry" where
  "registerService now info leaseMs r =
     (let lease = (if leaseMs > 0 then leaseMs else 10000);
          entry = \<lparr>en_info = info, en_leaseDeadline = now + msec (uint lease), en_leaseMs = lease\<rparr>;
          st = service_at (ii_service info) r;
          st' = st\<lparr>ss_instances := omap_put (ii_instanceId info) entry (ss_instances st),
                   ss_version := ss_version st + 1, ss_watchers := []\<rparr>
      in (run_callbacks (ss_watchers st), omap_put (ii_service info) st' r))"

definition unregister :: "bytes \<Rightarrow> u64 \<Rightarrow> 'cb registry \<Rightarrow> 'cb list \<times> 'cb registry" where
  "unregister service instanceId r =
     (case omap_find service r of
        None \<Rightarrow> ([], r)
      | Some st \<Rightarrow>
          (run_callbacks (ss_watchers st),
           omap_put service (st\<lparr>ss_instances := omap_erase instanceId (ss_instances st),
             ss_version := ss_version st + 1, ss_watchers := []\<rparr>) r))"

definition sweepExpiredLocked :: "time \<Rightarrow> 'cb service_state \<Rightarrow> 'cb option list \<times> 'cb service_state" where
  "sweepExpiredLocked now st =
     (let kept = filter (\<lambda>kv. \<not> now \<ge> en_leaseDeadline (snd kv)) (ss_instances st);
          changed = (\<exists>kv \<in> set (ss_instances st). now \<ge> en_leaseDeadline (snd kv))
      in if changed
         then (ss_watchers st, st\<lparr>ss_instances := kept, ss_version := ss_version st + 1, ss_watchers := []\<rparr>)
         else ([], st\<lparr>ss_instances := kept\<rparr>))"

definition renewLease :: "time \<Rightarrow> time \<Rightarrow> bytes \<Rightarrow> u64 \<Rightarrow> 'cb registry \<Rightarrow> 'cb list \<times> 'cb registry" where
  "renewLease now1 now2 service instanceId r =
     (case omap_find service r of
        None \<Rightarrow> ([], r)
      | Some st0 \<Rightarrow>
          let (callbacks, st) = sweepExpiredLocked now1 st0;
              st' = (case omap_find instanceId (ss_instances st) of
                       None \<Rightarrow> st
                     | Some e \<Rightarrow> st\<lparr>ss_instances := omap_put instanceId
                         (e\<lparr>en_leaseDeadline := now2 + msec (uint (en_leaseMs e))\<rparr>) (ss_instances st)\<rparr>)
          in (run_callbacks callbacks, omap_put service st' r))"

definition lookup :: "time \<Rightarrow> bytes \<Rightarrow> 'cb registry \<Rightarrow> instance_info list \<times> 'cb list \<times> 'cb registry" where
  "lookup now service r =
     (case omap_find service r of
        None \<Rightarrow> ([], [], r)
      | Some st0 \<Rightarrow>
          let (callbacks, st) = sweepExpiredLocked now st0
          in (map (\<lambda>kv. en_info (snd kv)) (ss_instances st), run_callbacks callbacks, omap_put service st r))"

definition watch :: "bytes \<Rightarrow> 'cb option \<Rightarrow> 'cb registry \<Rightarrow> 'cb registry" where
  "watch service cb r =
     (let st = service_at service r in omap_put service (st\<lparr>ss_watchers := ss_watchers st @ [cb]\<rparr>) r)"

definition instanceCount :: "bytes \<Rightarrow> 'cb registry \<Rightarrow> nat" where
  "instanceCount service r = (case omap_find service r of None \<Rightarrow> 0 | Some st \<Rightarrow> length (ss_instances st))"

text \<open>One pass of \<^verbatim>\<open>sweeperLoop\<close>; \<open>now s\<close> is the clock reading taken while sweeping service \<open>s\<close>.\<close>

definition sweep_pass :: "(bytes \<Rightarrow> time) \<Rightarrow> 'cb registry \<Rightarrow> 'cb list \<times> 'cb registry" where
  "sweep_pass now r =
     (run_callbacks (concat (map (\<lambda>(s, st). fst (sweepExpiredLocked (now s) st)) r)),
      map (\<lambda>(s, st). (s, snd (sweepExpiredLocked (now s) st))) r)"

section \<open>Executions\<close>

datatype 'cb reg_call =
    Register time instance_info u32
  | Unregister bytes u64
  | Renew time time bytes u64
  | Lookup time bytes
  | Watch bytes "'cb option"
  | SweepPass "bytes \<Rightarrow> time"

text \<open>A call: the results of a lookup, the callbacks invoked, and the new state.\<close>

fun reg_step :: "'cb reg_call \<Rightarrow> 'cb registry \<Rightarrow> instance_info list list \<times> 'cb list \<times> 'cb registry" where
  "reg_step (Register t info lease) r = ([], registerService t info lease r)"
| "reg_step (Unregister s i) r = ([], unregister s i r)"
| "reg_step (Renew t1 t2 s i) r = ([], renewLease t1 t2 s i r)"
| "reg_step (Lookup t s) r = (let (out, cbs, r') = lookup t s r in ([out], cbs, r'))"
| "reg_step (Watch s cb) r = ([], [], watch s cb r)"
| "reg_step (SweepPass f) r = ([], sweep_pass f r)"

fun reg_exec :: "'cb reg_call list \<Rightarrow> 'cb registry \<Rightarrow> instance_info list list \<times> 'cb list \<times> 'cb registry" where
  "reg_exec [] r = ([], [], r)"
| "reg_exec (c # cs) r =
     (let (out, cbs, r') = reg_step c r; (outs, cbs', r'') = reg_exec cs r' in (out @ outs, cbs @ cbs', r''))"

text \<open>The clock readings of a call lie between two moments; those of consecutive calls are in order.\<close>

fun call_within :: "time \<Rightarrow> 'cb reg_call \<Rightarrow> time \<Rightarrow> bool" where
  "call_within lo (Register t info lease) hi \<longleftrightarrow> lo \<le> t \<and> t \<le> hi"
| "call_within lo (Unregister s i) hi \<longleftrightarrow> lo \<le> hi"
| "call_within lo (Renew t1 t2 s i) hi \<longleftrightarrow> lo \<le> t1 \<and> t1 \<le> t2 \<and> t2 \<le> hi"
| "call_within lo (Lookup t s) hi \<longleftrightarrow> lo \<le> t \<and> t \<le> hi"
| "call_within lo (Watch s cb) hi \<longleftrightarrow> lo \<le> hi"
| "call_within lo (SweepPass f) hi \<longleftrightarrow> lo \<le> hi \<and> (\<forall>s. lo \<le> f s \<and> f s \<le> hi)"

fun timely :: "time \<Rightarrow> (time \<times> 'cb reg_call) list \<Rightarrow> bool" where
  "timely lo [] \<longleftrightarrow> True"
| "timely lo ((hi, c) # cs) \<longleftrightarrow> call_within lo c hi \<and> timely hi cs"

section \<open>Specification: leases without sweeping\<close>

type_synonym leases = "bytes \<Rightarrow> u64 \<Rightarrow> lease_entry option"

definition live_ids :: "time \<Rightarrow> (u64 \<Rightarrow> lease_entry option) \<Rightarrow> u64 set" where
  "live_ids now m = {i. case m i of None \<Rightarrow> False | Some e \<Rightarrow> now < en_leaseDeadline e}"

fun lease_step :: "'cb reg_call \<Rightarrow> leases \<Rightarrow> instance_info list list \<times> leases" where
  "lease_step (Register t info leaseMs) m =
     (let lease = (if leaseMs > 0 then leaseMs else 10000)
      in ([], m(ii_service info := (m (ii_service info))(ii_instanceId info \<mapsto>
           \<lparr>en_info = info, en_leaseDeadline = t + msec (uint lease), en_leaseMs = lease\<rparr>))))"
| "lease_step (Unregister s i) m = ([], m(s := (m s)(i := None)))"
| "lease_step (Renew t1 t2 s i) m =
     ([], case m s i of
            None \<Rightarrow> m
          | Some e \<Rightarrow> if t1 < en_leaseDeadline e
              then m(s := (m s)(i \<mapsto> e\<lparr>en_leaseDeadline := t2 + msec (uint (en_leaseMs e))\<rparr>)) else m)"
| "lease_step (Lookup t s) m =
     ([map (\<lambda>i. en_info (the (m s i))) (sorted_list_of_set (live_ids t (m s)))], m)"
| "lease_step (Watch s cb) m = ([], m)"
| "lease_step (SweepPass f) m = ([], m)"

fun lease_exec :: "'cb reg_call list \<Rightarrow> leases \<Rightarrow> instance_info list list \<times> leases" where
  "lease_exec [] m = ([], m)"
| "lease_exec (c # cs) m =
     (let (out, m') = lease_step c m; (outs, m'') = lease_exec cs m' in (out @ outs, m''))"

section \<open>The registry implements the leases\<close>

definition registry_ok :: "'cb registry \<Rightarrow> bool" where
  "registry_ok r \<longleftrightarrow> omap_ok r \<and> (\<forall>s st. omap_find s r = Some st \<longrightarrow> omap_ok (ss_instances st))"

definition entry_at :: "'cb registry \<Rightarrow> bytes \<Rightarrow> u64 \<Rightarrow> lease_entry option" where
  "entry_at r s i = omap_find i (ss_instances (service_at s r))"

text \<open>The registry may have dropped entries, but only those whose lease has expired.\<close>

fun covers :: "time \<Rightarrow> lease_entry option \<Rightarrow> lease_entry option \<Rightarrow> bool" where
  "covers now (Some e) x \<longleftrightarrow> x = Some e"
| "covers now None (Some e) \<longleftrightarrow> en_leaseDeadline e \<le> now"
| "covers now None None \<longleftrightarrow> True"

definition implements :: "time \<Rightarrow> 'cb registry \<Rightarrow> leases \<Rightarrow> bool" where
  "implements now r m \<longleftrightarrow> registry_ok r \<and> (\<forall>s i. covers now (entry_at r s i) (m s i))"

definition alive :: "time \<Rightarrow> lease_entry option \<Rightarrow> lease_entry option" where
  "alive now x = (case x of None \<Rightarrow> None | Some e \<Rightarrow> if now < en_leaseDeadline e then Some e else None)"

lemma covers_later: "covers t x y \<Longrightarrow> t \<le> t' \<Longrightarrow> covers t' x y"
  by (cases x; cases y) auto

lemma covers_alive: "covers t x y \<Longrightarrow> t \<le> now \<Longrightarrow> alive now x = alive now y"
  by (cases x; cases y) (auto simp: alive_def)

lemma covers_swept: "covers t x y \<Longrightarrow> t \<le> now \<Longrightarrow> covers now (alive now x) y"
  by (cases x; cases y) (auto simp: alive_def)

lemma covers_refl [simp]: "covers t x x"
  by (cases x) auto

lemma registry_ok_service:
  "registry_ok r \<Longrightarrow> omap_ok r" "registry_ok r \<Longrightarrow> omap_ok (ss_instances (service_at s r))"
  by (simp_all add: registry_ok_def service_at_def empty_service_def split: option.splits)

lemma registry_ok_put:
  assumes "registry_ok r" and "omap_ok (ss_instances st)"
  shows "registry_ok (omap_put s st r)"
  using assms by (simp add: registry_ok_def)

lemma service_at_put: "service_at s' (omap_put s st r) = (if s' = s then st else service_at s' r)"
  by (simp add: service_at_def)

lemma entry_at_put:
  "entry_at (omap_put s st r) s' i = (if s' = s then omap_find i (ss_instances st) else entry_at r s' i)"
  by (simp add: entry_at_def service_at_put)

lemma sweep_instances:
  "ss_instances (snd (sweepExpiredLocked now st)) =
     filter (\<lambda>kv. now < en_leaseDeadline (snd kv)) (ss_instances st)"
  by (simp add: sweepExpiredLocked_def Let_def not_le)

lemma sweep_ok: "omap_ok (ss_instances st) \<Longrightarrow> omap_ok (ss_instances (snd (sweepExpiredLocked now st)))"
  by (simp add: sweep_instances)

lemma sweep_empty [simp]: "ss_instances (snd (sweepExpiredLocked now empty_service)) = []"
  by (simp add: sweep_instances empty_service_def)

lemma sweep_find:
  assumes "omap_ok (ss_instances st)"
  shows "omap_find i (ss_instances (snd (sweepExpiredLocked now st))) = alive now (omap_find i (ss_instances st))"
  by (simp add: sweep_instances omap_find_filter [OF assms] alive_def split: option.splits)

lemma implements_later: "implements t r m \<Longrightarrow> t \<le> t' \<Longrightarrow> implements t' r m"
  unfolding implements_def by (blast intro: covers_later)

lemma implements_update:
  assumes "implements t r m" and "omap_ok (ss_instances st)"
    and "\<And>i. covers t (omap_find i (ss_instances st)) (f i)"
  shows "implements t (omap_put s st r) (m(s := f))"
  using assms by (simp add: implements_def registry_ok_put entry_at_put)

lemma implements_at:
  assumes "implements t r m"
  shows "covers t (omap_find i (ss_instances (service_at s r))) (m s i)"
    and "omap_ok (ss_instances (service_at s r))"
  using assms registry_ok_service(2) by (auto simp: implements_def entry_at_def)

text \<open>After sweeping at \<open>now\<close>, exactly the live instances of the service remain.\<close>

lemma swept_exact:
  assumes "implements t r m" and "t \<le> now"
  shows "omap_find i (ss_instances (snd (sweepExpiredLocked now (service_at s r)))) = alive now (m s i)"
  using covers_alive [OF implements_at(1) [OF assms(1)] assms(2)] sweep_find [OF implements_at(2) [OF assms(1)]] by simp

lemma known_service: "omap_find s r = Some st \<Longrightarrow> service_at s r = st"
  by (simp add: service_at_def)

lemma unknown_service: "omap_find s r = None \<Longrightarrow> service_at s r = empty_service"
  by (simp add: service_at_def)

lemma empty_service_find [simp]: "omap_find i (ss_instances empty_service) = None"
  by (simp add: empty_service_def omap_find_def)

lemma live_ids_alive: "live_ids now f = {i. alive now (f i) \<noteq> None}"
  by (auto simp: live_ids_def alive_def split: option.splits if_splits)

lemma lookup_live:
  assumes "implements t r m" and "t \<le> now"
  shows "fst (lookup now s r) = map (\<lambda>i. en_info (the (m s i))) (sorted_list_of_set (live_ids now (m s)))"
proof -
  let ?m = "ss_instances (snd (sweepExpiredLocked now (service_at s r)))"
  have ids: "{i. omap_find i ?m \<noteq> None} = live_ids now (m s)"
    by (simp add: swept_exact [OF assms] live_ids_alive)
  have ok: "omap_ok ?m"
    using implements_at(2) [OF assms(1)] by (simp add: sweep_instances)
  have "fst (lookup now s r) = map (\<lambda>kv. en_info (snd kv)) ?m"
    by (cases "omap_find s r")
      (simp_all add: lookup_def known_service unknown_service split_beta sweep_instances empty_service_def)
  also have "\<dots> = map (\<lambda>i. en_info (the (omap_find i ?m))) (sorted_list_of_set (live_ids now (m s)))"
    using om.items_values [OF ok, of "\<lambda>kv. en_info (snd kv)"] by (simp only: ids snd_conv)
  also have "\<dots> = map (\<lambda>i. en_info (the (m s i))) (sorted_list_of_set (live_ids now (m s)))"
    by (rule map_cong) (auto simp: swept_exact [OF assms] live_ids_alive alive_def split: option.splits if_splits)
  finally show ?thesis .
qed

lemma implements_swept:
  assumes "implements t r m" and "t \<le> now"
  shows "implements now (omap_put s (snd (sweepExpiredLocked now (service_at s r))) r) m"
proof -
  have "covers now (alive now (m s i)) (m s i)" for i
    by (rule covers_swept [OF covers_refl order.refl])
  then have "implements now (omap_put s (snd (sweepExpiredLocked now (service_at s r))) r) (m(s := m s))"
    using implements_later [OF assms] implements_at(2) [OF assms(1)]
    by (intro implements_update) (simp_all add: swept_exact [OF assms] sweep_ok)
  then show ?thesis by simp
qed

lemma implements_register:
  assumes "implements t r m"
  shows "implements t (snd (registerService now info lease r)) (snd (lease_step (Register now info lease) m))"
  unfolding registerService_def lease_step.simps Let_def snd_conv
  by (rule implements_update [OF assms]) (use implements_at [OF assms] in auto)

lemma implements_unregister:
  assumes "implements t r m"
  shows "implements t (snd (unregister s i r)) (snd (lease_step (Unregister s i) m))"
proof (cases "omap_find s r")
  case None
  have "covers t (entry_at r s' j) ((m(s := (m s)(i := None))) s' j)" for s' j
    using implements_at(1) [OF assms, of j s'] unknown_service [OF None] by (auto simp: entry_at_def)
  then show ?thesis using assms None by (simp add: implements_def unregister_def)
next
  case (Some st)
  have "implements t (omap_put s (st\<lparr>ss_instances := omap_erase i (ss_instances st), ss_version := ss_version st + 1,
      ss_watchers := []\<rparr>) r) (m(s := (m s)(i := None)))"
    using implements_at [OF assms, where s = s] known_service [OF Some]
    by (intro implements_update [OF assms]) auto
  then show ?thesis by (simp add: unregister_def Some)
qed

lemma implements_renew:
  assumes impl: "implements lo r m" and t: "lo \<le> t1"
  shows "implements t1 (snd (renewLease t1 t2 s i r)) (snd (lease_step (Renew t1 t2 s i) m))"
proof (cases "omap_find s r")
  case None
  have "covers lo None (m s i)"
    using implements_at(1) [OF impl, of i s] by (simp add: unknown_service [OF None])
  then have "snd (lease_step (Renew t1 t2 s i) m) = m"
    using t by (cases "m s i") auto
  then show ?thesis using implements_later [OF impl t] None by (simp add: renewLease_def)
next
  case (Some st0)
  define st where "st = snd (sweepExpiredLocked t1 st0)"
  have find: "omap_find j (ss_instances st) = alive t1 (m s j)" for j
    using swept_exact [OF impl t, of j s] known_service [OF Some] by (simp add: st_def)
  have swept: "implements t1 (omap_put s st r) m"
    using implements_swept [OF impl t, of s] by (simp add: st_def known_service [OF Some])
  show ?thesis
  proof (cases "alive t1 (m s i)")
    case None
    then have "snd (lease_step (Renew t1 t2 s i) m) = m" by (auto simp: alive_def split: option.splits if_splits)
    then show ?thesis
      using swept None find by (simp add: renewLease_def Some split_beta Let_def st_def [symmetric])
  next
    case e: (Some e)
    let ?e = "e\<lparr>en_leaseDeadline := t2 + msec (uint (en_leaseMs e))\<rparr>"
    have m: "snd (lease_step (Renew t1 t2 s i) m) = m(s := (m s)(i \<mapsto> ?e))"
      using e by (auto simp: alive_def split: option.splits if_splits)
    have ok: "omap_ok (ss_instances st)"
      using implements_at(2) [OF impl, of s] by (simp add: st_def known_service [OF Some] sweep_instances)
    have "implements t1 (omap_put s (st\<lparr>ss_instances := omap_put i ?e (ss_instances st)\<rparr>) r) (m(s := (m s)(i \<mapsto> ?e)))"
      by (rule implements_update [OF implements_later [OF impl t]])
        (use ok find covers_swept [OF covers_refl order.refl] in auto)
    then show ?thesis
      using e find by (simp add: m renewLease_def Some split_beta Let_def st_def [symmetric] del: lease_step.simps)
  qed
qed

lemma omap_find_map: "omap_find s (map (\<lambda>(s, st). (s, f s st)) r) = map_option (f s) (omap_find s r)"
  unfolding omap_find_def by (induction r) auto

lemma omap_ok_map: "omap_ok r \<Longrightarrow> omap_ok (map (\<lambda>(s, st). (s, f s st)) r)"
  by (simp add: omap_ok_def o_def split_beta)

lemma implements_sweep_pass:
  assumes "implements lo r m" and "\<And>s. lo \<le> f s" and "\<And>s. f s \<le> hi"
  shows "implements hi (snd (sweep_pass f r)) m"
proof -
  have at: "omap_find j (ss_instances (service_at s (snd (sweep_pass f r)))) = alive (f s) (m s j)" for s j
    using swept_exact [OF assms(1) assms(2) [of s], of j s]
    by (cases "omap_find s r") (simp_all add: sweep_pass_def service_at_def omap_find_map)
  have "covers hi (alive (f s) (m s j)) (m s j)" for s j
    using covers_later [OF covers_swept [OF covers_refl order.refl] assms(3)] .
  moreover have "registry_ok (snd (sweep_pass f r))"
    using assms(1) unfolding implements_def registry_ok_def sweep_pass_def snd_conv omap_find_map
    by (auto intro: sweep_ok omap_ok_map)
  ultimately show ?thesis by (simp add: implements_def entry_at_def at)
qed

lemma reg_step_implements:
  assumes "implements lo r m" and "call_within lo c hi"
  shows "fst (reg_step c r) = fst (lease_step c m) \<and> implements hi (snd (snd (reg_step c r))) (snd (lease_step c m))"
proof (cases c)
  case (Register t info lease)
  then have "implements hi (snd (registerService t info lease r)) (snd (lease_step (Register t info lease) m))"
    using assms(2) by (intro implements_later [OF implements_register [OF assms(1)]]) auto
  with Register show ?thesis by (simp add: Let_def)
next
  case (Unregister s i)
  then show ?thesis
    using assms(2) implements_unregister [OF assms(1)] by (auto intro: implements_later)
next
  case (Renew t1 t2 s i)
  then have "implements hi (snd (renewLease t1 t2 s i r)) (snd (lease_step (Renew t1 t2 s i) m))"
    using assms(2) by (intro implements_later [OF implements_renew [OF assms(1)]]) auto
  with Renew show ?thesis by simp
next
  case (Lookup t s)
  then have t: "lo \<le> t" "t \<le> hi" using assms(2) by auto
  have "implements t (snd (snd (lookup t s r))) m"
    using implements_swept [OF assms(1) t(1), of s] implements_later [OF assms(1) t(1)]
    by (cases "omap_find s r") (simp_all add: lookup_def known_service split_beta)
  then show ?thesis
    using Lookup lookup_live [OF assms(1) t(1), of s] implements_later t(2) by (simp add: split_beta)
next
  case (Watch s cb)
  have "implements lo (watch s cb r) (m(s := m s))"
    unfolding watch_def Let_def by (rule implements_update [OF assms(1)]) (use implements_at [OF assms(1)] in auto)
  with Watch assms(2) show ?thesis by (auto intro: implements_later)
next
  case (SweepPass f)
  then show ?thesis using assms(2) by (auto intro: implements_sweep_pass [OF assms(1)])
qed

lemma reg_exec_implements:
  "implements lo r m \<Longrightarrow> timely lo tcs \<Longrightarrow>
    fst (reg_exec (map snd tcs) r) = fst (lease_exec (map snd tcs) m)"
proof (induction tcs arbitrary: lo r m)
  case (Cons tc tcs)
  obtain hi c where tc: "tc = (hi, c)" by (cases tc)
  from Cons.prems tc have w: "call_within lo c hi" "timely hi tcs" by simp_all
  from reg_step_implements [OF Cons.prems(1) w(1)] Cons.IH [OF _ w(2)]
  show ?case by (simp add: tc split_beta Let_def)
qed simp

section \<open>Watches\<close>

definition pending :: "'cb registry \<Rightarrow> 'cb multiset" where
  "pending r = sum_list (map (\<lambda>(s, st). mset (run_callbacks (ss_watchers st))) r)"

fun subscribed :: "'cb reg_call \<Rightarrow> 'cb multiset" where
  "subscribed (Watch s (Some cb)) = {#cb#}"
| "subscribed c = {#}"

lemma run_callbacks_simps [simp]:
  "run_callbacks [] = []" "run_callbacks (xs @ ys) = run_callbacks xs @ run_callbacks ys"
  "run_callbacks [Some cb] = [cb]" "run_callbacks [None] = []"
  by (simp_all add: run_callbacks_def)

lemma pending_put:
  assumes "omap_ok r"
  shows "pending (omap_put s st r) + mset (run_callbacks (ss_watchers (service_at s r))) =
    pending r + mset (run_callbacks (ss_watchers st))"
  using assms
proof (induction s st r rule: omap_put.induct)
  case (1 k v)
  then show ?case by (simp add: pending_def service_at_def empty_service_def)
next
  case (2 k v k' v' m)
  have "omap_find k m = None" if "k < k'"
    using 2(2) that by (auto simp: omap_ok_def omap_find_def map_of_eq_None_iff)
  moreover have "omap_ok m" using 2(2) by (simp add: omap_ok_def)
  ultimately show ?case
    using 2(1) by (auto simp: pending_def service_at_def omap_find_def empty_service_def ac_simps)
qed

lemma sweep_watchers:
  "mset (run_callbacks (fst (sweepExpiredLocked now st))) +
     mset (run_callbacks (ss_watchers (snd (sweepExpiredLocked now st)))) = mset (run_callbacks (ss_watchers st))"
  by (simp add: sweepExpiredLocked_def Let_def)

lemma pending_sweep_pass: "mset (fst (sweep_pass f r)) + pending (snd (sweep_pass f r)) = pending r"
proof (induction r)
  case (Cons x r)
  then show ?case
    using sweep_watchers [of "f (fst x)" "snd x"]
    by (cases x) (simp add: sweep_pass_def pending_def ac_simps union_assoc [symmetric])
qed (simp add: sweep_pass_def pending_def)

lemma registry_ok_step:
  assumes "registry_ok r"
  shows "registry_ok (snd (snd (reg_step c r)))"
proof (cases c)
  case (Register t info lease)
  then show ?thesis
    using assms registry_ok_service(2) [OF assms]
    by (auto simp: registerService_def Let_def intro!: registry_ok_put)
next
  case (Unregister s i)
  then show ?thesis
    using assms registry_ok_service(2) [OF assms, of s]
    by (auto simp: unregister_def known_service intro!: registry_ok_put split: option.splits)
next
  case (Renew t1 t2 s i)
  then show ?thesis
    using assms sweep_ok [OF registry_ok_service(2) [OF assms, of s], of t1]
    by (auto simp: renewLease_def Let_def split_beta known_service intro!: registry_ok_put split: option.splits)
next
  case (Lookup t s)
  then show ?thesis
    using assms sweep_ok [OF registry_ok_service(2) [OF assms, of s], of t]
    by (auto simp: lookup_def split_beta known_service intro!: registry_ok_put split: option.splits)
next
  case (Watch s cb)
  then show ?thesis
    using assms registry_ok_service(2) [OF assms] by (auto simp: watch_def Let_def intro!: registry_ok_put)
next
  case (SweepPass f)
  then show ?thesis
    using assms unfolding registry_ok_def by (auto simp: sweep_pass_def omap_find_map intro: omap_ok_map sweep_ok)
qed

lemma renew_watchers:
  "ss_watchers (case omap_find i (ss_instances st) of None \<Rightarrow> st
     | Some e \<Rightarrow> st\<lparr>ss_instances := f e\<rparr>) = ss_watchers st"
  by (simp split: option.splits)

lemma reg_step_pending:
  assumes "registry_ok r"
  shows "mset (fst (snd (reg_step c r))) + pending (snd (snd (reg_step c r))) = pending r + subscribed c"
proof -
  note put = pending_put [OF registry_ok_service(1) [OF assms]]
  have fired: "mset (run_callbacks (ss_watchers (service_at s r))) + pending (omap_put s st' r) = pending r"
    if "ss_watchers st' = []" for s st'
    using put [of s st'] that by (simp add: add.commute)
  have swept: "mset (run_callbacks (fst (sweepExpiredLocked t st))) + pending (omap_put s st' r) = pending r"
    if "omap_find s r = Some st" "ss_watchers st' = ss_watchers (snd (sweepExpiredLocked t st))" for t s st st'
  proof -
    let ?p = "mset (run_callbacks (ss_watchers (snd (sweepExpiredLocked t st))))"
    have "mset (run_callbacks (fst (sweepExpiredLocked t st))) + pending (omap_put s st' r) + ?p = pending r + ?p"
      using put [of s st'] sweep_watchers [of t st] that by (simp add: known_service ac_simps)
    then show ?thesis by (simp only: add_right_cancel)
  qed
  show ?thesis
  proof (cases c)
    case (Register t info lease)
    then show ?thesis
      by (simp add: registerService_def Let_def fired)
  next
    case (Unregister s i)
    then show ?thesis
      using fired [of _ s] by (auto simp: unregister_def service_at_def split: option.splits)
  next
    case (Renew t1 t2 s i)
    then show ?thesis
      using swept by (auto simp: renewLease_def Let_def split_beta renew_watchers split: option.split)
  next
    case (Lookup t s)
    then show ?thesis using swept by (auto simp: lookup_def split_beta split: option.split)
  next
    case (Watch s cb)
    then show ?thesis
      using put [of s "(service_at s r)\<lparr>ss_watchers := ss_watchers (service_at s r) @ [cb]\<rparr>"]
      by (cases cb) (simp_all add: watch_def Let_def ac_simps)
  next
    case (SweepPass f)
    then show ?thesis by (simp add: pending_sweep_pass)
  qed
qed

text \<open>Every subscription is an obligation that an operation settles by invoking the callback.\<close>

definition reg_effects :: "'cb reg_call \<Rightarrow> 'cb registry \<Rightarrow> 'cb registry \<times> 'cb list" where
  "reg_effects c r = (snd (snd (reg_step c r)), fst (snd (reg_step c r)))"

interpretation watches: accounting reg_effects registry_ok pending "\<lambda>cb. {#cb#}" subscribed
  by unfold_locales (simp_all add: reg_effects_def registry_ok_step reg_step_pending settled_single)

lemma reg_exec_run:
  "run_ops reg_effects cs r = (snd (snd (reg_exec cs r)), fst (snd (reg_exec cs r)))"
  by (induction cs arbitrary: r) (simp_all add: reg_effects_def split_beta Let_def)

text \<open>A sweep that removes an instance takes the watchers of the service with it.\<close>

lemma sweep_removed:
  assumes "omap_ok (ss_instances st)" and "omap_find i (ss_instances (snd (sweepExpiredLocked now st))) = None"
    and "omap_find i (ss_instances st) \<noteq> None"
  shows "fst (sweepExpiredLocked now st) = ss_watchers st" "ss_watchers (snd (sweepExpiredLocked now st)) = []"
proof -
  obtain e where e: "omap_find i (ss_instances st) = Some e" using assms(3) by blast
  with assms(2) have "en_leaseDeadline e \<le> now"
    by (auto simp: sweep_find [OF assms(1)] alive_def split: if_splits)
  moreover have "(i, e) \<in> set (ss_instances st)" using e omap_mem_find [OF assms(1)] by blast
  ultimately have "\<exists>kv \<in> set (ss_instances st). en_leaseDeadline (snd kv) \<le> now" by force
  then show "fst (sweepExpiredLocked now st) = ss_watchers st" "ss_watchers (snd (sweepExpiredLocked now st)) = []"
    by (simp_all add: sweepExpiredLocked_def Let_def)
qed

lemma sweep_keeps_absent:
  "omap_ok (ss_instances st) \<Longrightarrow> omap_find i (ss_instances st) = None \<Longrightarrow>
    omap_find i (ss_instances (snd (sweepExpiredLocked now st))) = None"
  by (simp add: sweep_find alive_def)

definition notified :: "'cb reg_call \<Rightarrow> 'cb registry \<Rightarrow> bytes \<Rightarrow> bool" where
  "notified c r s \<longleftrightarrow>
     set (run_callbacks (ss_watchers (service_at s r))) \<subseteq> set (fst (snd (reg_step c r))) \<and>
     ss_watchers (service_at s (snd (snd (reg_step c r)))) = []"

definition membership_changed :: "'cb registry \<Rightarrow> 'cb registry \<Rightarrow> bytes \<Rightarrow> u64 \<Rightarrow> bool" where
  "membership_changed r r' s i \<longleftrightarrow> (entry_at r s i = None) \<noteq> (entry_at r' s i = None)"

lemma swept_notified:
  assumes "omap_ok (ss_instances st)" and "omap_find s0 r = Some st"
    and "ss_watchers st' = ss_watchers (snd (sweepExpiredLocked t st))"
    and "\<And>i. omap_find i (ss_instances st') = None \<longleftrightarrow> omap_find i (ss_instances (snd (sweepExpiredLocked t st))) = None"
    and "reg_step c r = (out, run_callbacks (fst (sweepExpiredLocked t st)), omap_put s0 st' r)"
    and "membership_changed r (omap_put s0 st' r) s i"
  shows "notified c r s"
proof -
  have s: "s = s0" using assms(6) by (cases "s = s0") (simp_all add: membership_changed_def entry_at_put)
  have at: "service_at s0 r = st" using assms(2) by (rule known_service)
  have gone: "omap_find i (ss_instances st) \<noteq> None" "omap_find i (ss_instances (snd (sweepExpiredLocked t st))) = None"
    using assms(4) [of i] assms(6) sweep_keeps_absent [OF assms(1), of i t]
    by (auto simp: membership_changed_def entry_at_def service_at_put s at)
  show ?thesis
    using sweep_removed [OF assms(1) gone(2,1)] by (simp add: notified_def assms(3,5) s at service_at_put)
qed

lemma renew_membership:
  "omap_find j (ss_instances (case omap_find i (ss_instances st) of None \<Rightarrow> st
     | Some e \<Rightarrow> st\<lparr>ss_instances := omap_put i (f e) (ss_instances st)\<rparr>)) = None \<longleftrightarrow>
   omap_find j (ss_instances st) = None"
  by (simp split: option.splits)

lemma renew_notifies:
  assumes "registry_ok r" and "membership_changed r (snd (snd (reg_step c r))) s i" and "c = Renew t1 t2 s' j"
  shows "notified c r s"
proof -
  obtain st where st: "omap_find s' r = Some st"
    using assms(2,3) by (cases "omap_find s' r") (simp_all add: renewLease_def membership_changed_def)
  then have ok: "omap_ok (ss_instances st)" using registry_ok_service(2) [OF assms(1), of s'] by (simp add: known_service)
  have step: "reg_step c r = ([], run_callbacks (fst (sweepExpiredLocked t1 st)), omap_put s'
    (case omap_find j (ss_instances (snd (sweepExpiredLocked t1 st))) of
       None \<Rightarrow> snd (sweepExpiredLocked t1 st)
     | Some e \<Rightarrow> (snd (sweepExpiredLocked t1 st))\<lparr>ss_instances := omap_put j
         (e\<lparr>en_leaseDeadline := t2 + msec (uint (en_leaseMs e))\<rparr>) (ss_instances (snd (sweepExpiredLocked t1 st)))\<rparr>) r)"
    using assms(3) st by (simp add: renewLease_def split_beta Let_def)
  show ?thesis
    by (rule swept_notified [OF ok st renew_watchers renew_membership step]) (use assms(2) step in simp)
qed

lemma lookup_notifies:
  assumes "registry_ok r" and "membership_changed r (snd (snd (reg_step c r))) s i" and "c = Lookup t s'"
  shows "notified c r s"
proof -
  obtain st where st: "omap_find s' r = Some st"
    using assms(2,3) by (cases "omap_find s' r") (simp_all add: lookup_def membership_changed_def)
  then have ok: "omap_ok (ss_instances st)" using registry_ok_service(2) [OF assms(1), of s'] by (simp add: known_service)
  have step: "reg_step c r = ([map (\<lambda>kv. en_info (snd kv)) (ss_instances (snd (sweepExpiredLocked t st)))],
    run_callbacks (fst (sweepExpiredLocked t st)), omap_put s' (snd (sweepExpiredLocked t st)) r)"
    using assms(3) st by (simp add: lookup_def split_beta)
  show ?thesis
    by (rule swept_notified [OF ok st _ _ step]) (use assms(2) step in simp_all)
qed

lemma sweep_notifies:
  assumes "registry_ok r" and "membership_changed r (snd (snd (reg_step c r))) s i" and "c = SweepPass f"
  shows "notified c r s"
proof (cases "omap_find s r")
  case None
  then show ?thesis
    using assms(2) assms(3)
    by (simp add: membership_changed_def entry_at_def service_at_def sweep_pass_def omap_find_map)
next
  case (Some st)
  have ok: "omap_ok (ss_instances st)" using registry_ok_service(2) [OF assms(1), of s] by (simp add: known_service [OF Some])
  have at: "service_at s (snd (sweep_pass f r)) = snd (sweepExpiredLocked (f s) st)"
    using Some by (simp add: service_at_def sweep_pass_def omap_find_map)
  have "omap_find i (ss_instances st) \<noteq> None" "omap_find i (ss_instances (snd (sweepExpiredLocked (f s) st))) = None"
    using assms(2) assms(3) sweep_keeps_absent [OF ok, of i "f s"]
    by (auto simp: membership_changed_def entry_at_def at known_service [OF Some])
  note removed = sweep_removed [OF ok this(2,1)]
  have "(s, st) \<in> set r" using Some omap_mem_find [OF registry_ok_service(1) [OF assms(1)]] by blast
  then have "set (run_callbacks (ss_watchers st)) \<subseteq> set (fst (sweep_pass f r))"
    unfolding removed(1) [symmetric] by (force simp: sweep_pass_def run_callbacks_def)
  then show ?thesis using assms(3) by (simp add: notified_def at removed(2) known_service [OF Some])
qed

section \<open>Properties\<close>

text \<open>C8: Leases. For every sequence of calls with a monotone clock, whenever and however often the lazy and
  the background sweeps run, every lookup answers exactly the instances of the service that were registered
  and not removed and whose lease, as last renewed while still valid, has not expired, in the order of
  their ids.\<close>

theorem registry_lookup_refines:
  assumes "timely t0 tcs"
  shows "fst (reg_exec (map snd tcs) []) = fst (lease_exec (map snd tcs) (\<lambda>_ _. None))"
proof (rule reg_exec_implements [OF _ assms])
  show "implements t0 [] (\<lambda>_ _. None)"
    by (simp add: implements_def registry_ok_def entry_at_def service_at_def)
qed

theorem registry_lookup_refines_witness:
  "let info = \<lparr>ii_service = [], ii_host = [], ii_port = 80, ii_instanceId = 7\<rparr>;
       tcs = [(0, Register 0 info 100), (msec 50, Lookup (msec 50) []), (msec 90, Renew (msec 90) (msec 90) [] 7),
              (msec 150, SweepPass (\<lambda>_. msec 150)), (msec 160, Lookup (msec 160) []), (msec 190, Lookup (msec 190) [])] :: (time \<times> nat reg_call) list
   in timely 0 tcs \<and> fst (reg_exec (map snd tcs) []) = [[info], [info], []]"
proof -
  let ?info = "\<lparr>ii_service = [], ii_host = [], ii_port = 80, ii_instanceId = 7\<rparr>"
  let ?tcs = "[(0, Register 0 ?info 100), (msec 50, Lookup (msec 50) []), (msec 90, Renew (msec 90) (msec 90) [] 7),
    (msec 150, SweepPass (\<lambda>_. msec 150)), (msec 160, Lookup (msec 160) []), (msec 190, Lookup (msec 190) [])] :: (time \<times> nat reg_call) list"
  have t: "timely 0 ?tcs" by (simp add: msec_def)
  have "live_ids t ((\<lambda>_. None)(7 \<mapsto> e)) = (if t < en_leaseDeadline e then {7} else {})" for t e
    by (auto simp: live_ids_def split: if_splits)
  then have "fst (lease_exec (map snd ?tcs) (\<lambda>_ _. None)) = [[?info], [?info], []]"
    by (simp add: msec_def Let_def)
  with t registry_lookup_refines [OF t] show ?thesis by (simp only: Let_def)
qed

text \<open>C32: One-shot watches. Along every sequence of calls from an empty registry, the callbacks invoked together
  with those still pending are exactly the subscriptions made: no subscription is lost and none is
  invoked twice.\<close>

theorem registry_watch_once:
  "mset (fst (snd (reg_exec cs []))) + pending (snd (snd (reg_exec cs []))) = sum_list (map subscribed cs)"
  using watches.run_balance [of "[]" cs]
  by (simp add: reg_exec_run settled_single registry_ok_def pending_def)

text \<open>C33: Notification. In every reachable registry, a call that adds an instance to a service or removes one, by
  name or because its lease expired, invokes every callback that watches the service and leaves none
  pending on it.\<close>

theorem registry_change_notifies:
  assumes "registry_ok r" and "membership_changed r (snd (snd (reg_step c r))) s i"
  shows "notified c r s"
proof (cases c)
  case (Register t info lease)
  then have "s = ii_service info"
    using assms(2) by (cases "s = ii_service info")
      (simp_all add: registerService_def Let_def membership_changed_def entry_at_put)
  with Register show ?thesis by (simp add: notified_def registerService_def Let_def service_at_put)
next
  case (Unregister s' j)
  then obtain st where st: "omap_find s' r = Some st" and s: "s = s'"
    using assms(2) by (cases "omap_find s' r"; cases "s = s'")
      (simp_all add: unregister_def membership_changed_def entry_at_put)
  with Unregister show ?thesis by (simp add: notified_def unregister_def service_at_put known_service)
next
  case (Renew t1 t2 s' j)
  then show ?thesis using renew_notifies [OF assms] by blast
next
  case (Lookup t s')
  then show ?thesis using lookup_notifies [OF assms] by blast
next
  case (Watch s' cb)
  then show ?thesis using assms(2) by (auto simp: watch_def Let_def membership_changed_def entry_at_def service_at_put split: if_splits)
next
  case (SweepPass f)
  then show ?thesis using sweep_notifies [OF assms] by blast
qed

theorem registry_change_notifies_witness:
  "let info = \<lparr>ii_service = [], ii_host = [], ii_port = 80, ii_instanceId = 7\<rparr>; r = watch [] (Some (5 :: nat)) []
   in registry_ok r \<and> membership_changed r (snd (snd (reg_step (Register 0 info 100) r))) [] 7 \<and>
      notified (Register 0 info 100) r []"
proof -
  let ?info = "\<lparr>ii_service = [], ii_host = [], ii_port = 80, ii_instanceId = 7\<rparr>"
  let ?r = "watch [] (Some (5 :: nat)) []"
  have ok: "registry_ok ?r"
    by (simp add: registry_ok_def watch_def service_at_def empty_service_def omap_find_def omap_ok_def)
  have ch: "membership_changed ?r (snd (snd (reg_step (Register 0 ?info 100) ?r))) [] 7"
    by (simp add: membership_changed_def entry_at_def registerService_def Let_def service_at_put watch_def
        service_at_def empty_service_def omap_find_def)
  show ?thesis using ok ch registry_change_notifies [OF ok ch] by (simp only: Let_def simp_thms)
qed

text \<open>Spurious notification. Removing an instance that is not registered invokes the callback that watches the
  service, and spends the subscription, although the set of its instances does not change.\<close>

theorem unregister_unknown_notifies:
  "let r = watch s (Some cb) []; (fired, r') = unregister s i r
   in fired = [cb] \<and> entry_at r' = entry_at r \<and> pending r' = {#}"
proof -
  have "entry_at (snd (unregister s i (watch s (Some cb) []))) = entry_at (watch s (Some cb) [])"
    by (intro ext) (simp add: unregister_def watch_def service_at_def entry_at_def omap_find_def empty_service_def omap_erase_def)
  then show ?thesis
    by (simp add: unregister_def watch_def service_at_def omap_find_def empty_service_def pending_def split_beta Let_def)
qed

end
