(* ===== verification/Router.thy ===== *)
theory Router
  imports Protocol
begin

text \<open>
  \<^verbatim>\<open>include/Router.h\<close>: the table of handlers of a server, keyed by the 32-bit method id that the wire carries.
  The \<^verbatim>\<open>unordered_map\<close> members are maps, they are never iterated. A handler is an element of the
  type parameter. The lemmas say which handler a request of a method reaches after any sequence of
  registrations: the one registered last for a method with the same id.
\<close>

record 'h router =
  rt_handlers :: "u32 \<rightharpoonup> 'h"
  rt_names :: "u32 \<rightharpoonup> bytes"

definition new_router :: "'h router" where
  "new_router = \<lparr>rt_handlers = Map.empty, rt_names = Map.empty\<rparr>"

definition method_key :: "bytes \<Rightarrow> bytes \<Rightarrow> bytes" where
  "method_key service method = service @ lit ''.'' @ method"

definition registerMethod :: "bytes \<Rightarrow> bytes \<Rightarrow> 'h \<Rightarrow> 'h router \<Rightarrow> 'h router" where
  "registerMethod service method handler r =
     (let key = method_key service method; i = methodIdOf key
      in r\<lparr>rt_handlers := (rt_handlers r)(i \<mapsto> handler), rt_names := (rt_names r)(i \<mapsto> key)\<rparr>)"

definition router_find :: "u32 \<Rightarrow> 'h router \<Rightarrow> 'h option" where
  "router_find methodId r = rt_handlers r methodId"

definition methodName :: "u32 \<Rightarrow> 'h router \<Rightarrow> bytes" where
  "methodName methodId r = (case rt_names r methodId of None \<Rightarrow> [] | Some key \<Rightarrow> key)"

text \<open>A sequence of registrations.\<close>

definition register_all :: "(bytes \<times> bytes \<times> 'h) list \<Rightarrow> 'h router \<Rightarrow> 'h router" where
  "register_all ms r = fold (\<lambda>(service, method, handler). registerMethod service method handler) ms r"

text \<open>The last registration whose method has this id.\<close>

definition last_registered :: "u32 \<Rightarrow> (bytes \<times> bytes \<times> 'h) list \<Rightarrow> (bytes \<times> bytes \<times> 'h) option" where
  "last_registered i ms =
     (case filter (\<lambda>(service, method, _). methodIdOf (method_key service method) = i) (rev ms) of
        [] \<Rightarrow> None | m # _ \<Rightarrow> Some m)"

lemma last_registered_snoc:
  "last_registered i (ms @ [(service, method, h)]) =
     (if methodIdOf (method_key service method) = i then Some (service, method, h) else last_registered i ms)"
  by (simp add: last_registered_def)

lemma register_all_snoc:
  "register_all (ms @ [(service, method, h)]) r = registerMethod service method h (register_all ms r)"
  by (simp add: register_all_def)

text \<open>The two tables always speak of the same registration.\<close>

lemma register_all_find:
  "router_find i (register_all ms new_router) = map_option (\<lambda>(_, _, h). h) (last_registered i ms) \<and>
   methodName i (register_all ms new_router) =
     (case last_registered i ms of None \<Rightarrow> [] | Some (service, method, _) \<Rightarrow> method_key service method)"
proof (induction ms rule: rev_induct)
  case Nil
  then show ?case
    by (simp add: register_all_def last_registered_def router_find_def methodName_def new_router_def)
next
  case (snoc m ms)
  obtain service meth h where m: "m = (service, meth, h)" by (cases m)
  show ?case
    using snoc unfolding m register_all_snoc last_registered_snoc
    by (simp add: registerMethod_def router_find_def methodName_def Let_def)
qed

text \<open>
  Registering never fails and never reports anything: a second method whose id collides with the first takes
  over its requests.
\<close>

theorem register_collision:
  assumes "methodIdOf (method_key s1 m1) = methodIdOf (method_key s2 m2)"
  shows "router_find (methodIdOf (method_key s1 m1)) (register_all [(s1, m1, h1), (s2, m2, h2)] new_router) = Some h2"
  using assms by (simp add: register_all_find last_registered_def)

text \<open>Without collisions every method keeps its own handler.\<close>

lemma register_all_distinct:
  assumes "(service, method, h) \<in> set ms"
    and "distinct (map (\<lambda>(s, m, _). methodIdOf (method_key s m)) ms)"
  shows "router_find (methodIdOf (method_key service method)) (register_all ms new_router) = Some h"
proof -
  have "filter (\<lambda>(s, m, _). methodIdOf (method_key s m) = methodIdOf (method_key service method)) (rev ms) =
    [(service, method, h)]"
    using assms
  proof (induction ms rule: rev_induct)
    case (snoc x ms)
    obtain s m g where x: "x = (s, m, g)" by (cases x)
    show ?case
    proof (cases "(service, method, h) = x")
      case True
      have "filter (\<lambda>(s, m, _). methodIdOf (method_key s m) = methodIdOf (method_key service method)) (rev ms) = []"
        using snoc.prems(2) True by (force simp: filter_empty_conv)
      then show ?thesis using True by auto
    next
      case False
      with snoc.prems have "(service, method, h) \<in> set ms" by auto
      moreover from this have "methodIdOf (method_key s m) \<noteq> methodIdOf (method_key service method)"
        using snoc.prems(2) x by force
      ultimately show ?thesis using snoc x by simp
    qed
  qed simp
  then show ?thesis by (simp add: register_all_find last_registered_def)
qed

end
