(* ===== verification/RpcServer.thy ===== *)
theory RpcServer
  imports Router RpcFramer Serializer ConcurrencyLimiter Accounting
begin

text \<open>
  \<^verbatim>\<open>include/RpcServer.h\<close>, \<^verbatim>\<open>src/RpcServer.cpp\<close>: the server side of a call. A method of the class is a function
  from the server state to the new state and the effects it performs, in order; a connection is an
  element of the type parameter. Handlers are user code: calling one is the effect \<open>RunHandler\<close>, and the
  done callback it was given is the operation \<open>handler_done\<close>. \<open>server_step\<close> composes the server with the
  executor's task queue and the handlers that still run, so that executions, in which tasks and handlers
  finish in any order, are sequences of steps.
\<close>

section \<open>State\<close>

record request_context =
  rc_header :: rpc_header
  rc_start :: time
  rc_traceId :: u64
  rc_request :: rpc_value
  rc_methodName :: bytes

record 'h server =
  sv_router :: "'h router"
  sv_limiter :: "limiter option"
  sv_stopping :: bool
  sv_inflight :: u64

datatype ('h, 'c) server_effect =
    SendMessage 'c message
  | ResponseDropped 'c rpc_header            \<comment> \<open>\<^verbatim>\<open>weakConn.lock()\<close> found the connection gone\<close>
  | Submit 'c message                        \<comment> \<open>the executor gets the task \<^verbatim>\<open>handleRequest\<close>\<close>
  | RunHandler 'h 'c request_context bool
  | MarkRequest
  | RecordSpan u64 u32 bytes u16 int
  | ObserveLatency int
  | ObserveStatus u16
  | StopAccepting
  | StopTcpServer
  | OnDone

type_synonym ('h, 'c) server_result = "'h server \<times> ('h, 'c) server_effect list"

definition new_server :: "'h server" where
  "new_server = \<lparr>sv_router = new_router, sv_limiter = None, sv_stopping = False, sv_inflight = 0\<rparr>"

definition server_registerMethod :: "bytes \<Rightarrow> bytes \<Rightarrow> 'h \<Rightarrow> 'h server \<Rightarrow> 'h server" where
  "server_registerMethod service method handler sv =
     sv\<lparr>sv_router := registerMethod service method handler (sv_router sv)\<rparr>"

definition setMaxConcurrency :: "u64 \<Rightarrow> 'h server \<Rightarrow> 'h server" where
  "setMaxConcurrency n sv = sv\<lparr>sv_limiter := Some (new_limiter n)\<rparr>"

section \<open>Requests\<close>

definition releaseSlot :: "'h server \<Rightarrow> 'h server" where
  "releaseSlot sv =
     sv\<lparr>sv_limiter := map_option limiter_release (sv_limiter sv), sv_inflight := sv_inflight sv - 1\<rparr>"

definition sendResponse :: "'c \<Rightarrow> rpc_header \<Rightarrow> u64 \<Rightarrow> u16 \<Rightarrow> ('h, 'c) server_effect list" where
  "sendResponse conn header traceId status =
     (if hdr_msgType header = kMsgOneway then []
      else [SendMessage conn \<lparr>msg_header = header\<lparr>hdr_traceId := traceId, hdr_msgType := kMsgResponse,
              hdr_status := status\<rparr>, msg_body = []\<rparr>])"

definition onMessage :: "'c \<Rightarrow> message \<Rightarrow> 'h server \<Rightarrow> ('h, 'c) server_result" where
  "onMessage conn req sv =
     (let t = hdr_msgType (msg_header req)
      in if t = kMsgHeartbeat
         then (sv, [SendMessage conn \<lparr>msg_header = (msg_header req)\<lparr>hdr_msgType := kMsgHeartbeatAck\<rparr>, msg_body = []\<rparr>])
         else if t = kMsgRequest \<or> t = kMsgOneway
         then (sv, MarkRequest #
                 (if sv_stopping sv then sendResponse conn (msg_header req) 0 kShuttingDown else [Submit conn req]))
         else (sv, []))"

text \<open>\<^verbatim>\<open>limiter_ && !limiter_->tryAcquire()\<close>: \<open>None\<close> is the rejection.\<close>

definition acquire_slot :: "'h server \<Rightarrow> 'h server option" where
  "acquire_slot sv =
     (case sv_limiter sv of
        None \<Rightarrow> Some sv
      | Some l \<Rightarrow> (case tryAcquire l of (ok, l') \<Rightarrow> if ok then Some (sv\<lparr>sv_limiter := Some l'\<rparr>) else None))"

text \<open>\<open>gen\<close> is the value \<^verbatim>\<open>tracing::generateTraceId()\<close> gives when the request carries no trace id.\<close>

definition handleRequest :: "endian \<Rightarrow> time \<Rightarrow> u64 \<Rightarrow> 'c \<Rightarrow> message \<Rightarrow> 'h server \<Rightarrow> ('h, 'c) server_result" where
  "handleRequest e now gen conn req sv =
     (let h = msg_header req;
          trace = (if hdr_traceId h \<noteq> 0 then hdr_traceId h else gen)
      in if sv_stopping sv then (sv, sendResponse conn h trace kShuttingDown)
         else case acquire_slot sv of
           None \<Rightarrow> (sv, sendResponse conn h trace kConcurrencyLimited)
         | Some sv1 \<Rightarrow>
             let sv2 = sv1\<lparr>sv_inflight := sv_inflight sv1 + 1\<rparr>
             in case (if msg_body req \<noteq> [] then Serializer_decode e (msg_body req) else Some VNull) of
                  None \<Rightarrow> (releaseSlot sv2, sendResponse conn h trace kSerializationError)
                | Some request \<Rightarrow>
                    (case router_find (hdr_methodId h) (sv_router sv2) of
                       None \<Rightarrow> (releaseSlot sv2, sendResponse conn h trace kMethodNotFound)
                     | Some handler \<Rightarrow>
                         (sv2, [RunHandler handler conn
                            \<lparr>rc_header = h, rc_start = now, rc_traceId = trace, rc_request = request,
                             rc_methodName = methodName (hdr_methodId h) (sv_router sv2)\<rparr>
                            (hdr_msgType h \<noteq> kMsgOneway)])))"

text \<open>
  The done callback of a handler: \<open>now\<close> is the clock, \<open>alive\<close> whether the connection still exists and
  \<open>response\<close> what the handler left in \<^verbatim>\<open>ctx->response\<close>.
\<close>

definition final_status :: "time \<Rightarrow> request_context \<Rightarrow> u16 \<Rightarrow> u16" where
  "final_status now ctx status =
     (if hdr_timeoutMs (rc_header ctx) > 0 \<and> to_ms (now - rc_start ctx) \<ge> uint (hdr_timeoutMs (rc_header ctx))
      then kDeadlineExceeded else status)"

definition response_message :: "request_context \<Rightarrow> u16 \<Rightarrow> rpc_value \<Rightarrow> message" where
  "response_message ctx status response =
     \<lparr>msg_header = (rc_header ctx)\<lparr>hdr_traceId := rc_traceId ctx, hdr_msgType := kMsgResponse, hdr_status := status\<rparr>,
      msg_body = (if status = kOk then Serializer_encode response else [])\<rparr>"

definition handler_done :: "time \<Rightarrow> bool \<Rightarrow> 'c \<Rightarrow> request_context \<Rightarrow> bool \<Rightarrow> u16 \<Rightarrow> rpc_value \<Rightarrow> 'h server \<Rightarrow>
    ('h, 'c) server_result" where
  "handler_done now alive conn ctx reply status0 response sv =
     (let latencyMs = to_ms (now - rc_start ctx);
          status = final_status now ctx status0
      in (releaseSlot sv,
          [RecordSpan (rc_traceId ctx) (hdr_methodId (rc_header ctx)) (rc_methodName ctx) status latencyMs,
           ObserveLatency latencyMs, ObserveStatus status] @
          (if \<not> reply then []
           else if alive then [SendMessage conn (response_message ctx status response)]
           else [ResponseDropped conn (rc_header ctx)])))"

section \<open>Graceful shutdown\<close>

definition stopGracefully :: "'h server \<Rightarrow> ('h, 'c) server_result" where
  "stopGracefully sv = (sv\<lparr>sv_stopping := True\<rparr>, [StopAccepting])"

text \<open>
  The waiting thread: each turn of the loop loads \<^verbatim>\<open>inflight_\<close> and reads the clock, which \<open>turns\<close> lists.
  The loop ends at the first turn that finds no request in flight or the deadline reached; \<open>None\<close> if
  no listed turn does.
\<close>

fun stop_wait :: "time \<Rightarrow> (u64 \<times> time) list \<Rightarrow> nat option" where
  "stop_wait deadline [] = None"
| "stop_wait deadline ((inflight, now) # turns) =
     (if inflight > 0 \<and> now < deadline then map_option Suc (stop_wait deadline turns) else Some 0)"

text \<open>What the thread does after the loop.\<close>

definition stop_finish :: "bool \<Rightarrow> ('h, 'c) server_effect list" where
  "stop_finish hasOnDone = StopTcpServer # (if hasOnDone then [OnDone] else [])"

section \<open>Executions\<close>

text \<open>
  The server with the tasks its executor holds and the handlers that run. The executor may take tasks in
  any order (\<^verbatim>\<open>setExecutor\<close> accepts a thread pool) and a handler may finish at any time, on any thread;
  each calls its done callback once, as \<^verbatim>\<open>Router.h\<close> asks of it.
\<close>

record ('h, 'c) server_sys =
  sy_server :: "'h server"
  sy_tasks :: "('c \<times> message) list"
  sy_running :: "('c \<times> request_context \<times> bool) list"

datatype 'c server_op =
    SvMessage 'c message
  | SvTask nat time u64
  | SvDone nat time bool u16 rpc_value
  | SvStop

fun submitted :: "('h, 'c) server_effect \<Rightarrow> ('c \<times> message) list" where
  "submitted (Submit conn req) = [(conn, req)]"
| "submitted _ = []"

fun started :: "('h, 'c) server_effect \<Rightarrow> ('c \<times> request_context \<times> bool) list" where
  "started (RunHandler h conn ctx reply) = [(conn, ctx, reply)]"
| "started _ = []"

definition submits :: "('h, 'c) server_effect list \<Rightarrow> ('c \<times> message) list" where
  "submits effs = concat (map submitted effs)"

definition starts :: "('h, 'c) server_effect list \<Rightarrow> ('c \<times> request_context \<times> bool) list" where
  "starts effs = concat (map started effs)"

lemma submits_starts_simps [simp]:
  "submits [] = []" "submits (x # xs) = submitted x @ submits xs"
  "starts [] = []" "starts (x # xs) = started x @ starts xs"
  by (simp_all add: submits_def starts_def)

definition absorb :: "('h, 'c) server_result \<Rightarrow> ('h, 'c) server_sys \<Rightarrow> ('h, 'c) server_sys \<times> ('h, 'c) server_effect list" where
  "absorb res sys =
     (sys\<lparr>sy_server := fst res, sy_tasks := sy_tasks sys @ submits (snd res),
          sy_running := sy_running sys @ starts (snd res)\<rparr>, snd res)"

fun server_step :: "endian \<Rightarrow> 'c server_op \<Rightarrow> ('h, 'c) server_sys \<Rightarrow> ('h, 'c) server_sys \<times> ('h, 'c) server_effect list" where
  "server_step e (SvMessage conn req) sys = absorb (onMessage conn req (sy_server sys)) sys"
| "server_step e (SvTask i now gen) sys =
     (if i < length (sy_tasks sys)
      then case sy_tasks sys ! i of (conn, req) \<Rightarrow>
        absorb (handleRequest e now gen conn req (sy_server sys)) (sys\<lparr>sy_tasks := remove_at i (sy_tasks sys)\<rparr>)
      else (sys, []))"
| "server_step e (SvDone i now alive status response) sys =
     (if i < length (sy_running sys)
      then case sy_running sys ! i of (conn, ctx, reply) \<Rightarrow>
        absorb (handler_done now alive conn ctx reply status response (sy_server sys))
          (sys\<lparr>sy_running := remove_at i (sy_running sys)\<rparr>)
      else (sys, []))"
| "server_step e SvStop sys = absorb (stopGracefully (sy_server sys)) sys"

definition idle_sys :: "'h server \<Rightarrow> ('h, 'c) server_sys" where
  "idle_sys sv = \<lparr>sy_server = sv, sy_tasks = [], sy_running = []\<rparr>"

section \<open>Accounting\<close>

text \<open>A request owes its connection an answer with its id; a oneway message owes nothing.\<close>

definition owed_task :: "'c \<times> message \<Rightarrow> ('c \<times> u32) multiset" where
  "owed_task t =
     (if hdr_msgType (msg_header (snd t)) = kMsgRequest then {#(fst t, hdr_requestId (msg_header (snd t)))#} else {#})"

definition owed_run :: "'c \<times> request_context \<times> bool \<Rightarrow> ('c \<times> u32) multiset" where
  "owed_run t = (case t of (conn, ctx, reply) \<Rightarrow> if reply then {#(conn, hdr_requestId (rc_header ctx))#} else {#})"

definition owed :: "('h, 'c) server_sys \<Rightarrow> ('c \<times> u32) multiset" where
  "owed sys = sum_list (map owed_task (sy_tasks sys)) + sum_list (map owed_run (sy_running sys))"

fun answered :: "('h, 'c) server_effect \<Rightarrow> ('c \<times> u32) multiset" where
  "answered (SendMessage conn m) =
     (if hdr_msgType (msg_header m) = kMsgResponse then {#(conn, hdr_requestId (msg_header m))#} else {#})"
| "answered (ResponseDropped conn h) = {#(conn, hdr_requestId h)#}"
| "answered _ = {#}"

fun received_request :: "'c server_op \<Rightarrow> ('c \<times> u32) multiset" where
  "received_request (SvMessage conn m) = owed_task (conn, m)"
| "received_request _ = {#}"

text \<open>
  The counters of the server describe the handlers that run: \<^verbatim>\<open>inflight_\<close> counts them, and so does a limiter
  with a positive bound, which they do not exceed.
\<close>

definition counted :: "nat \<Rightarrow> 'h server \<Rightarrow> bool" where
  "counted n sv \<longleftrightarrow>
     sv_inflight sv = of_nat n \<and>
     (case sv_limiter sv of
        None \<Rightarrow> True
      | Some l \<Rightarrow> lim_max l = 0 \<or> n \<le> unat (lim_max l) \<and> unat (lim_current l) = n)"

definition sys_ok :: "('h, 'c) server_sys \<Rightarrow> bool" where
  "sys_ok sys \<longleftrightarrow>
     (\<forall>t \<in> set (sy_tasks sys). hdr_msgType (msg_header (snd t)) \<in> {kMsgRequest, kMsgOneway}) \<and>
     counted (length (sy_running sys)) (sy_server sys)"

lemma counted_acquire:
  assumes "counted n sv" and "acquire_slot sv = Some sv1"
  shows "counted (Suc n) (sv1\<lparr>sv_inflight := sv_inflight sv1 + 1\<rparr>)"
proof (cases "sv_limiter sv")
  case None
  then show ?thesis using assms by (auto simp: counted_def acquire_slot_def)
next
  case (Some l)
  then show ?thesis
    using assms unat_succ [of "lim_current l" "lim_max l"]
    by (auto simp: counted_def acquire_slot_def tryAcquire_def word_less_nat_alt split: if_splits)
qed

lemma counted_release:
  assumes "counted (Suc n) sv"
  shows "counted n (releaseSlot sv)"
proof (cases "sv_limiter sv")
  case None
  then show ?thesis using assms by (simp add: counted_def releaseSlot_def)
next
  case (Some l)
  then show ?thesis
    using assms unat_pred [of "lim_current l"]
    by (cases "lim_current l = 0") (auto simp: counted_def releaseSlot_def limiter_release_def)
qed

lemma answered_sendResponse:
  "hdr_msgType h \<in> {kMsgRequest, kMsgOneway} \<Longrightarrow>
    settled answered (sendResponse conn h trace status) = owed_task (conn, \<lparr>msg_header = h, msg_body = body\<rparr>)"
  by (auto simp: sendResponse_def owed_task_def)

lemma sendResponse_quiet [simp]:
  "submits (sendResponse conn h trace status) = []"
  "starts (sendResponse conn h trace status) = []"
  by (simp_all add: sendResponse_def)

text \<open>What each entry point does to the obligations and to the counters.\<close>

lemma onMessage_balance:
  fixes sv :: "'h server"
  shows "fst (onMessage conn req sv) = sv" "starts (snd (onMessage conn req sv)) = []"
    "\<forall>t \<in> set (submits (snd (onMessage conn req sv))). hdr_msgType (msg_header (snd t)) \<in> {kMsgRequest, kMsgOneway}"
    "settled answered (snd (onMessage conn req sv)) + sum_list (map owed_task (submits (snd (onMessage conn req sv)))) =
       owed_task (conn, req)"
  by (simp_all add: onMessage_def Let_def sendResponse_def owed_task_def)

lemma handleRequest_balance:
  fixes sv :: "'h server"
  assumes "hdr_msgType (msg_header req) \<in> {kMsgRequest, kMsgOneway}" and "counted n sv"
    and res_def: "res = handleRequest e now gen conn req sv"
  shows "submits (snd res) = []"
    "counted (n + length (starts (snd res))) (fst res)"
    "settled answered (snd res) + sum_list (map owed_run (starts (snd res))) = owed_task (conn, req)"
proof -
  have type: "hdr_msgType (msg_header req) \<noteq> kMsgOneway \<longleftrightarrow> hdr_msgType (msg_header req) = kMsgRequest"
    using assms(1) by auto
  have owed: "owed_task (conn, \<lparr>msg_header = msg_header req, msg_body = []\<rparr>) = owed_task (conn, req)"
    by (simp add: owed_task_def)
  have released: "counted n (releaseSlot (sv1\<lparr>sv_inflight := sv_inflight sv1 + 1\<rparr>))"
    if "acquire_slot sv = Some sv1" for sv1
    by (rule counted_release [OF counted_acquire [OF assms(2) that]])
  note split = res_def handleRequest_def Let_def
  show "submits (snd res) = []"
    by (auto simp: split split: option.splits)
  show "counted (n + length (starts (snd res))) (fst res)"
    using assms(2) released counted_acquire [OF assms(2)] by (auto simp: split split: option.splits)
  show "settled answered (snd res) + sum_list (map owed_run (starts (snd res))) = owed_task (conn, req)"
    using answered_sendResponse [OF assms(1), where body = "[]"] owed type
    by (auto simp: split owed_run_def owed_task_def split: option.splits)
qed

lemma handler_done_balance:
  fixes sv :: "'h server"
  assumes "counted (Suc n) sv"
    and res_def: "res = handler_done now alive conn ctx reply status response sv"
  shows "submits (snd res) = []" "starts (snd res) = []" "counted n (fst res)"
    "settled answered (snd res) = owed_run (conn, ctx, reply)"
  using counted_release [OF assms(1)]
  by (auto simp: res_def handler_done_def Let_def response_message_def owed_run_def)

interpretation requests: accounting "server_step e" sys_ok owed answered received_request for e :: endian
proof unfold_locales
  fix x :: "'c server_op" and sys :: "('h, 'c) server_sys"
  assume ok: "sys_ok sys"
  have "sys_ok (fst (server_step e x sys)) \<and>
    settled answered (snd (server_step e x sys)) + owed (fst (server_step e x sys)) = owed sys + received_request x"
  proof (cases x)
    case (SvMessage conn m)
    show ?thesis
      using ok onMessage_balance [of conn m "sy_server sys"]
      by (auto simp: SvMessage absorb_def sys_ok_def owed_def ac_simps)
  next
    case (SvTask i now gen)
    show ?thesis
    proof (cases "i < length (sy_tasks sys)")
      case True
      obtain conn req where t: "sy_tasks sys ! i = (conn, req)" by fastforce
      have "hdr_msgType (msg_header req) \<in> {kMsgRequest, kMsgOneway}"
        using ok True t nth_mem [OF True] by (force simp: sys_ok_def)
      moreover have "counted (length (sy_running sys)) (sy_server sys)" using ok by (simp add: sys_ok_def)
      ultimately show ?thesis
        using ok remove_at_simps(1,2) [OF True] remove_at_simps(3) [OF True, of owed_task] t True
          handleRequest_balance [OF _ _ refl, of req "length (sy_running sys)" "sy_server sys" e now gen conn]
        by (auto simp: SvTask absorb_def sys_ok_def owed_def ac_simps)
    qed (simp add: SvTask ok)
  next
    case (SvDone i now alive status response)
    show ?thesis
    proof (cases "i < length (sy_running sys)")
      case True
      obtain conn ctx reply where t: "sy_running sys ! i = (conn, ctx, reply)" by (cases "sy_running sys ! i")
      have "counted (Suc (length (sy_running sys) - 1)) (sy_server sys)"
        using ok True by (cases "length (sy_running sys)") (simp_all add: sys_ok_def)
      then show ?thesis
        using ok remove_at_simps(1,2) [OF True] remove_at_simps(3) [OF True, of owed_run] t True
          handler_done_balance [OF _ refl, of "length (sy_running sys) - 1" "sy_server sys" now alive conn ctx reply status response]
        by (auto simp: SvDone absorb_def sys_ok_def owed_def ac_simps)
    qed (simp add: SvDone ok)
  next
    case SvStop
    then show ?thesis
      using ok by (simp add: absorb_def stopGracefully_def sys_ok_def owed_def counted_def split: option.splits)
  qed
  then show "sys_ok (fst (server_step e x sys))"
    "settled answered (snd (server_step e x sys)) + owed (fst (server_step e x sys)) = owed sys + received_request x"
    by blast+
qed

lemma idle_sys_ok:
  "sv_inflight sv = 0 \<Longrightarrow> sv_limiter sv = None \<or> sv_limiter sv = Some (new_limiter n) \<Longrightarrow> sys_ok (idle_sys sv)"
  by (auto simp: sys_ok_def idle_sys_def counted_def new_limiter_def)

lemma owed_idle [simp]: "owed (idle_sys sv) = {#}"
  by (simp add: owed_def idle_sys_def)

text \<open>No operation replaces the limiter.\<close>

lemma releaseSlot_max [simp]: "map_option lim_max (sv_limiter (releaseSlot sv)) = map_option lim_max (sv_limiter sv)"
  by (cases "sv_limiter sv") (simp_all add: releaseSlot_def limiter_release_def)

lemma acquire_slot_max:
  "acquire_slot sv = Some sv1 \<Longrightarrow> map_option lim_max (sv_limiter sv1) = map_option lim_max (sv_limiter sv)"
  by (auto simp: acquire_slot_def tryAcquire_def split: option.splits if_splits)

lemma limiter_max_step:
  "map_option lim_max (sv_limiter (sy_server (fst (server_step e x sys)))) =
    map_option lim_max (sv_limiter (sy_server sys))"
  by (cases x)
    (auto simp: absorb_def onMessage_def handleRequest_def handler_done_def stopGracefully_def Let_def
      dest: acquire_slot_max split: prod.splits option.splits)

lemma limiter_max_run:
  "map_option lim_max (sv_limiter (sy_server (fst (run_ops (server_step e) xs sys)))) =
    map_option lim_max (sv_limiter (sy_server sys))"
  by (induction xs arbitrary: sys) (simp_all add: split_beta Let_def limiter_max_step)

section \<open>Shutdown\<close>

text \<open>The number of handlers a sequence of operations starts.\<close>

lemma stopping_step:
  assumes "sv_stopping (sy_server sys)"
  shows "sv_stopping (sy_server (fst (server_step e x sys))) \<and> starts (snd (server_step e x sys)) = [] \<and>
    (x \<noteq> SvStop \<longrightarrow> submits (snd (server_step e x sys)) = [])"
  using assms
  by (cases x)
    (auto simp: absorb_def onMessage_def handleRequest_def handler_done_def stopGracefully_def releaseSlot_def
      Let_def split: prod.splits)

lemma stopping_run:
  "sv_stopping (sy_server sys) \<Longrightarrow>
    starts (snd (run_ops (server_step e) xs sys)) = [] \<and> submits (snd (run_ops (server_step e) xs sys)) = []"
proof (induction xs arbitrary: sys)
  case (Cons x xs)
  have "submits (snd (server_step e x sys)) = []"
    using stopping_step [OF Cons.prems, of e x] by (cases "x = SvStop") (auto simp: absorb_def stopGracefully_def)
  then show ?case
    using stopping_step [OF Cons.prems, of e x] Cons.IH [of "fst (server_step e x sys)"]
    by (simp add: split_beta Let_def submits_def starts_def)
qed simp

text \<open>A turn sleeps for a millisecond, so the \<open>k\<close>-th turn reads the clock at least \<open>k\<close> milliseconds after the start.\<close>

lemma stop_wait_ends:
  assumes "\<forall>k < length turns. start + msec (int k) \<le> snd (turns ! k)" and "nat t < length turns"
  shows "\<exists>k \<le> nat t. stop_wait (start + msec t) turns = Some k"
  using assms
proof (induction turns arbitrary: start t)
  case (Cons turn turns)
  obtain n now where turn: "turn = (n, now)" by (cases turn)
  show ?case
  proof (cases "n > 0 \<and> now < start + msec t")
    case True
    have "start \<le> now" using Cons.prems(1) turn by (auto dest: spec [of _ 0] simp: msec_def)
    with True have "0 < t" by (smt (verit) msec_pos)
    have *: "(start + msec 1) + msec (t - 1) = start + msec t"
      "(start + msec 1) + msec (int k) = start + msec (int (Suc k))" for k
      by (simp_all add: msec_def)
    have "\<forall>k < length turns. (start + msec 1) + msec (int k) \<le> snd (turns ! k)"
      unfolding * using Cons.prems(1) by auto
    moreover have "nat (t - 1) < length turns" using Cons.prems(2) \<open>0 < t\<close> by simp
    ultimately obtain k where "k \<le> nat (t - 1)" "stop_wait (start + msec t) turns = Some k"
      using Cons.IH [of "start + msec 1" "t - 1"] unfolding * by blast
    then show ?thesis using True turn \<open>0 < t\<close> by (intro exI [of _ "Suc k"]) auto
  qed (auto simp: turn)
qed simp

lemma stop_wait_exit:
  "stop_wait deadline turns = Some k \<Longrightarrow> k < length turns \<and> (fst (turns ! k) = 0 \<or> deadline \<le> snd (turns ! k))"
  by (induction deadline turns arbitrary: k rule: stop_wait.induct) (auto simp: word_gt_0 split: if_splits)

section \<open>An example execution\<close>

definition echo_server :: "nat server" where
  "echo_server = server_registerMethod (lit ''echo'') (lit ''say'') 0 new_server"

definition echo_request :: "u32 \<Rightarrow> u32 \<Rightarrow> message" where
  "echo_request i method = \<lparr>msg_header = zero_header\<lparr>hdr_requestId := i, hdr_methodId := method\<rparr>, msg_body = []\<rparr>"

text \<open>Two requests, the second for a method that does not exist.\<close>

definition echo_ops :: "nat server_op list" where
  "echo_ops =
     [SvMessage 1 (echo_request 7 (methodIdOf (lit ''echo.say''))), SvMessage 1 (echo_request 8 0),
      SvTask 0 0 5, SvTask 0 0 5, SvDone 0 1 True kOk VNull]"

lemma echo_run:
  "length (sy_tasks (fst (run_ops (server_step Little) echo_ops (idle_sys echo_server)))) = 0"
  "length (sy_running (fst (run_ops (server_step Little) echo_ops (idle_sys echo_server)))) = 0"
  "length (sy_running (fst (run_ops (server_step Little) (take 3 echo_ops) (idle_sys (setMaxConcurrency 1 echo_server))))) = 1"
  by code_simp+

section \<open>Properties\<close>

text \<open>C3: Every request is answered exactly once. Take any execution of the server: messages of any type
  arriving on any connection, executor tasks and handlers finishing in any order, a shutdown at any time,
  connections that disappear. The answers (responses sent, or dropped because the connection is gone),
  together with the requests still queued or being handled, are the requests received, as multisets of
  connection and request id: none is lost, none is answered twice, and a oneway message is never answered.
  In particular, once nothing is queued or running, exactly the requests received have been answered,
  whatever the outcome (decoding error, unknown method, overload, shutdown, handler done).\<close>

theorem server_answers_once:
  assumes "sv_inflight sv = 0" and "sv_limiter sv = None \<or> sv_limiter sv = Some (new_limiter n)"
    and "run_ops (server_step e) ops (idle_sys sv) = (sys, effs)"
  shows "settled answered effs + owed sys = sum_list (map received_request ops) \<and>
    (sy_tasks sys = [] \<and> sy_running sys = [] \<longrightarrow> settled answered effs = sum_list (map received_request ops))"
  using requests.run_balance [OF idle_sys_ok [OF assms(1,2)], of e ops] assms(3)
  by (auto simp: owed_def idle_sys_def)

theorem server_answers_once_witness:
  "\<exists>sys effs. run_ops (server_step Little) echo_ops (idle_sys echo_server) = (sys, effs) \<and>
     sy_tasks sys = [] \<and> sy_running sys = [] \<and> settled answered effs = {#(1, 7), (1, 8)#}"
proof -
  obtain sys effs where r: "run_ops (server_step Little) echo_ops (idle_sys echo_server) = (sys, effs)" by fastforce
  moreover have "sy_tasks sys = []" "sy_running sys = []"
    using echo_run(1,2) r by simp_all
  moreover have "sum_list (map received_request echo_ops) = {#(1, 7), (1, 8)#}"
    by (simp add: echo_ops_def echo_request_def owed_task_def zero_header_def msg_type_defs)
  moreover have "sv_inflight echo_server = 0" "sv_limiter echo_server = None"
    by (simp_all add: echo_server_def server_registerMethod_def new_server_def)
  ultimately show ?thesis
    using server_answers_once [of echo_server 0 Little echo_ops sys effs] by simp
qed

text \<open>C14: Overload protection of the server. With \<open>setMaxConcurrency(n)\<close>, \<open>n\<close> positive, in every
  execution the number of handlers that run at the same time never exceeds \<open>n\<close>, and \<^verbatim>\<open>inflight_\<close>, on which
  the graceful shutdown waits, is exactly that number.\<close>

theorem server_concurrency_bound:
  assumes "sv_inflight sv = 0" and "0 < n"
    and "run_ops (server_step e) ops (idle_sys (setMaxConcurrency n sv)) = (sys, effs)"
  shows "length (sy_running sys) \<le> unat n \<and> unat (sv_inflight (sy_server sys)) = length (sy_running sys)"
proof -
  have "sys_ok (idle_sys (setMaxConcurrency n sv))"
    using assms(1) by (intro idle_sys_ok [of _ n]) (simp_all add: setMaxConcurrency_def)
  then have "sys_ok sys" using requests.run_ok [of _ e ops] assms(3) by (metis fst_conv)
  moreover have "map_option lim_max (sv_limiter (sy_server sys)) = Some n"
    using limiter_max_run [of e ops "idle_sys (setMaxConcurrency n sv)"] assms(3)
    by (simp add: idle_sys_def setMaxConcurrency_def new_limiter_def)
  ultimately show ?thesis
    using assms(2) unsigned_less [of n, where 'a = nat]
    by (auto simp: sys_ok_def counted_def unat_of_nat)
qed

theorem server_concurrency_bound_witness:
  "\<exists>sys effs. run_ops (server_step Little) (take 3 echo_ops) (idle_sys (setMaxConcurrency 1 echo_server)) = (sys, effs) \<and>
     length (sy_running sys) = 1 \<and> length (sy_running sys) \<le> unat (1 :: u64) \<and>
     unat (sv_inflight (sy_server sys)) = length (sy_running sys)"
proof -
  obtain sys effs where r: "run_ops (server_step Little) (take 3 echo_ops) (idle_sys (setMaxConcurrency 1 echo_server)) = (sys, effs)"
    by fastforce
  moreover have "length (sy_running sys) = 1"
    using echo_run(3) r by simp
  moreover have "sv_inflight echo_server = 0"
    by (simp add: echo_server_def server_registerMethod_def new_server_def)
  ultimately show ?thesis
    using server_concurrency_bound [of echo_server 1 Little "take 3 echo_ops" sys effs] by auto
qed



end
