(* ===== verification/Channel.thy ===== *)
theory Channel
  imports RpcPrelude
begin

text \<open>
  \<^verbatim>\<open>include/Channel.h\<close>, \<^verbatim>\<open>src/Channel.cpp\<close>: the registration of one file descriptor with an event loop. The event
  masks are 16-bit words with the bit values of \<^verbatim>\<open>poll.h\<close>. Which callbacks are set is part of the
  state; dispatching an event gives the callbacks it runs, in order. Every change of the interest mask is
  followed by \<^verbatim>\<open>EventLoop::updateChannel\<close>, which \<open>Poller\<close> models.
\<close>

definition POLLIN :: u16 where "POLLIN = 0x01"
definition POLLPRI :: u16 where "POLLPRI = 0x02"
definition POLLOUT :: u16 where "POLLOUT = 0x04"
definition POLLERR :: u16 where "POLLERR = 0x08"
definition POLLHUP :: u16 where "POLLHUP = 0x10"
definition POLLNVAL :: u16 where "POLLNVAL = 0x20"

lemmas poll_masks = POLLIN_def POLLPRI_def POLLOUT_def POLLERR_def POLLHUP_def POLLNVAL_def

datatype channel_callback = ErrorCallback | CloseCallback | ReadCallback | WriteCallback

record channel =
  cl_fd :: int
  cl_events :: u16
  cl_revents :: u16
  cl_callbacks :: "channel_callback set"

definition new_channel :: "int \<Rightarrow> channel" where
  "new_channel fd = \<lparr>cl_fd = fd, cl_events = 0, cl_revents = 0, cl_callbacks = {}\<rparr>"

text \<open>\<^verbatim>\<open>setReadCallback\<close> and its three siblings, with a callback that is not empty.\<close>

definition setCallback :: "channel_callback \<Rightarrow> channel \<Rightarrow> channel" where
  "setCallback cb ch = ch\<lparr>cl_callbacks := insert cb (cl_callbacks ch)\<rparr>"

definition handleEvent :: "channel \<Rightarrow> channel_callback list" where
  "handleEvent ch =
     (if cl_revents ch AND (POLLERR OR POLLNVAL) \<noteq> 0 \<and> ErrorCallback \<in> cl_callbacks ch then [ErrorCallback] else []) @
     (if cl_revents ch AND POLLHUP \<noteq> 0 \<and> CloseCallback \<in> cl_callbacks ch then [CloseCallback] else []) @
     (if cl_revents ch AND (POLLIN OR POLLPRI OR POLLHUP) \<noteq> 0 \<and> ReadCallback \<in> cl_callbacks ch then [ReadCallback] else []) @
     (if cl_revents ch AND POLLOUT \<noteq> 0 \<and> WriteCallback \<in> cl_callbacks ch then [WriteCallback] else [])"

definition setRevents :: "u16 \<Rightarrow> channel \<Rightarrow> channel" where
  "setRevents revents ch = ch\<lparr>cl_revents := revents\<rparr>"

definition isNoneEvent :: "channel \<Rightarrow> bool" where
  "isNoneEvent ch \<longleftrightarrow> cl_events ch = 0"

definition isWriting :: "channel \<Rightarrow> bool" where
  "isWriting ch \<longleftrightarrow> cl_events ch AND POLLOUT \<noteq> 0"

definition enableReading :: "channel \<Rightarrow> channel" where
  "enableReading ch = ch\<lparr>cl_events := cl_events ch OR POLLIN\<rparr>"

definition enableWriting :: "channel \<Rightarrow> channel" where
  "enableWriting ch = ch\<lparr>cl_events := cl_events ch OR POLLOUT\<rparr>"

definition disableWriting :: "channel \<Rightarrow> channel" where
  "disableWriting ch = ch\<lparr>cl_events := cl_events ch AND NOT POLLOUT\<rparr>"

definition disableAll :: "channel \<Rightarrow> channel" where
  "disableAll ch = ch\<lparr>cl_events := 0\<rparr>"

section \<open>The interest mask\<close>

definition isReading :: "channel \<Rightarrow> bool" where
  "isReading ch \<longleftrightarrow> cl_events ch AND POLLIN \<noteq> 0"

lemma poll_bits:
  "(m :: u16) AND POLLIN \<noteq> 0 \<longleftrightarrow> bit m 0" "m AND POLLPRI \<noteq> 0 \<longleftrightarrow> bit m 1" "m AND POLLOUT \<noteq> 0 \<longleftrightarrow> bit m 2"
  "m AND POLLERR \<noteq> 0 \<longleftrightarrow> bit m 3" "m AND POLLHUP \<noteq> 0 \<longleftrightarrow> bit m 4" "m AND POLLNVAL \<noteq> 0 \<longleftrightarrow> bit m 5"
proof -
  have "m AND 2 ^ n \<noteq> 0 \<longleftrightarrow> bit m n" if "n < 16" for n
    using that and_exp_eq_0_iff_not_bit [of m n] by simp
  from this [of 0] this [of 1] this [of 2] this [of 3] this [of 4] this [of 5]
  show "m AND POLLIN \<noteq> 0 \<longleftrightarrow> bit m 0" "m AND POLLPRI \<noteq> 0 \<longleftrightarrow> bit m 1" "m AND POLLOUT \<noteq> 0 \<longleftrightarrow> bit m 2"
    "m AND POLLERR \<noteq> 0 \<longleftrightarrow> bit m 3" "m AND POLLHUP \<noteq> 0 \<longleftrightarrow> bit m 4" "m AND POLLNVAL \<noteq> 0 \<longleftrightarrow> bit m 5"
    by (simp_all add: poll_masks)
qed

lemma poll_mask_bits:
  "bit POLLIN n \<longleftrightarrow> n = 0" "bit POLLPRI n \<longleftrightarrow> n = 1" "bit POLLOUT n \<longleftrightarrow> n = 2"
  "bit POLLERR n \<longleftrightarrow> n = 3" "bit POLLHUP n \<longleftrightarrow> n = 4" "bit POLLNVAL n \<longleftrightarrow> n = 5"
proof -
  have pow: "POLLIN = 2 ^ 0" "POLLPRI = 2 ^ 1" "POLLOUT = 2 ^ 2" "POLLERR = 2 ^ 3" "POLLHUP = 2 ^ 4" "POLLNVAL = 2 ^ 5"
    by (simp_all add: poll_masks)
  show "bit POLLIN n \<longleftrightarrow> n = 0" "bit POLLPRI n \<longleftrightarrow> n = 1" "bit POLLOUT n \<longleftrightarrow> n = 2"
    "bit POLLERR n \<longleftrightarrow> n = 3" "bit POLLHUP n \<longleftrightarrow> n = 4" "bit POLLNVAL n \<longleftrightarrow> n = 5"
    unfolding pow bit_exp_iff by auto
qed

text \<open>The operations switch exactly the interest they name.\<close>

lemma interest [simp]:
  "isReading (enableReading ch)" "isWriting (enableReading ch) = isWriting ch"
  "isWriting (enableWriting ch)" "isReading (enableWriting ch) = isReading ch"
  "\<not> isWriting (disableWriting ch)" "isReading (disableWriting ch) = isReading ch"
  "\<not> isWriting (disableAll ch)" "\<not> isReading (disableAll ch)" "isNoneEvent (disableAll ch)"
  "\<not> isReading (new_channel fd)" "\<not> isWriting (new_channel fd)"
  by (simp_all add: isReading_def isWriting_def isNoneEvent_def enableReading_def enableWriting_def
      disableWriting_def disableAll_def new_channel_def poll_bits poll_mask_bits bit_simps)
    (simp_all add: poll_masks)

text \<open>
  A hang-up runs the close callback and then the read callback. With both masks set, data that arrived
  together with the end of the stream is read only after the connection was closed.
\<close>

lemma handleEvent_hup:
  assumes "cl_callbacks ch = {ErrorCallback, CloseCallback, ReadCallback, WriteCallback}" and "cl_revents ch = POLLIN OR POLLHUP"
  shows "handleEvent ch = [CloseCallback, ReadCallback]"
  by (simp add: handleEvent_def assms poll_masks)

end
