(* ===== verification/Poller.thy ===== *)
theory Poller
  imports Channel
begin

text \<open>
  \<^verbatim>\<open>include/Poller.h\<close>, \<^verbatim>\<open>src/EpollPoller.cpp\<close>, \<^verbatim>\<open>src/PollPoller.cpp\<close>: the two demultiplexers behind an event loop. A
  \<^verbatim>\<open>Channel*\<close> is its address, a natural number; the operations take the address and the channel it
  points to. The interest set of the kernel is part of the \<^verbatim>\<open>epoll\<close> state, the results of \<^verbatim>\<open>epoll_ctl\<close> and
  the events that \<^verbatim>\<open>epoll_wait\<close> or \<^verbatim>\<open>poll\<close> report are arguments. The locale \<open>poller\<close> is the contract the event
  loop relies on; both pollers satisfy it.
\<close>

section \<open>Event masks\<close>

definition EPOLLIN :: u32 where "EPOLLIN = 0x001"
definition EPOLLOUT :: u32 where "EPOLLOUT = 0x004"
definition EPOLLERR :: u32 where "EPOLLERR = 0x008"
definition EPOLLHUP :: u32 where "EPOLLHUP = 0x010"
definition EPOLLRDHUP :: u32 where "EPOLLRDHUP = 0x2000"
definition EPOLLET :: u32 where "EPOLLET = 0x80000000"

lemmas epoll_masks = EPOLLIN_def EPOLLOUT_def EPOLLERR_def EPOLLHUP_def EPOLLRDHUP_def EPOLLET_def

definition channelMaskToEpoll :: "u16 \<Rightarrow> u32" where
  "channelMaskToEpoll channelMask =
     (let ev = EPOLLET;
          ev = (if channelMask AND POLLIN \<noteq> 0 then ev OR (EPOLLIN OR EPOLLRDHUP) else ev)
      in if channelMask AND POLLOUT \<noteq> 0 then ev OR EPOLLOUT else ev)"

definition reventsToPollMask :: "u32 \<Rightarrow> u16" where
  "reventsToPollMask r =
     (let m = (if r AND EPOLLIN \<noteq> 0 then POLLIN else 0);
          m = (if r AND EPOLLOUT \<noteq> 0 then m OR POLLOUT else m);
          m = (if r AND EPOLLERR \<noteq> 0 then m OR POLLERR else m);
          m = (if r AND EPOLLHUP \<noteq> 0 then m OR POLLHUP else m)
      in if r AND EPOLLRDHUP \<noteq> 0 then m OR POLLHUP else m)"

section \<open>The epoll poller\<close>

record epoll =
  ep_fd :: int
  ep_bufferSize :: nat
  ep_channels :: "int \<rightharpoonup> nat"
  ep_kernel :: "int \<rightharpoonup> u32"     \<comment> \<open>the interest set behind \<^verbatim>\<open>epollFd_\<close>\<close>

definition kMinEventBatch :: nat where "kMinEventBatch = 32"

definition new_epoll :: "int \<Rightarrow> epoll" where
  "new_epoll fd = \<lparr>ep_fd = fd, ep_bufferSize = kMinEventBatch, ep_channels = Map.empty, ep_kernel = Map.empty\<rparr>"

definition ep_hasChannel :: "nat \<Rightarrow> channel \<Rightarrow> epoll \<Rightarrow> bool" where
  "ep_hasChannel a ch p \<longleftrightarrow> ep_channels p (cl_fd ch) = Some a"

text \<open>\<open>ok\<close> is whether \<^verbatim>\<open>epoll_ctl(EPOLL_CTL_ADD)\<close> succeeds.\<close>

definition ep_updateChannel :: "bool \<Rightarrow> nat \<Rightarrow> channel \<Rightarrow> epoll \<Rightarrow> epoll" where
  "ep_updateChannel ok a ch p =
     (let fd = cl_fd ch
      in if fd < 0 then p
         else if isNoneEvent ch
         then if ep_hasChannel a ch p
              then p\<lparr>ep_kernel := (ep_kernel p)(fd := None), ep_channels := (ep_channels p)(fd := None)\<rparr> else p
         else let mask = channelMaskToEpoll (cl_events ch)
              in if \<not> ep_hasChannel a ch p
                 then if \<not> ok then p
                      else p\<lparr>ep_kernel := (ep_kernel p)(fd \<mapsto> mask), ep_channels := (ep_channels p)(fd \<mapsto> a)\<rparr>
                 else p\<lparr>ep_kernel := (ep_kernel p)(fd := map_option (\<lambda>_. mask) (ep_kernel p fd))\<rparr>)"

definition ep_removeChannel :: "nat \<Rightarrow> channel \<Rightarrow> epoll \<Rightarrow> epoll" where
  "ep_removeChannel a ch p =
     (let fd = cl_fd ch
      in if fd < 0 then p
         else if \<not> ep_hasChannel a ch p then p
         else p\<lparr>ep_kernel := (ep_kernel p)(fd := None), ep_channels := (ep_channels p)(fd := None)\<rparr>)"

text \<open>\<open>events\<close> are the pairs of descriptor and event mask \<^verbatim>\<open>epoll_wait\<close> stored; the result lists the active
  channels with the mask given to \<^verbatim>\<open>setRevents\<close>.\<close>

definition ep_poll :: "(int \<times> u32) list \<Rightarrow> epoll \<Rightarrow> (nat \<times> u16) list \<times> epoll" where
  "ep_poll events p =
     (if ep_fd p < 0 \<or> events = [] then ([], p)
      else (concat (map (\<lambda>(fd, ev). case ep_channels p fd of None \<Rightarrow> [] | Some a \<Rightarrow> [(a, reventsToPollMask ev)]) events),
            if length events = ep_bufferSize p then p\<lparr>ep_bufferSize := max (ep_bufferSize p * 2) kMinEventBatch\<rparr> else p))"

section \<open>The poll poller\<close>

record poll_fd =
  pf_fd :: int
  pf_events :: u16

record ppoll =
  pp_pollFds :: "poll_fd list"
  pp_channels :: "int \<rightharpoonup> nat"

definition new_ppoll :: ppoll where
  "new_ppoll = \<lparr>pp_pollFds = [], pp_channels = Map.empty\<rparr>"

definition pp_hasChannel :: "nat \<Rightarrow> channel \<Rightarrow> ppoll \<Rightarrow> bool" where
  "pp_hasChannel a ch p \<longleftrightarrow> pp_channels p (cl_fd ch) = Some a"

text \<open>The loop over \<^verbatim>\<open>pollFds_\<close> that stops at the first entry of the descriptor.\<close>

fun set_first :: "int \<Rightarrow> u16 \<Rightarrow> poll_fd list \<Rightarrow> poll_fd list" where
  "set_first fd ev [] = []"
| "set_first fd ev (x # xs) = (if pf_fd x = fd then x\<lparr>pf_events := ev\<rparr> # xs else x # set_first fd ev xs)"

definition pp_updateChannel :: "nat \<Rightarrow> channel \<Rightarrow> ppoll \<Rightarrow> ppoll" where
  "pp_updateChannel a ch p =
     (let fd = cl_fd ch
      in if \<not> pp_hasChannel a ch p
         then p\<lparr>pp_pollFds := pp_pollFds p @ [\<lparr>pf_fd = fd, pf_events = cl_events ch\<rparr>], pp_channels := (pp_channels p)(fd \<mapsto> a)\<rparr>
         else p\<lparr>pp_pollFds := set_first fd (cl_events ch) (pp_pollFds p)\<rparr>)"

definition pp_removeChannel :: "nat \<Rightarrow> channel \<Rightarrow> ppoll \<Rightarrow> ppoll" where
  "pp_removeChannel a ch p =
     p\<lparr>pp_channels := (pp_channels p)(cl_fd ch := None), pp_pollFds := filter (\<lambda>x. pf_fd x \<noteq> cl_fd ch) (pp_pollFds p)\<rparr>"

text \<open>\<open>revents\<close> are the masks \<^verbatim>\<open>poll\<close> stored in \<^verbatim>\<open>pollFds_\<close>, one per entry, and \<open>count\<close> is its result.\<close>

fun pp_collect :: "(int \<rightharpoonup> nat) \<Rightarrow> nat \<Rightarrow> (poll_fd \<times> u16) list \<Rightarrow> (nat \<times> u16) list" where
  "pp_collect chans remaining [] = []"
| "pp_collect chans remaining ((x, r) # xs) =
     (if 0 < sint r
      then (case chans (pf_fd x) of None \<Rightarrow> [] | Some a \<Rightarrow> [(a, r)]) @
           (if remaining - 1 = 0 then [] else pp_collect chans (remaining - 1) xs)
      else pp_collect chans remaining xs)"

definition pp_poll :: "int \<Rightarrow> u16 list \<Rightarrow> ppoll \<Rightarrow> (nat \<times> u16) list" where
  "pp_poll count revents p =
     (if count \<le> 0 then [] else pp_collect (pp_channels p) (nat count) (zip (pp_pollFds p) revents))"

section \<open>What the event loop relies on\<close>

datatype poller_op = UpdateChannel nat channel | RemoveChannel nat channel

fun op_channel :: "poller_op \<Rightarrow> channel" where
  "op_channel (UpdateChannel a ch) = ch"
| "op_channel (RemoveChannel a ch) = ch"

fun op_address :: "poller_op \<Rightarrow> nat" where
  "op_address (UpdateChannel a ch) = a"
| "op_address (RemoveChannel a ch) = a"

text \<open>The interest in a descriptor: the channel that owns it, whether it wants to read and to write.\<close>

type_synonym interest = "(nat \<times> bool \<times> bool) option"

fun wanted :: "poller_op \<Rightarrow> interest" where
  "wanted (UpdateChannel a ch) = (if isNoneEvent ch then None else Some (a, isReading ch, isWriting ch))"
| "wanted (RemoveChannel a ch) = None"

text \<open>The interest that the last operation on the descriptor asked for.\<close>

definition last_wanted :: "int \<Rightarrow> poller_op list \<Rightarrow> interest" where
  "last_wanted fd ops =
     (case filter (\<lambda>x. cl_fd (op_channel x) = fd) (rev ops) of [] \<Rightarrow> None | x # _ \<Rightarrow> wanted x)"

lemma last_wanted_snoc:
  "last_wanted fd (ops @ [x]) = (if cl_fd (op_channel x) = fd then wanted x else last_wanted fd ops)"
  by (simp add: last_wanted_def)

text \<open>No two channels share a descriptor.\<close>

definition one_owner :: "poller_op list \<Rightarrow> bool" where
  "one_owner ops \<longleftrightarrow>
     (\<forall>x \<in> set ops. 0 \<le> cl_fd (op_channel x)) \<and>
     (\<forall>x \<in> set ops. \<forall>y \<in> set ops. cl_fd (op_channel x) = cl_fd (op_channel y) \<longrightarrow> op_address x = op_address y)"

lemma one_ownerD:
  "one_owner ops \<Longrightarrow> x \<in> set ops \<Longrightarrow> 0 \<le> cl_fd (op_channel x)"
  "one_owner ops \<Longrightarrow> x \<in> set ops \<Longrightarrow> y \<in> set ops \<Longrightarrow> cl_fd (op_channel x) = cl_fd (op_channel y) \<Longrightarrow>
    op_address x = op_address y"
  unfolding one_owner_def by blast+

lemma one_owner_prefix: "one_owner (ops @ [x]) \<Longrightarrow> one_owner ops"
  unfolding one_owner_def by (meson UnI1 set_append [THEN equalityD2, THEN subsetD])

fun apply_op :: "(nat \<Rightarrow> channel \<Rightarrow> 'p \<Rightarrow> 'p) \<Rightarrow> (nat \<Rightarrow> channel \<Rightarrow> 'p \<Rightarrow> 'p) \<Rightarrow> poller_op \<Rightarrow> 'p \<Rightarrow> 'p" where
  "apply_op update remove (UpdateChannel a ch) p = update a ch p"
| "apply_op update remove (RemoveChannel a ch) p = remove a ch p"

text \<open>The operation comes from the channel that owns its descriptor.\<close>

definition by_owner :: "(int \<Rightarrow> nat option) \<Rightarrow> poller_op \<Rightarrow> bool" where
  "by_owner owner x \<longleftrightarrow>
     0 \<le> cl_fd (op_channel x) \<and> (owner (cl_fd (op_channel x)) = None \<or> owner (cl_fd (op_channel x)) = Some (op_address x))"

locale poller =
  fixes update :: "nat \<Rightarrow> channel \<Rightarrow> 'p \<Rightarrow> 'p"
    and remove :: "nat \<Rightarrow> channel \<Rightarrow> 'p \<Rightarrow> 'p"
    and owner :: "'p \<Rightarrow> int \<Rightarrow> nat option"
    and interest_in :: "int \<Rightarrow> 'p \<Rightarrow> interest"
    and ok :: "'p \<Rightarrow> bool"
    and init :: 'p
  assumes init: "ok init" "owner init fd = None" "interest_in fd init = None"
    and ok_op: "ok p \<Longrightarrow> by_owner (owner p) x \<Longrightarrow> ok (apply_op update remove x p)"
    and owner_op: "owner (apply_op update remove x p) fd = Some a \<Longrightarrow>
      owner p fd = Some a \<or> cl_fd (op_channel x) = fd \<and> op_address x = a"
    and interest_op: "ok p \<Longrightarrow> by_owner (owner p) x \<Longrightarrow>
      interest_in fd (apply_op update remove x p) = (if fd = cl_fd (op_channel x) then wanted x else interest_in fd p)"
begin

lemma run_owner:
  "owner (fold (apply_op update remove) ops init) fd = Some a \<Longrightarrow> \<exists>x \<in> set ops. cl_fd (op_channel x) = fd \<and> op_address x = a"
proof (induction ops rule: rev_induct)
  case Nil
  then show ?case by (simp add: init)
next
  case (snoc x ops)
  then show ?case
    using owner_op [of x "fold (apply_op update remove) ops init" fd a] by auto
qed

lemma run_by_owner:
  assumes "one_owner (ops @ [x])"
  shows "by_owner (owner (fold (apply_op update remove) ops init)) x"
proof (cases "owner (fold (apply_op update remove) ops init) (cl_fd (op_channel x))")
  case None
  then show ?thesis using one_ownerD(1) [OF assms, of x] by (simp add: by_owner_def)
next
  case (Some a)
  from run_owner [OF this] obtain y where y: "y \<in> set ops" "cl_fd (op_channel y) = cl_fd (op_channel x)" "op_address y = a"
    by blast
  then have "op_address y = op_address x" by (intro one_ownerD(2) [OF assms]) simp_all
  then show ?thesis using one_ownerD(1) [OF assms, of x] Some y by (simp add: by_owner_def)
qed

text \<open>The kernel is told what the channels want, whatever the order of their operations.\<close>

lemma run_interest:
  "one_owner ops \<Longrightarrow> ok (fold (apply_op update remove) ops init) \<and>
    interest_in fd (fold (apply_op update remove) ops init) = last_wanted fd ops"
proof (induction ops rule: rev_induct)
  case Nil
  then show ?case by (simp add: init last_wanted_def)
next
  case (snoc x ops)
  have "one_owner ops" by (rule one_owner_prefix [OF snoc.prems])
  with snoc.IH have ok: "ok (fold (apply_op update remove) ops init)"
    and eq: "interest_in fd (fold (apply_op update remove) ops init) = last_wanted fd ops" by blast+
  show ?case
    using ok_op [OF ok run_by_owner [OF snoc.prems]] interest_op [OF ok run_by_owner [OF snoc.prems], of fd] eq
    by (simp add: last_wanted_snoc)
qed

end

section \<open>Both pollers keep it\<close>

lemma epoll_bits:
  "(m :: u32) AND EPOLLIN \<noteq> 0 \<longleftrightarrow> bit m 0" "m AND EPOLLOUT \<noteq> 0 \<longleftrightarrow> bit m 2"
  "bit EPOLLIN n \<longleftrightarrow> n = 0" "bit EPOLLOUT n \<longleftrightarrow> n = 2" "bit EPOLLRDHUP n \<longleftrightarrow> n = 13" "bit EPOLLET n \<longleftrightarrow> n = 31"
proof -
  have and_bit: "m AND 2 ^ k \<noteq> 0 \<longleftrightarrow> bit m k" if "k < 32" for k
    using that and_exp_eq_0_iff_not_bit [of m k] by simp
  have pow: "EPOLLIN = 2 ^ 0" "EPOLLOUT = 2 ^ 2" "EPOLLRDHUP = 2 ^ 13" "EPOLLET = 2 ^ 31"
    by (simp_all add: epoll_masks)
  show "m AND EPOLLIN \<noteq> 0 \<longleftrightarrow> bit m 0" "m AND EPOLLOUT \<noteq> 0 \<longleftrightarrow> bit m 2"
    unfolding pow by (simp_all only: and_bit)
  show "bit EPOLLIN n \<longleftrightarrow> n = 0" "bit EPOLLOUT n \<longleftrightarrow> n = 2" "bit EPOLLRDHUP n \<longleftrightarrow> n = 13" "bit EPOLLET n \<longleftrightarrow> n = 31"
    unfolding pow bit_exp_iff by auto
qed

text \<open>The mask given to the kernel asks for input and for output exactly when the channel does.\<close>

lemma channelMaskToEpoll_interest:
  "channelMaskToEpoll m AND EPOLLIN \<noteq> 0 \<longleftrightarrow> m AND POLLIN \<noteq> 0"
  "channelMaskToEpoll m AND EPOLLOUT \<noteq> 0 \<longleftrightarrow> m AND POLLOUT \<noteq> 0"
  unfolding epoll_bits channelMaskToEpoll_def Let_def by (simp_all add: epoll_bits bit_or_iff)

definition ep_ok :: "epoll \<Rightarrow> bool" where
  "ep_ok p \<longleftrightarrow> (\<forall>fd. ep_channels p fd = None \<longleftrightarrow> ep_kernel p fd = None)"

definition ep_interest :: "int \<Rightarrow> epoll \<Rightarrow> interest" where
  "ep_interest fd p =
     (case (ep_channels p fd, ep_kernel p fd) of
        (Some a, Some m) \<Rightarrow> Some (a, m AND EPOLLIN \<noteq> 0, m AND EPOLLOUT \<noteq> 0)
      | _ \<Rightarrow> None)"

lemmas ep_defs = ep_updateChannel_def ep_removeChannel_def ep_hasChannel_def Let_def

interpretation ep: poller "ep_updateChannel True" ep_removeChannel ep_channels ep_interest ep_ok "new_epoll fd" for fd
proof unfold_locales
  fix p x fd' a
  show "ep_channels (apply_op (ep_updateChannel True) ep_removeChannel x p) fd' = Some a \<Longrightarrow>
      ep_channels p fd' = Some a \<or> cl_fd (op_channel x) = fd' \<and> op_address x = a"
    by (cases x) (auto simp: ep_defs split: if_splits)
  assume "ep_ok p" and "by_owner (ep_channels p) x"
  then show "ep_ok (apply_op (ep_updateChannel True) ep_removeChannel x p)"
    by (cases x) (auto simp: ep_defs ep_ok_def by_owner_def split: if_splits)
  have iff: "ep_channels p (cl_fd (op_channel x)) = None \<longleftrightarrow> ep_kernel p (cl_fd (op_channel x)) = None"
    using \<open>ep_ok p\<close> by (simp add: ep_ok_def)
  show "ep_interest fd' (apply_op (ep_updateChannel True) ep_removeChannel x p) =
      (if fd' = cl_fd (op_channel x) then wanted x else ep_interest fd' p)"
    using iff \<open>by_owner (ep_channels p) x\<close>
    by (cases x) (auto simp: ep_defs ep_interest_def by_owner_def isReading_def isWriting_def
        channelMaskToEpoll_interest split: option.splits)
qed (simp_all add: new_epoll_def ep_ok_def ep_interest_def)

definition pp_ok :: "ppoll \<Rightarrow> bool" where
  "pp_ok p \<longleftrightarrow> distinct (map pf_fd (pp_pollFds p)) \<and> (\<forall>fd. pp_channels p fd = None \<longleftrightarrow> fd \<notin> set (map pf_fd (pp_pollFds p)))"

text \<open>\<^verbatim>\<open>poll\<close> watches an entry without events, too, but reports only errors and hang-ups for it.\<close>

definition pp_interest :: "int \<Rightarrow> ppoll \<Rightarrow> interest" where
  "pp_interest fd p =
     (case (pp_channels p fd, filter (\<lambda>x. pf_fd x = fd) (pp_pollFds p)) of
        (Some a, x # _) \<Rightarrow>
          if pf_events x = 0 then None else Some (a, pf_events x AND POLLIN \<noteq> 0, pf_events x AND POLLOUT \<noteq> 0)
      | _ \<Rightarrow> None)"

lemma set_first_fds [simp]: "map pf_fd (set_first fd ev xs) = map pf_fd xs"
  by (induction xs) simp_all

lemma filter_set_first:
  "filter (\<lambda>x. pf_fd x = fd') (set_first fd ev xs) =
     (if fd' = fd then set_first fd ev (filter (\<lambda>x. pf_fd x = fd) xs) else filter (\<lambda>x. pf_fd x = fd') xs)"
  by (induction xs) auto

lemma filter_fd_nonempty: "fd \<in> set (map pf_fd xs) \<Longrightarrow> \<exists>y ys. filter (\<lambda>x. pf_fd x = fd) xs = y # ys \<and> pf_fd y = fd"
  by (induction xs) auto

lemmas pp_defs = pp_updateChannel_def pp_removeChannel_def pp_hasChannel_def Let_def

interpretation pp: poller pp_updateChannel pp_removeChannel pp_channels pp_interest pp_ok new_ppoll
proof unfold_locales
  fix p x fd' a
  show "pp_channels (apply_op pp_updateChannel pp_removeChannel x p) fd' = Some a \<Longrightarrow>
      pp_channels p fd' = Some a \<or> cl_fd (op_channel x) = fd' \<and> op_address x = a"
    by (cases x) (auto simp: pp_defs split: if_splits)
  assume ok: "pp_ok p" and own: "by_owner (pp_channels p) x"
  show "pp_ok (apply_op pp_updateChannel pp_removeChannel x p)"
  proof (cases x)
    case (UpdateChannel a ch)
    then show ?thesis
      using ok own by (auto simp: pp_defs pp_ok_def by_owner_def simp del: set_map)
  next
    case (RemoveChannel a ch)
    then show ?thesis
      using ok by (auto simp: pp_defs pp_ok_def distinct_map_filter)
  qed
  have mem: "pp_channels p (cl_fd (op_channel x)) = None \<longleftrightarrow> cl_fd (op_channel x) \<notin> set (map pf_fd (pp_pollFds p))"
    using ok by (simp add: pp_ok_def)
  show "pp_interest fd' (apply_op pp_updateChannel pp_removeChannel x p) =
      (if fd' = cl_fd (op_channel x) then wanted x else pp_interest fd' p)"
  proof (cases x)
    case (UpdateChannel a ch)
    show ?thesis
    proof (cases "pp_channels p (cl_fd ch)")
      case None
      with mem UpdateChannel have "filter (\<lambda>x. pf_fd x = cl_fd ch) (pp_pollFds p) = []"
        by (metis (mono_tags, lifting) filter_empty_conv image_eqI list.set_map op_channel.simps(1))
      then show ?thesis
        using UpdateChannel None
        by (cases "pp_channels p fd'")
          (auto simp: pp_defs pp_interest_def isNoneEvent_def isReading_def isWriting_def)
    next
      case (Some b)
      with own UpdateChannel have "b = a" by (simp add: by_owner_def)
      from Some mem UpdateChannel obtain y ys where
        "filter (\<lambda>x. pf_fd x = cl_fd ch) (pp_pollFds p) = y # ys" "pf_fd y = cl_fd ch"
        using filter_fd_nonempty [of "cl_fd ch" "pp_pollFds p"] by auto
      then show ?thesis
        using UpdateChannel Some \<open>b = a\<close>
        by (simp add: pp_defs pp_interest_def filter_set_first isNoneEvent_def isReading_def isWriting_def)
    qed
  next
    case (RemoveChannel a ch)
    have "filter (\<lambda>x. pf_fd x = fd') (filter (\<lambda>x. pf_fd x \<noteq> cl_fd ch) (pp_pollFds p)) =
        (if fd' = cl_fd ch then [] else filter (\<lambda>x. pf_fd x = fd') (pp_pollFds p))"
      by (auto simp: filter_empty_conv intro: filter_cong)
    then show ?thesis
      using RemoveChannel by (simp add: pp_defs pp_interest_def del: filter_filter)
  qed
qed (simp_all add: new_ppoll_def pp_ok_def pp_interest_def)

section \<open>Stale channels\<close>

text \<open>
  The descriptor of a closed channel may be reused by a new one before the old channel is removed, since
  \<^verbatim>\<open>TcpServer\<close> removes channels with a task queued on the loop. Removing the old channel then leaves the
  new one alone with \<^verbatim>\<open>epoll\<close>, whose \<^verbatim>\<open>removeChannel\<close> checks the owner, but unregisters it with \<^verbatim>\<open>poll\<close>.
\<close>

lemma ep_remove_stale: "ep_channels p (cl_fd old) = Some b \<Longrightarrow> a \<noteq> b \<Longrightarrow> ep_removeChannel a old p = p"
  by (simp add: ep_defs)

theorem poll_remove_stale:
  assumes "a \<noteq> b" and "cl_fd new = cl_fd old" and "\<not> isNoneEvent new"
  shows "pp_interest (cl_fd new) (pp_updateChannel b new (pp_removeChannel a old new_ppoll)) =
      Some (b, isReading new, isWriting new)"
    and "pp_interest (cl_fd new) (pp_removeChannel a old (pp_updateChannel b new new_ppoll)) = None"
  using assms by (simp_all add: pp_defs pp_interest_def new_ppoll_def isNoneEvent_def isReading_def isWriting_def)

section \<open>Properties\<close>



end
