(* ===== verification/EventLoop.thy ===== *)
theory EventLoop
  imports OrderedMap
begin

text \<open>
  \<^verbatim>\<open>include/EventLoop.h\<close>, \<^verbatim>\<open>src/EventLoop.cpp\<close>: the reactor. The state holds the pending functors, the timers and
  the number of unread bytes of the wakeup pipe, whose capacity \<open>cap\<close> is a parameter. A functor is a user
  callback or one of the closures the class queues for itself. What a user callback \<open>u\<close> does to the
  loop is given by the parameter \<open>acts\<close>: the operations it calls, in order, in the state it finds; a
  \<^verbatim>\<open>runInLoop\<close> it makes runs at once, so its operations are part of the list. Every function returns
  the events it logs: functors queued and run, timers fired. Clock readings are arguments.
\<close>

section \<open>State\<close>

datatype 'u loop_fn = User 'u | AddTimer bool int "'u option" | EraseTimer u64

record 'u timer_task =
  tt_id :: u64
  tt_expiresAt :: time
  tt_interval :: int          \<comment> \<open>milliseconds\<close>
  tt_cb :: "'u option"
  tt_repeat :: bool

record 'u evloop =
  el_looping :: bool
  el_quit :: bool
  el_pending :: "'u loop_fn list"
  el_calling :: bool
  el_nextTimerId :: u64
  el_timers :: "(u64, 'u timer_task) omap"
  el_pipe :: nat

datatype 'u log_event = Queued "'u loop_fn" | Ran "'u loop_fn" | Fired u64

type_synonym 'u logged = "'u evloop \<times> 'u log_event list"

definition new_evloop :: "'u evloop" where
  "new_evloop = \<lparr>el_looping = False, el_quit = False, el_pending = [], el_calling = False, el_nextTimerId = 1,
     el_timers = [], el_pipe = 0\<rparr>"

section \<open>Operations\<close>

text \<open>A write to a full pipe fails, which is logged and ignored.\<close>

definition wakeup :: "nat \<Rightarrow> 'u evloop \<Rightarrow> 'u evloop" where
  "wakeup cap lp = (if el_pipe lp < cap then lp\<lparr>el_pipe := el_pipe lp + 1\<rparr> else lp)"

text \<open>On Linux the pipe is read until it is empty.\<close>

definition handleWakeupRead :: "'u evloop \<Rightarrow> 'u evloop" where
  "handleWakeupRead lp = lp\<lparr>el_pipe := 0\<rparr>"

text \<open>The two halves of \<^verbatim>\<open>queueInLoop\<close>: the critical section, and the wakeup after it.\<close>

definition push_functor :: "'u loop_fn \<Rightarrow> 'u evloop \<Rightarrow> 'u evloop" where
  "push_functor f lp = lp\<lparr>el_pending := el_pending lp @ [f]\<rparr>"

definition wake_for :: "nat \<Rightarrow> bool \<Rightarrow> 'u evloop \<Rightarrow> 'u evloop" where
  "wake_for cap inLoopThread lp = (if \<not> inLoopThread \<or> el_calling lp then wakeup cap lp else lp)"

definition queueInLoop :: "nat \<Rightarrow> bool \<Rightarrow> 'u loop_fn \<Rightarrow> 'u evloop \<Rightarrow> 'u evloop" where
  "queueInLoop cap inLoopThread f lp = wake_for cap inLoopThread (push_functor f lp)"

definition quit :: "nat \<Rightarrow> bool \<Rightarrow> 'u evloop \<Rightarrow> 'u evloop" where
  "quit cap inLoopThread lp = (let lp1 = lp\<lparr>el_quit := True\<rparr> in if \<not> inLoopThread then wakeup cap lp1 else lp1)"

text \<open>The body that \<^verbatim>\<open>runAfter\<close> (\<open>repeat\<close> false) and \<^verbatim>\<open>runEvery\<close> (\<open>repeat\<close> true) run on the loop thread.\<close>

definition add_timer :: "time \<Rightarrow> bool \<Rightarrow> int \<Rightarrow> 'u option \<Rightarrow> 'u evloop \<Rightarrow> u64 \<times> 'u evloop" where
  "add_timer now repeat delay cb lp =
     (let i = el_nextTimerId lp;
          task = \<lparr>tt_id = i, tt_expiresAt = now + msec delay, tt_interval = delay, tt_cb = cb, tt_repeat = repeat\<rparr>
      in (i, lp\<lparr>el_nextTimerId := i + 1, el_timers := omap_put i task (el_timers lp)\<rparr>))"

text \<open>From another thread the same body is queued, and the caller waits for the id.\<close>

definition runAfter :: "nat \<Rightarrow> bool \<Rightarrow> time \<Rightarrow> int \<Rightarrow> 'u option \<Rightarrow> 'u evloop \<Rightarrow> 'u evloop" where
  "runAfter cap inLoopThread now delay cb lp =
     (if inLoopThread then snd (add_timer now False delay cb lp) else queueInLoop cap False (AddTimer False delay cb) lp)"

definition runEvery :: "nat \<Rightarrow> bool \<Rightarrow> time \<Rightarrow> int \<Rightarrow> 'u option \<Rightarrow> 'u evloop \<Rightarrow> 'u evloop" where
  "runEvery cap inLoopThread now interval cb lp =
     (if inLoopThread then snd (add_timer now True interval cb lp) else queueInLoop cap False (AddTimer True interval cb) lp)"

definition erase_timer :: "u64 \<Rightarrow> 'u evloop \<Rightarrow> 'u evloop" where
  "erase_timer timerId lp = lp\<lparr>el_timers := omap_erase timerId (el_timers lp)\<rparr>"

definition cancelTimer :: "nat \<Rightarrow> bool \<Rightarrow> u64 \<Rightarrow> 'u evloop \<Rightarrow> 'u evloop" where
  "cancelTimer cap inLoopThread timerId lp =
     (if inLoopThread then erase_timer timerId lp else queueInLoop cap False (EraseTimer timerId) lp)"

definition pendingSize :: "'u evloop \<Rightarrow> nat" where
  "pendingSize lp = length (el_pending lp)"

section \<open>Callbacks\<close>

datatype 'u action =
    ActQueue "'u loop_fn"
  | ActTimer time bool int "'u option"
  | ActCancel u64
  | ActQuit

type_synonym 'u behaviour = "'u \<Rightarrow> 'u evloop \<Rightarrow> 'u action list"

text \<open>One operation that a callback makes on the loop thread.\<close>

fun perform :: "nat \<Rightarrow> 'u action \<Rightarrow> 'u evloop \<Rightarrow> 'u logged" where
  "perform cap (ActQueue f) lp = (queueInLoop cap True f lp, [Queued f])"
| "perform cap (ActTimer now repeat delay cb) lp = (snd (add_timer now repeat delay cb lp), [])"
| "perform cap (ActCancel i) lp = (erase_timer i lp, [])"
| "perform cap ActQuit lp = (quit cap True lp, [])"

fun perform_all :: "nat \<Rightarrow> 'u action list \<Rightarrow> 'u evloop \<Rightarrow> 'u logged" where
  "perform_all cap [] lp = (lp, [])"
| "perform_all cap (a # as) lp =
     (let (lp1, l1) = perform cap a lp; (lp2, l2) = perform_all cap as lp1 in (lp2, l1 @ l2))"

definition run_user :: "nat \<Rightarrow> 'u behaviour \<Rightarrow> 'u \<Rightarrow> 'u evloop \<Rightarrow> 'u logged" where
  "run_user cap acts u lp = perform_all cap (acts u lp) lp"

fun run_functor :: "nat \<Rightarrow> 'u behaviour \<Rightarrow> time \<Rightarrow> 'u loop_fn \<Rightarrow> 'u evloop \<Rightarrow> 'u logged" where
  "run_functor cap acts now (User u) lp = run_user cap acts u lp"
| "run_functor cap acts now (AddTimer repeat delay cb) lp = (snd (add_timer now repeat delay cb lp), [])"
| "run_functor cap acts now (EraseTimer i) lp = (erase_timer i lp, [])"

section \<open>One turn of the loop\<close>

text \<open>\<open>clk i\<close> is the clock while the \<open>i\<close>-th functor runs.\<close>

fun run_functors :: "nat \<Rightarrow> 'u behaviour \<Rightarrow> (nat \<Rightarrow> time) \<Rightarrow> nat \<Rightarrow> 'u loop_fn list \<Rightarrow> 'u evloop \<Rightarrow> 'u logged" where
  "run_functors cap acts clk i [] lp = (lp, [])"
| "run_functors cap acts clk i (f # fs) lp =
     (let (lp1, l1) = run_functor cap acts (clk i) f lp;
          (lp2, l2) = run_functors cap acts clk (Suc i) fs lp1
      in (lp2, Ran f # l1 @ l2))"

definition doPendingFunctors :: "nat \<Rightarrow> 'u behaviour \<Rightarrow> (nat \<Rightarrow> time) \<Rightarrow> 'u evloop \<Rightarrow> 'u logged" where
  "doPendingFunctors cap acts clk lp =
     (let (lp1, l) = run_functors cap acts clk 0 (el_pending lp) (lp\<lparr>el_calling := True, el_pending := []\<rparr>)
      in (lp1\<lparr>el_calling := False\<rparr>, l))"

text \<open>\<^verbatim>\<open>if (it->second.cb) it->second.cb()\<close>\<close>

definition run_timer_cb :: "nat \<Rightarrow> 'u behaviour \<Rightarrow> 'u timer_task \<Rightarrow> 'u evloop \<Rightarrow> 'u logged" where
  "run_timer_cb cap acts t lp = (case tt_cb t of None \<Rightarrow> (lp, []) | Some u \<Rightarrow> run_user cap acts u lp)"

text \<open>
  The expired tasks are copied first; each is then looked up again. After its callback the iterator is
  used once more: \<open>None\<close> is the undefined behaviour when the callback erased the entry. \<open>clk i\<close> is
  the clock read to reschedule the \<open>i\<close>-th task.
\<close>

fun run_expired :: "nat \<Rightarrow> 'u behaviour \<Rightarrow> (nat \<Rightarrow> time) \<Rightarrow> nat \<Rightarrow> 'u timer_task list \<Rightarrow> 'u evloop \<Rightarrow> 'u logged option" where
  "run_expired cap acts clk i [] lp = Some (lp, [])"
| "run_expired cap acts clk i (task # ts) lp =
     (case omap_find (tt_id task) (el_timers lp) of
        None \<Rightarrow> run_expired cap acts clk (Suc i) ts lp
      | Some t \<Rightarrow>
          let (lp1, l1) = run_timer_cb cap acts t lp
          in case omap_find (tt_id task) (el_timers lp1) of
               None \<Rightarrow> None
             | Some t1 \<Rightarrow>
                 let lp2 = (if tt_repeat t1
                            then lp1\<lparr>el_timers := omap_put (tt_id task) (t1\<lparr>tt_expiresAt := clk i + msec (tt_interval t1)\<rparr>)
                                      (el_timers lp1)\<rparr>
                            else lp1\<lparr>el_timers := omap_erase (tt_id task) (el_timers lp1)\<rparr>)
                 in map_option (\<lambda>(lp3, l2). (lp3, Fired (tt_id task) # l1 @ l2)) (run_expired cap acts clk (Suc i) ts lp2))"

definition expired_tasks :: "time \<Rightarrow> 'u evloop \<Rightarrow> 'u timer_task list" where
  "expired_tasks now lp = map snd (filter (\<lambda>kv. tt_expiresAt (snd kv) \<le> now) (el_timers lp))"

definition runTimers :: "nat \<Rightarrow> 'u behaviour \<Rightarrow> time \<Rightarrow> (nat \<Rightarrow> time) \<Rightarrow> 'u evloop \<Rightarrow> 'u logged option" where
  "runTimers cap acts now clk lp = run_expired cap acts clk 0 (expired_tasks now lp) lp"

definition kDefaultPollTimeoutMs :: int where
  "kDefaultPollTimeoutMs = 10000"

definition nearest_deadline :: "'u evloop \<Rightarrow> time" where
  "nearest_deadline lp =
     foldl (\<lambda>nearest kv. if tt_expiresAt (snd kv) < nearest then tt_expiresAt (snd kv) else nearest)
       (tt_expiresAt (snd (hd (el_timers lp)))) (el_timers lp)"

definition getPollTimeoutMs :: "time \<Rightarrow> 'u evloop \<Rightarrow> int" where
  "getPollTimeoutMs now lp =
     (if el_timers lp = [] then kDefaultPollTimeoutMs
      else let nearest = nearest_deadline lp
           in if nearest \<le> now then 0
              else let m = to_ms (nearest - now) in if m > kDefaultPollTimeoutMs then kDefaultPollTimeoutMs else m)"

text \<open>What the active channels of a poll do: the wakeup channel drains the pipe, the others run callbacks.\<close>

datatype 'u channel_event = WakeupReadable | ChannelEvent 'u

fun handle_events :: "nat \<Rightarrow> 'u behaviour \<Rightarrow> 'u channel_event list \<Rightarrow> 'u evloop \<Rightarrow> 'u logged" where
  "handle_events cap acts [] lp = (lp, [])"
| "handle_events cap acts (WakeupReadable # es) lp = handle_events cap acts es (handleWakeupRead lp)"
| "handle_events cap acts (ChannelEvent u # es) lp =
     (let (lp1, l1) = run_user cap acts u lp; (lp2, l2) = handle_events cap acts es lp1 in (lp2, l1 @ l2))"

text \<open>What the environment contributes to a turn: the events of the poll and the clock readings.\<close>

record 'u turn =
  tn_events :: "'u channel_event list"
  tn_functorClock :: "nat \<Rightarrow> time"
  tn_now :: time
  tn_timerClock :: "nat \<Rightarrow> time"

definition loop_turn :: "nat \<Rightarrow> 'u behaviour \<Rightarrow> 'u turn \<Rightarrow> 'u evloop \<Rightarrow> 'u logged option" where
  "loop_turn cap acts tn lp =
     (let (lp1, l1) = handle_events cap acts (tn_events tn) lp;
          (lp2, l2) = doPendingFunctors cap acts (tn_functorClock tn) lp1
      in map_option (\<lambda>(lp3, l3). (lp3, l1 @ l2 @ l3)) (runTimers cap acts (tn_now tn) (tn_timerClock tn) lp2))"

text \<open>
  \<^verbatim>\<open>loop()\<close>: turns until \<^verbatim>\<open>quit_\<close> is seen. Between two turns other threads may queue functors; \<open>remote\<close>
  lists them. The recursion ends with the list of turns.
\<close>

fun loop_turns :: "nat \<Rightarrow> 'u behaviour \<Rightarrow> ('u loop_fn list \<times> 'u turn) list \<Rightarrow> 'u evloop \<Rightarrow> 'u logged option" where
  "loop_turns cap acts [] lp = Some (lp, [])"
| "loop_turns cap acts ((remote, tn) # tns) lp =
     (if el_quit lp then Some (lp\<lparr>el_looping := False\<rparr>, [])
      else let lp1 = fold (queueInLoop cap False) remote lp
           in case loop_turn cap acts tn lp1 of
                None \<Rightarrow> None
              | Some (lp2, l1) \<Rightarrow>
                  map_option (\<lambda>(lp3, l2). (lp3, map Queued remote @ l1 @ l2)) (loop_turns cap acts tns lp2))"

definition loop :: "nat \<Rightarrow> 'u behaviour \<Rightarrow> ('u loop_fn list \<times> 'u turn) list \<Rightarrow> 'u evloop \<Rightarrow> 'u logged option" where
  "loop cap acts tns lp = loop_turns cap acts tns (lp\<lparr>el_looping := True, el_quit := False\<rparr>)"

section \<open>Functors run in the order they were queued\<close>

fun ran_of :: "'u log_event \<Rightarrow> 'u loop_fn list" where
  "ran_of (Ran f) = [f]" | "ran_of _ = []"

fun queued_of :: "'u log_event \<Rightarrow> 'u loop_fn list" where
  "queued_of (Queued f) = [f]" | "queued_of _ = []"

fun fired_of :: "'u log_event \<Rightarrow> u64 list" where
  "fired_of (Fired i) = [i]" | "fired_of _ = []"

definition rans :: "'u log_event list \<Rightarrow> 'u loop_fn list" where "rans l = concat (map ran_of l)"
definition queueds :: "'u log_event list \<Rightarrow> 'u loop_fn list" where "queueds l = concat (map queued_of l)"
definition fireds :: "'u log_event list \<Rightarrow> u64 list" where "fireds l = concat (map fired_of l)"

lemma log_simps [simp]:
  "rans [] = []" "rans (x # l) = ran_of x @ rans l" "rans (l1 @ l2) = rans l1 @ rans l2"
  "queueds [] = []" "queueds (x # l) = queued_of x @ queueds l" "queueds (l1 @ l2) = queueds l1 @ queueds l2"
  "fireds [] = []" "fireds (x # l) = fired_of x @ fireds l" "fireds (l1 @ l2) = fireds l1 @ fireds l2"
  by (simp_all add: rans_def queueds_def fireds_def)

lemma log_map_Queued [simp]: "rans (map Queued fs) = []" "queueds (map Queued fs) = fs" "fireds (map Queued fs) = []"
  by (induction fs) simp_all

text \<open>The functors that ran, followed by those that still wait, are those that waited, followed by those queued.\<close>

definition fifo :: "'u evloop \<Rightarrow> 'u logged \<Rightarrow> bool" where
  "fifo lp res \<longleftrightarrow> rans (snd res) @ el_pending (fst res) = el_pending lp @ queueds (snd res)"

text \<open>A callback runs no functor and only appends to the queue.\<close>

definition only_queues :: "'u evloop \<Rightarrow> 'u logged \<Rightarrow> bool" where
  "only_queues lp res \<longleftrightarrow>
     rans (snd res) = [] \<and> fireds (snd res) = [] \<and> el_pending (fst res) = el_pending lp @ queueds (snd res)"

lemma fifo_seq: "fifo lp (lp1, l1) \<Longrightarrow> fifo lp1 (lp2, l2) \<Longrightarrow> fifo lp (lp2, l1 @ l2)"
  by (auto simp: fifo_def)

lemma only_queues_seq: "only_queues lp (lp1, l1) \<Longrightarrow> only_queues lp1 (lp2, l2) \<Longrightarrow> only_queues lp (lp2, l1 @ l2)"
  by (simp add: only_queues_def)

lemma only_queues_fifo: "only_queues lp res \<Longrightarrow> fifo lp res"
  by (simp add: only_queues_def fifo_def)

lemma queue_pending [simp]:
  "el_pending (queueInLoop cap b f lp) = el_pending lp @ [f]" "el_pending (wakeup cap lp) = el_pending lp"
  "el_timers (queueInLoop cap b f lp) = el_timers lp" "el_nextTimerId (queueInLoop cap b f lp) = el_nextTimerId lp"
  by (simp_all add: queueInLoop_def wake_for_def push_functor_def wakeup_def)

lemma perform_only_queues: "only_queues lp (perform cap a lp)"
  by (cases a) (simp_all add: only_queues_def add_timer_def erase_timer_def quit_def Let_def)

lemma perform_all_only_queues: "only_queues lp (perform_all cap as lp)"
proof (induction as arbitrary: lp)
  case Nil
  then show ?case by (simp add: only_queues_def)
next
  case (Cons a as)
  show ?case
    using only_queues_seq [of lp "fst (perform cap a lp)" "snd (perform cap a lp)"] perform_only_queues [of lp cap a]
      Cons.IH [of "fst (perform cap a lp)"]
    by (simp add: split_beta Let_def)
qed

lemma run_user_only_queues: "only_queues lp (run_user cap acts u lp)"
  by (simp add: run_user_def perform_all_only_queues)

lemma run_timer_cb_only_queues: "only_queues lp (run_timer_cb cap acts t lp)"
  by (simp add: run_timer_cb_def run_user_only_queues only_queues_def [of lp "(lp, [])"] split: option.split)

lemma run_functor_only_queues: "only_queues lp (run_functor cap acts now f lp)"
  by (cases f) (simp_all add: run_user_only_queues only_queues_def [of lp "(_, [])"] add_timer_def erase_timer_def Let_def)

lemma run_functors_log:
  "run_functors cap acts clk i fs lp = (lp', l) \<Longrightarrow>
    rans l = fs \<and> fireds l = [] \<and> el_pending lp' = el_pending lp @ queueds l"
proof (induction fs arbitrary: i lp lp' l)
  case (Cons f fs)
  obtain lp1 l1 where r1: "run_functor cap acts (clk i) f lp = (lp1, l1)" by fastforce
  obtain lp2 l2 where r2: "run_functors cap acts clk (Suc i) fs lp1 = (lp2, l2)" by fastforce
  show ?case
    using Cons.prems Cons.IH [OF r2] run_functor_only_queues [of lp cap acts "clk i" f] r1 r2
    by (auto simp: only_queues_def)
qed simp

lemma doPendingFunctors_log:
  "doPendingFunctors cap acts clk lp = (lp', l) \<Longrightarrow> rans l = el_pending lp \<and> fireds l = [] \<and> el_pending lp' = queueds l"
  using run_functors_log [of cap acts clk 0 "el_pending lp" "lp\<lparr>el_calling := True, el_pending := []\<rparr>"]
  by (auto simp: doPendingFunctors_def Let_def split: prod.splits)

lemma run_expired_fifo:
  "run_expired cap acts clk i ts lp = Some (lp', l) \<Longrightarrow> rans l = [] \<and> el_pending lp' = el_pending lp @ queueds l"
proof (induction ts arbitrary: i lp lp' l)
  case (Cons task ts)
  show ?case
  proof (cases "omap_find (tt_id task) (el_timers lp)")
    case None
    then show ?thesis using Cons by simp
  next
    case (Some t)
    obtain lp1 l1 where r: "run_timer_cb cap acts t lp = (lp1, l1)" by fastforce
    with run_timer_cb_only_queues [of lp cap acts t] have "only_queues lp (lp1, l1)" by simp
    then show ?thesis
      using Cons.prems Some r Cons.IH [of "Suc i" "lp1\<lparr>el_timers := _\<rparr>"]
      by (auto simp: only_queues_def Let_def split: option.splits if_splits)
  qed
qed simp

lemma handle_events_fifo: "only_queues lp (handle_events cap acts es lp)"
proof (induction es arbitrary: lp)
  case Nil
  then show ?case by (simp add: only_queues_def)
next
  case (Cons x es)
  show ?case
  proof (cases x)
    case WakeupReadable
    then show ?thesis
      using Cons.IH [of "handleWakeupRead lp"] by (simp add: only_queues_def handleWakeupRead_def)
  next
    case (ChannelEvent u)
    then show ?thesis
      using only_queues_seq [of lp "fst (run_user cap acts u lp)" "snd (run_user cap acts u lp)"]
        run_user_only_queues [of lp cap acts u] Cons.IH [of "fst (run_user cap acts u lp)"]
      by (simp add: split_beta Let_def)
  qed
qed

text \<open>A turn runs everything that was waiting when it began; what is queued during the turn may wait.\<close>

lemma loop_turn_log:
  assumes "loop_turn cap acts tn lp = Some (lp', l)"
  shows "fifo lp (lp', l) \<and> (\<exists>more. rans l = el_pending lp @ more)"
proof -
  obtain lp1 l1 where h: "handle_events cap acts (tn_events tn) lp = (lp1, l1)" by fastforce
  obtain lp2 l2 where d: "doPendingFunctors cap acts (tn_functorClock tn) lp1 = (lp2, l2)" by fastforce
  obtain l3 where t: "runTimers cap acts (tn_now tn) (tn_timerClock tn) lp2 = Some (lp', l3)" and l: "l = l1 @ l2 @ l3"
    using assms h d by (auto simp: loop_turn_def Let_def)
  show ?thesis
    using handle_events_fifo [of lp cap acts "tn_events tn"] h doPendingFunctors_log [OF d]
      run_expired_fifo [OF t [unfolded runTimers_def]] l
    by (simp add: fifo_def only_queues_def)
qed

lemma loop_turns_fifo: "loop_turns cap acts tns lp = Some (lp', l) \<Longrightarrow> fifo lp (lp', l)"
proof (induction tns arbitrary: lp lp' l)
  case Nil
  then show ?case by (simp add: fifo_def)
next
  case (Cons x tns)
  obtain remote tn where x: "x = (remote, tn)" by (cases x)
  let ?lp1 = "fold (queueInLoop cap False) remote lp"
  have q: "el_pending (fold (queueInLoop cap False) fs lp0) = el_pending lp0 @ fs" for fs and lp0 :: "'a evloop"
    by (induction fs arbitrary: lp0) simp_all
  show ?case
  proof (cases "el_quit lp")
    case False
    then obtain lp2 l1 l2 where t: "loop_turn cap acts tn ?lp1 = Some (lp2, l1)"
      and r: "loop_turns cap acts tns lp2 = Some (lp', l2)" and l: "l = map Queued remote @ l1 @ l2"
      using Cons.prems x by (auto split: option.splits)
    have "fifo ?lp1 (lp', l1 @ l2)"
      using fifo_seq [OF _ Cons.IH [OF r]] loop_turn_log [OF t] by blast
    then show ?thesis by (simp add: fifo_def l q)
  qed (use Cons.prems x in \<open>auto simp: fifo_def\<close>)
qed

section \<open>Timers\<close>

text \<open>Timers are stored under their id, and ids are given out in increasing order.\<close>

definition timers_ok :: "'u evloop \<Rightarrow> bool" where
  "timers_ok lp \<longleftrightarrow>
     omap_ok (el_timers lp) \<and>
     (\<forall>i t. omap_find i (el_timers lp) = Some t \<longrightarrow> tt_id t = i \<and> i < el_nextTimerId lp)"

fun adds_timer :: "'u action \<Rightarrow> bool" where
  "adds_timer (ActTimer now repeat delay cb) \<longleftrightarrow> True" | "adds_timer _ \<longleftrightarrow> False"

fun cancels_timer :: "'u action \<Rightarrow> bool" where
  "cancels_timer (ActCancel i) \<longleftrightarrow> True" | "cancels_timer _ \<longleftrightarrow> False"

definition added :: "'u action list \<Rightarrow> nat" where
  "added as = length (filter adds_timer as)"

text \<open>Callbacks that cancel no timer and add at most \<open>n\<close> each.\<close>

definition tame :: "nat \<Rightarrow> 'u behaviour \<Rightarrow> bool" where
  "tame n acts \<longleftrightarrow> (\<forall>u lp. (\<forall>a \<in> set (acts u lp). \<not> cancels_timer a) \<and> added (acts u lp) \<le> n)"

text \<open>
  The timers below \<open>i0\<close> are as in the old state, and the ids given out so far leave room.
\<close>

definition keeps_timers :: "u64 \<Rightarrow> 'u evloop \<Rightarrow> 'u evloop \<Rightarrow> nat \<Rightarrow> bool" where
  "keeps_timers i0 lp lp' n \<longleftrightarrow>
     timers_ok lp' \<and> unat (el_nextTimerId lp') \<le> unat (el_nextTimerId lp) + n \<and> el_nextTimerId lp \<le> el_nextTimerId lp' \<and>
     (\<forall>i < i0. omap_find i (el_timers lp') = omap_find i (el_timers lp))"

lemma keeps_timers_refl: "timers_ok lp \<Longrightarrow> keeps_timers i0 lp lp 0"
  by (simp add: keeps_timers_def)

lemma keeps_timers_trans:
  "keeps_timers i0 lp lp1 m \<Longrightarrow> keeps_timers i0 lp1 lp2 n \<Longrightarrow> keeps_timers i0 lp lp2 (m + n)"
  by (auto simp: keeps_timers_def)

lemma add_timer_keeps:
  assumes "timers_ok lp" and "i0 \<le> el_nextTimerId lp" and "unat (el_nextTimerId lp) + 1 < 2 ^ 64"
  shows "keeps_timers i0 lp (snd (add_timer now repeat delay cb lp)) 1"
proof -
  have u: "unat (el_nextTimerId lp + 1) = unat (el_nextTimerId lp) + 1"
    using assms(3) by (simp add: unat_word_ariths)
  then have lt: "el_nextTimerId lp < el_nextTimerId lp + 1" by (simp add: word_less_nat_alt)
  show ?thesis
    using assms lt u
    by (auto simp: keeps_timers_def timers_ok_def add_timer_def Let_def intro: less_trans less_imp_le)
qed

lemma perform_keeps:
  assumes "timers_ok lp" and "i0 \<le> el_nextTimerId lp" and "\<not> cancels_timer a"
    and "unat (el_nextTimerId lp) + added [a] < 2 ^ 64"
  shows "keeps_timers i0 lp (fst (perform cap a lp)) (added [a])"
  using assms add_timer_keeps [OF assms(1,2)]
  by (cases a) (auto simp: added_def keeps_timers_def timers_ok_def quit_def Let_def)

lemma perform_all_keeps:
  "timers_ok lp \<Longrightarrow> i0 \<le> el_nextTimerId lp \<Longrightarrow> \<forall>a \<in> set as. \<not> cancels_timer a \<Longrightarrow>
    unat (el_nextTimerId lp) + added as < 2 ^ 64 \<Longrightarrow> keeps_timers i0 lp (fst (perform_all cap as lp)) (added as)"
proof (induction as arbitrary: lp)
  case Nil
  then show ?case by (simp add: keeps_timers_refl added_def)
next
  case (Cons a as)
  have split: "added (a # as) = added [a] + added as" by (simp add: added_def)
  have k: "keeps_timers i0 lp (fst (perform cap a lp)) (added [a])"
    using perform_keeps [OF Cons.prems(1,2)] Cons.prems(3,4) split by simp
  then have "keeps_timers i0 (fst (perform cap a lp)) (fst (perform_all cap as (fst (perform cap a lp)))) (added as)"
    using Cons.prems split by (intro Cons.IH) (auto simp: keeps_timers_def)
  from keeps_timers_trans [OF k this] show ?case
    unfolding split by (simp add: split_beta Let_def)
qed

lemma run_timer_cb_keeps:
  assumes "tame n acts" and "timers_ok lp" and "i0 \<le> el_nextTimerId lp" and "unat (el_nextTimerId lp) + n < 2 ^ 64"
  shows "keeps_timers i0 lp (fst (run_timer_cb cap acts t lp)) n"
proof (cases "tt_cb t")
  case None
  then show ?thesis using assms(2) by (simp add: run_timer_cb_def keeps_timers_def)
next
  case (Some u)
  have t: "\<forall>a \<in> set (acts u lp). \<not> cancels_timer a" "added (acts u lp) \<le> n" using assms(1) by (simp_all add: tame_def)
  then have "unat (el_nextTimerId lp) + added (acts u lp) < 2 ^ 64" using assms(4) by linarith
  from perform_all_keeps [OF assms(2,3) t(1) this, of cap] t(2) show ?thesis
    using Some by (simp add: run_timer_cb_def run_user_def keeps_timers_def)
qed

text \<open>What becomes of the entry of a task that has fired.\<close>

definition fired_entry :: "(nat \<Rightarrow> time) \<Rightarrow> 'u timer_task \<Rightarrow> 'u timer_task option \<Rightarrow> bool" where
  "fired_entry clk t x \<longleftrightarrow>
     (if tt_repeat t then \<exists>k. x = Some (t\<lparr>tt_expiresAt := clk k + msec (tt_interval t)\<rparr>) else x = None)"

definition after_cb :: "time \<Rightarrow> 'u timer_task \<Rightarrow> 'u evloop \<Rightarrow> 'u evloop" where
  "after_cb now t lp =
     (if tt_repeat t
      then lp\<lparr>el_timers := omap_put (tt_id t) (t\<lparr>tt_expiresAt := now + msec (tt_interval t)\<rparr>) (el_timers lp)\<rparr>
      else lp\<lparr>el_timers := omap_erase (tt_id t) (el_timers lp)\<rparr>)"

lemma after_cb_timers:
  assumes "timers_ok lp" and "omap_find (tt_id t) (el_timers lp) = Some t"
  shows "timers_ok (after_cb now t lp)" "el_nextTimerId (after_cb now t lp) = el_nextTimerId lp"
    "i \<noteq> tt_id t \<Longrightarrow> omap_find i (el_timers (after_cb now t lp)) = omap_find i (el_timers lp)"
    "fired_entry (\<lambda>_. now) t (omap_find (tt_id t) (el_timers (after_cb now t lp)))"
proof -
  have ok: "omap_ok (el_timers lp)" and ids: "omap_find j (el_timers lp) = Some x \<Longrightarrow> tt_id x = j \<and> j < el_nextTimerId lp" for j x
    using assms(1) by (auto simp: timers_ok_def)
  show "timers_ok (after_cb now t lp)"
    unfolding timers_ok_def after_cb_def using ok ids [OF assms(2)] by (auto split: if_splits dest: ids)
qed (simp_all add: after_cb_def fired_entry_def)

lemma run_expired_Cons:
  assumes "omap_find (tt_id t) (el_timers lp) = Some t" and "run_timer_cb cap acts t lp = (lp1, l1)"
    and "omap_find (tt_id t) (el_timers lp1) = Some t"
  shows "run_expired cap acts clk i (t # ts) lp =
    map_option (\<lambda>(lp3, l2). (lp3, Fired (tt_id t) # l1 @ l2)) (run_expired cap acts clk (Suc i) ts (after_cb (clk i) t lp1))"
  using assms by (simp add: after_cb_def Let_def)

text \<open>The due tasks fire one after the other; every other timer keeps its entry.\<close>

definition all_fired :: "(nat \<Rightarrow> time) \<Rightarrow> u64 \<Rightarrow> 'u timer_task list \<Rightarrow> 'u evloop \<Rightarrow> 'u logged \<Rightarrow> bool" where
  "all_fired clk i0 ts lp res \<longleftrightarrow>
     fireds (snd res) = map tt_id ts \<and> timers_ok (fst res) \<and>
     (\<forall>j < i0. j \<notin> tt_id ` set ts \<longrightarrow> omap_find j (el_timers (fst res)) = omap_find j (el_timers lp)) \<and>
     (\<forall>t \<in> set ts. fired_entry clk t (omap_find (tt_id t) (el_timers (fst res))))"

lemma run_expired_spec:
  assumes "tame n acts"
  shows "timers_ok lp \<Longrightarrow> distinct (map tt_id ts) \<Longrightarrow> \<forall>t \<in> set ts. omap_find (tt_id t) (el_timers lp) = Some t \<and> tt_id t < i0 \<Longrightarrow>
    i0 \<le> el_nextTimerId lp \<Longrightarrow> unat (el_nextTimerId lp) + n * length ts < 2 ^ 64 \<Longrightarrow>
    \<exists>res. run_expired cap acts clk i ts lp = Some res \<and> all_fired clk i0 ts lp res"
proof (induction ts arbitrary: i lp)
  case Nil
  then show ?case by (simp add: all_fired_def)
next
  case (Cons t ts)
  obtain lp1 l1 where r: "run_timer_cb cap acts t lp = (lp1, l1)" by fastforce
  have k: "keeps_timers i0 lp lp1 n"
    using run_timer_cb_keeps [OF assms Cons.prems(1,4), of cap t] Cons.prems(5) r by simp
  have t0: "omap_find (tt_id t) (el_timers lp) = Some t" "tt_id t < i0"
    using Cons.prems(3) by (meson list.set_intros(1))+
  then have t: "omap_find (tt_id t) (el_timers lp) = Some t" "omap_find (tt_id t) (el_timers lp1) = Some t" "tt_id t < i0"
    using k unfolding keeps_timers_def by simp_all
  let ?lp = "after_cb (clk i) t lp1"
  have ok: "timers_ok lp1" using k by (simp add: keeps_timers_def)
  note a = after_cb_timers [OF ok t(2), where now = "clk i"]
  have keep: "omap_find j (el_timers ?lp) = omap_find j (el_timers lp)" if "j < i0" "j \<noteq> tt_id t" for j
    using that a(3) [of j] k by (simp add: keeps_timers_def)
  have "\<exists>res. run_expired cap acts clk (Suc i) ts ?lp = Some res \<and> all_fired clk i0 ts ?lp res"
  proof (rule Cons.IH [OF a(1)])
    show "distinct (map tt_id ts)" using Cons.prems(2) by simp
    show "\<forall>t' \<in> set ts. omap_find (tt_id t') (el_timers ?lp) = Some t' \<and> tt_id t' < i0"
    proof
      fix t' assume t': "t' \<in> set ts"
      with Cons.prems(2) have "tt_id t' \<noteq> tt_id t" by (auto simp: image_iff)
      moreover have "omap_find (tt_id t') (el_timers lp) = Some t' \<and> tt_id t' < i0"
        using Cons.prems(3) t' by (meson list.set_intros(2))
      ultimately show "omap_find (tt_id t') (el_timers ?lp) = Some t' \<and> tt_id t' < i0"
        using keep by metis
    qed
    show "i0 \<le> el_nextTimerId ?lp" "unat (el_nextTimerId ?lp) + n * length ts < 2 ^ 64"
      using a(2) k Cons.prems(4,5) by (auto simp: keeps_timers_def)
  qed
  then obtain lp3 l2 where run: "run_expired cap acts clk (Suc i) ts ?lp = Some (lp3, l2)"
    and f: "all_fired clk i0 ts ?lp (lp3, l2)" by auto
  have "fireds l1 = []" using run_timer_cb_only_queues [of lp cap acts t] r by (simp add: only_queues_def)
  moreover have "omap_find (tt_id t) (el_timers lp3) = omap_find (tt_id t) (el_timers ?lp)"
    using f t(3) Cons.prems(2) unfolding all_fired_def by simp
  then have "fired_entry clk t (omap_find (tt_id t) (el_timers lp3))"
    using a(4) by (auto simp: fired_entry_def)
  ultimately have "all_fired clk i0 (t # ts) lp (lp3, Fired (tt_id t) # l1 @ l2)"
    using f keep unfolding all_fired_def by simp
  then show ?case
    using run_expired_Cons [OF t(1) r t(2), of clk i ts] run by auto
qed

lemma expired_tasks_timers:
  assumes "timers_ok lp"
  shows "distinct (map tt_id (expired_tasks now lp))"
    "t \<in> set (expired_tasks now lp) \<longleftrightarrow> omap_find (tt_id t) (el_timers lp) = Some t \<and> tt_expiresAt t \<le> now"
proof -
  have mem: "(i, t) \<in> set (el_timers lp) \<longleftrightarrow> omap_find i (el_timers lp) = Some t" for i t
    using assms by (intro omap_mem_find) (simp add: timers_ok_def)
  have key: "tt_id t = i" if "(i, t) \<in> set (el_timers lp)" for i t
    using assms that unfolding timers_ok_def mem by blast
  have "map tt_id (expired_tasks now lp) = map fst (filter (\<lambda>kv. tt_expiresAt (snd kv) \<le> now) (el_timers lp))"
    unfolding expired_tasks_def map_map by (intro map_cong refl) (auto intro: key)
  moreover have "distinct (map fst (el_timers lp))"
    using assms by (simp add: timers_ok_def omap_ok_def strict_sorted_iff)
  ultimately show "distinct (map tt_id (expired_tasks now lp))" by (simp add: distinct_map_filter)
  show "t \<in> set (expired_tasks now lp) \<longleftrightarrow> omap_find (tt_id t) (el_timers lp) = Some t \<and> tt_expiresAt t \<le> now"
  proof -
    have "t \<in> set (expired_tasks now lp) \<longleftrightarrow> (\<exists>i. (i, t) \<in> set (el_timers lp) \<and> tt_expiresAt t \<le> now)"
      by (auto simp: expired_tasks_def image_iff)
    then show ?thesis using mem key by blast
  qed
qed

section \<open>The poll timeout\<close>

lemma nearest_deadline_min:
  assumes "el_timers lp \<noteq> []"
  shows "nearest_deadline lp \<in> (\<lambda>kv. tt_expiresAt (snd kv)) ` set (el_timers lp)"
    "kv \<in> set (el_timers lp) \<Longrightarrow> nearest_deadline lp \<le> tt_expiresAt (snd kv)"
proof -
  define f where "f = (\<lambda>nearest (kv :: u64 \<times> 'a timer_task). if tt_expiresAt (snd kv) < nearest then tt_expiresAt (snd kv) else nearest)"
  have in_set: "foldl f z xs \<in> insert z ((\<lambda>kv. tt_expiresAt (snd kv)) ` set xs)" for z xs
    by (induction xs arbitrary: z) (fastforce simp: f_def)+
  have le: "foldl f z xs \<le> z" for z xs
    by (induction xs arbitrary: z) (simp_all add: f_def, smt (verit))
  have least: "kv \<in> set xs \<Longrightarrow> foldl f z xs \<le> tt_expiresAt (snd kv)" for z xs kv
  proof (induction xs arbitrary: z)
    case (Cons x xs)
    then show ?case using le [of "f z x" xs] by (auto simp: f_def split: if_splits)
  qed simp
  have eq: "nearest_deadline lp = foldl f (tt_expiresAt (snd (hd (el_timers lp)))) (el_timers lp)"
    by (simp add: nearest_deadline_def f_def)
  show "nearest_deadline lp \<in> (\<lambda>kv. tt_expiresAt (snd kv)) ` set (el_timers lp)"
    unfolding eq using in_set [of "tt_expiresAt (snd (hd (el_timers lp)))" "el_timers lp"] hd_in_set [OF assms] by auto
  show "kv \<in> set (el_timers lp) \<Longrightarrow> nearest_deadline lp \<le> tt_expiresAt (snd kv)"
    unfolding eq using least by blast
qed

lemma getPollTimeoutMs_spec:
  "0 \<le> getPollTimeoutMs now lp" "getPollTimeoutMs now lp \<le> 10000"
  "(i, t) \<in> set (el_timers lp) \<Longrightarrow> getPollTimeoutMs now lp = 0 \<or> now + msec (getPollTimeoutMs now lp) \<le> tt_expiresAt t"
proof -
  let ?n = "nearest_deadline lp"
  have pos: "now < ?n \<Longrightarrow> 0 \<le> to_ms (?n - now) \<and> msec (to_ms (?n - now)) \<le> ?n - now"
    by (simp add: to_ms_def msec_def div_int_pos_iff minus_mod_eq_div_mult [symmetric])
  show "0 \<le> getPollTimeoutMs now lp" "getPollTimeoutMs now lp \<le> 10000"
    using pos by (auto simp: getPollTimeoutMs_def kDefaultPollTimeoutMs_def Let_def)
  assume mem: "(i, t) \<in> set (el_timers lp)"
  then have ne: "el_timers lp \<noteq> []" by auto
  from nearest_deadline_min(2) [OF ne mem] have "?n \<le> tt_expiresAt t" by simp
  then show "getPollTimeoutMs now lp = 0 \<or> now + msec (getPollTimeoutMs now lp) \<le> tt_expiresAt t"
    using ne pos by (auto simp: getPollTimeoutMs_def kDefaultPollTimeoutMs_def Let_def msec_def)
qed

section \<open>The loop and other threads\<close>

text \<open>
  The interleaving of the loop thread with threads that queue functors. The loop thread is in one of the
  phases of \<^verbatim>\<open>loop()\<close>; a remote \<^verbatim>\<open>queueInLoop\<close> is two steps, and \<open>waking\<close> threads are between them.
  The flag says whether timer callbacks call \<^verbatim>\<open>queueInLoop\<close>.
\<close>

datatype 'u phase = Polling | Handling | Calling "'u loop_fn list" | Timers

record 'u conf =
  cf_loop :: "'u evloop"
  cf_phase :: "'u phase"
  cf_waking :: nat

definition start_conf :: "'u conf" where
  "start_conf = \<lparr>cf_loop = new_evloop\<lparr>el_looping := True\<rparr>, cf_phase = Polling, cf_waking = 0\<rparr>"

inductive el_reach :: "nat \<Rightarrow> bool \<Rightarrow> 'u conf \<Rightarrow> bool" for cap :: nat and timer_queues :: bool where
  reach_start: "el_reach cap timer_queues start_conf"
| remote_push: "el_reach cap timer_queues c \<Longrightarrow>
    el_reach cap timer_queues (c\<lparr>cf_loop := push_functor f (cf_loop c), cf_waking := cf_waking c + 1\<rparr>)"
| remote_wake: "el_reach cap timer_queues c \<Longrightarrow> 0 < cf_waking c \<Longrightarrow>
    el_reach cap timer_queues (c\<lparr>cf_loop := wake_for cap False (cf_loop c), cf_waking := cf_waking c - 1\<rparr>)"
| poll_returns: "el_reach cap timer_queues c \<Longrightarrow> cf_phase c = Polling \<Longrightarrow> el_reach cap timer_queues (c\<lparr>cf_phase := Handling\<rparr>)"
| wakeup_event: "el_reach cap timer_queues c \<Longrightarrow> cf_phase c = Handling \<Longrightarrow>
    el_reach cap timer_queues (c\<lparr>cf_loop := handleWakeupRead (cf_loop c)\<rparr>)"
| event_queues: "el_reach cap timer_queues c \<Longrightarrow> cf_phase c = Handling \<Longrightarrow>
    el_reach cap timer_queues (c\<lparr>cf_loop := queueInLoop cap True f (cf_loop c)\<rparr>)"
| swap_pending: "el_reach cap timer_queues c \<Longrightarrow> cf_phase c = Handling \<Longrightarrow>
    el_reach cap timer_queues (c\<lparr>cf_phase := Calling (el_pending (cf_loop c)),
      cf_loop := (cf_loop c)\<lparr>el_calling := True, el_pending := []\<rparr>\<rparr>)"
| functor_queues: "el_reach cap timer_queues c \<Longrightarrow> cf_phase c = Calling (g # fs) \<Longrightarrow>
    el_reach cap timer_queues (c\<lparr>cf_loop := queueInLoop cap True f (cf_loop c)\<rparr>)"
| functor_returns: "el_reach cap timer_queues c \<Longrightarrow> cf_phase c = Calling (g # fs) \<Longrightarrow>
    el_reach cap timer_queues (c\<lparr>cf_phase := Calling fs\<rparr>)"
| functors_done: "el_reach cap timer_queues c \<Longrightarrow> cf_phase c = Calling [] \<Longrightarrow>
    el_reach cap timer_queues (c\<lparr>cf_phase := Timers, cf_loop := (cf_loop c)\<lparr>el_calling := False\<rparr>\<rparr>)"
| timer_queue: "el_reach cap timer_queues c \<Longrightarrow> cf_phase c = Timers \<Longrightarrow> timer_queues \<Longrightarrow>
    el_reach cap timer_queues (c\<lparr>cf_loop := queueInLoop cap True f (cf_loop c)\<rparr>)"
| timers_done: "el_reach cap timer_queues c \<Longrightarrow> cf_phase c = Timers \<Longrightarrow> el_reach cap timer_queues (c\<lparr>cf_phase := Polling\<rparr>)"

text \<open>
  The loop waits in the poll for its timeout, up to ten seconds, although a functor is queued: no byte is in
  the pipe and no thread is about to write one.
\<close>

definition overslept :: "'u conf \<Rightarrow> bool" where
  "overslept c \<longleftrightarrow> cf_phase c = Polling \<and> el_pending (cf_loop c) \<noteq> [] \<and> el_pipe (cf_loop c) = 0 \<and> cf_waking c = 0"

definition conf_ok :: "'u conf \<Rightarrow> bool" where
  "conf_ok c \<longleftrightarrow>
     (el_calling (cf_loop c) \<longleftrightarrow> (\<exists>fs. cf_phase c = Calling fs)) \<and>
     (cf_phase c \<noteq> Handling \<longrightarrow> el_pending (cf_loop c) \<noteq> [] \<longrightarrow> 0 < el_pipe (cf_loop c) \<or> 0 < cf_waking c)"

lemma wakeup_pipe: "0 < cap \<Longrightarrow> 0 < el_pipe (wakeup cap lp)" "el_calling (wakeup cap lp) = el_calling lp"
  by (auto simp: wakeup_def)

lemma el_reach_ok:
  assumes "0 < cap"
  shows "el_reach cap False c \<Longrightarrow> conf_ok c"
proof (induction rule: el_reach.induct)
  case reach_start
  then show ?case by (simp add: conf_ok_def start_conf_def new_evloop_def)
qed (auto simp: conf_ok_def push_functor_def wake_for_def handleWakeupRead_def queueInLoop_def
    wakeup_pipe(1) [OF assms] wakeup_pipe(2))

section \<open>Properties\<close>

text \<open>C11: Functors run in the order they were queued, each exactly once. Run the loop for any number of turns,
  with any poller events, any callbacks (which may queue functors, start and cancel timers, or quit) and
  any functors queued by other threads between the turns. The functors that ran, in order, followed by those
  still pending, are those pending at the start followed by those queued, in order. And every turn runs
  all functors that were pending when it began.\<close>

theorem loop_runs_functors_in_order:
  assumes "loop cap acts tns lp = Some (lp', l)" and "loop_turn cap acts tn lp' = Some (lp2, l2)"
  shows "rans l @ el_pending lp' = el_pending lp @ queueds l \<and> (\<exists>more. rans l2 = el_pending lp' @ more)"
  using loop_turns_fifo [OF assms(1) [unfolded loop_def]] loop_turn_log [OF assms(2)] by (simp add: fifo_def)

theorem loop_runs_functors_in_order_witness:
  "\<exists>lp' l lp2 l2.
     loop 1 (\<lambda>u lp. if u = 0 then [ActQueue (User (1 :: nat))] else [])
       [([User 0, User 2], \<lparr>tn_events = [], tn_functorClock = \<lambda>_. 0, tn_now = 0, tn_timerClock = \<lambda>_. 0\<rparr>)] new_evloop = Some (lp', l) \<and>
     loop_turn 1 (\<lambda>u lp. if u = 0 then [ActQueue (User 1)] else [])
       \<lparr>tn_events = [], tn_functorClock = \<lambda>_. 0, tn_now = 0, tn_timerClock = \<lambda>_. 0\<rparr> lp' = Some (lp2, l2) \<and>
     rans l = [User 0, User 2] \<and> el_pending lp' = [User 1] \<and> (\<exists>more. rans l2 = [User 1] @ more)"
proof -
  let ?acts = "\<lambda>u (lp :: nat evloop). if u = 0 then [ActQueue (User (1 :: nat))] else []"
  let ?tn = "\<lparr>tn_events = [], tn_functorClock = \<lambda>_. 0, tn_now = 0, tn_timerClock = \<lambda>_. 0\<rparr>"
  note defs = loop_def loop_turn_def doPendingFunctors_def runTimers_def expired_tasks_def run_user_def
    queueInLoop_def wake_for_def push_functor_def wakeup_def new_evloop_def
  obtain lp' l where r: "loop 1 ?acts [([User 0, User 2], ?tn)] new_evloop = Some (lp', l)"
    "rans l = [User 0, User 2]" "el_pending lp' = [User 1]" "el_timers lp' = []"
    by (simp add: defs)
  obtain lp2 l2 where r2: "loop_turn 1 ?acts ?tn lp' = Some (lp2, l2)"
    using r(3,4) by (simp add: defs)
  show ?thesis
    using r r2 loop_runs_functors_in_order [OF r(1) r2] by auto
qed

text \<open>C25: Timers fire when they are due. If the callbacks cancel no timer and ids do not run out, \<^verbatim>\<open>runTimers\<close>
  completes and fires exactly the timers whose time has come, each once, in the order of their ids. Of those, a
  one-shot timer is gone afterwards and a repeating one is set to its interval after a later clock
  reading; every other timer keeps its entry, and the table stays well formed.\<close>

theorem timers_fire_when_due:
  assumes "timers_ok lp" and "tame n acts"
    and "unat (el_nextTimerId lp) + n * length (expired_tasks now lp) < 2 ^ 64"
  shows "\<exists>lp' l. runTimers cap acts now clk lp = Some (lp', l) \<and> timers_ok lp' \<and>
    fireds l = map tt_id (expired_tasks now lp) \<and> distinct (fireds l) \<and>
    (\<forall>i t. omap_find i (el_timers lp) = Some t \<longrightarrow>
       (if tt_expiresAt t \<le> now then fired_entry clk t (omap_find i (el_timers lp'))
        else omap_find i (el_timers lp') = Some t))"
proof -
  let ?ts = "expired_tasks now lp"
  have id: "tt_id t = i \<and> i < el_nextTimerId lp" if "omap_find i (el_timers lp) = Some t" for i t
    using assms(1) that unfolding timers_ok_def by blast
  have due: "\<forall>t \<in> set ?ts. omap_find (tt_id t) (el_timers lp) = Some t \<and> tt_id t < el_nextTimerId lp"
    using expired_tasks_timers(2) [OF assms(1)] id by blast
  obtain lp' l where run: "runTimers cap acts now clk lp = Some (lp', l)"
    and f: "all_fired clk (el_nextTimerId lp) ?ts lp (lp', l)"
    using run_expired_spec [OF assms(2,1) expired_tasks_timers(1) [OF assms(1)] due order_refl assms(3), of cap clk 0]
    unfolding runTimers_def by auto
  have "if tt_expiresAt t \<le> now then fired_entry clk t (omap_find i (el_timers lp')) else omap_find i (el_timers lp') = Some t"
    if t: "omap_find i (el_timers lp) = Some t" for i t
  proof (cases "tt_expiresAt t \<le> now")
    case True
    then have "t \<in> set ?ts" using t id [OF t] expired_tasks_timers(2) [OF assms(1)] by blast
    then have "fired_entry clk t (omap_find (tt_id t) (el_timers lp'))" using f unfolding all_fired_def by simp
    then show ?thesis using True id [OF t] by simp
  next
    case False
    have "i \<notin> tt_id ` set ?ts"
      using False t due expired_tasks_timers(2) [OF assms(1), of _ now] by (metis imageE option.inject)
    then have "omap_find i (el_timers lp') = omap_find i (el_timers lp)" using f id [OF t] unfolding all_fired_def by simp
    then show ?thesis using False t by simp
  qed
  then show ?thesis
    using run f expired_tasks_timers(1) [OF assms(1)] unfolding all_fired_def by auto
qed

text \<open>Two timers of which the first, a repeating one, is due.\<close>

definition two_timers :: "nat evloop" where
  "two_timers = snd (add_timer 0 False 50 (Some 8) (snd (add_timer 0 True 20 (Some 7) new_evloop)))"

theorem timers_fire_when_due_witness:
  "\<exists>lp' l. runTimers 1 (\<lambda>_ _. []) (msec 30) (\<lambda>_. msec 31) two_timers = Some (lp', l) \<and> fireds l = [1] \<and>
     fired_entry (\<lambda>_. msec 31) (\<lparr>tt_id = 1, tt_expiresAt = msec 20, tt_interval = 20, tt_cb = Some 7, tt_repeat = True\<rparr>)
       (omap_find 1 (el_timers lp'))"
proof -
  note defs = two_timers_def add_timer_def new_evloop_def Let_def
  have ok: "timers_ok two_timers"
    by (auto simp: timers_ok_def defs omap_ok_def omap_find_def split: if_splits)
  have tame: "tame 0 (\<lambda>(_ :: nat) _. [])" by (simp add: tame_def added_def)
  have due: "expired_tasks (msec 30) two_timers =
      [\<lparr>tt_id = 1, tt_expiresAt = msec 20, tt_interval = 20, tt_cb = Some 7, tt_repeat = True\<rparr>]"
    by (simp add: expired_tasks_def defs msec_def)
  have first: "omap_find 1 (el_timers two_timers) =
      Some \<lparr>tt_id = 1, tt_expiresAt = msec 20, tt_interval = 20, tt_cb = Some 7, tt_repeat = True\<rparr>"
    by (simp add: omap_find_def defs)
  have room: "unat (el_nextTimerId two_timers) + 0 * length (expired_tasks (msec 30) two_timers) < 2 ^ 64"
    by (simp add: defs)
  show ?thesis
    using timers_fire_when_due [OF ok tame room, of 1 "\<lambda>_. msec 31"] first due by fastforce
qed

text \<open>The loop never sleeps past a timer. The poll timeout is between zero and ten seconds; with a timer
  that is due it is zero, and otherwise the poll returns no later than the earliest deadline.\<close>

theorem poll_timeout_bounded:
  "0 \<le> getPollTimeoutMs now lp \<and> getPollTimeoutMs now lp \<le> 10000 \<and>
   list_all (\<lambda>(i, t). getPollTimeoutMs now lp = 0 \<or> now + msec (getPollTimeoutMs now lp) \<le> tt_expiresAt t) (el_timers lp)"
  using getPollTimeoutMs_spec [where now = now and lp = lp] by (auto simp: list_all_iff)



text \<open>A functor queued by a timer callback may wait for the whole poll timeout. Timers run after the
  pending functors and on the loop thread, where \<^verbatim>\<open>queueInLoop\<close> does not write to the pipe, so the loop goes
  to sleep with the functor queued.\<close>

theorem timer_callback_queue_oversleeps:
  "\<exists>c. el_reach cap True c \<and> overslept c \<and> el_pending (cf_loop c) = [f]"
proof -
  define c0 :: "'a conf" where "c0 = start_conf"
  note c0_def [simp]
  let ?h = "c0\<lparr>cf_phase := Handling\<rparr>"
  let ?s = "?h\<lparr>cf_phase := Calling (el_pending (cf_loop ?h)), cf_loop := (cf_loop ?h)\<lparr>el_calling := True, el_pending := []\<rparr>\<rparr>"
  let ?t = "?s\<lparr>cf_phase := Timers, cf_loop := (cf_loop ?s)\<lparr>el_calling := False\<rparr>\<rparr>"
  let ?q = "?t\<lparr>cf_loop := queueInLoop cap True f (cf_loop ?t)\<rparr>"
  have "el_reach cap True ?h"
    unfolding c0_def by (rule el_reach.poll_returns [OF el_reach.reach_start]) (simp add: start_conf_def)
  then have "el_reach cap True ?s" by (rule el_reach.swap_pending) simp
  then have "el_reach cap True ?t" by (rule el_reach.functors_done) (simp add: start_conf_def new_evloop_def)
  then have "el_reach cap True ?q" by (rule el_reach.timer_queue) simp_all
  then have "el_reach cap True (?q\<lparr>cf_phase := Polling\<rparr>)" by (rule el_reach.timers_done) simp
  moreover have "overslept (?q\<lparr>cf_phase := Polling\<rparr>)" "el_pending (cf_loop (?q\<lparr>cf_phase := Polling\<rparr>)) = [f]"
    by (simp_all add: overslept_def start_conf_def new_evloop_def queueInLoop_def wake_for_def push_functor_def)
  ultimately show ?thesis by blast
qed

text \<open>
  A timer callback that cancels its own timer erases the entry whose iterator \<^verbatim>\<open>runTimers\<close> uses afterwards.
\<close>

theorem timer_self_cancel:
  assumes "omap_find i (el_timers lp) = Some t" and "tt_id t = i" and "tt_cb t = Some u" and "acts u lp = [ActCancel i]"
  shows "run_expired cap acts clk k (t # ts) lp = None"
  using assms by (simp add: run_timer_cb_def run_user_def erase_timer_def)

text \<open>A \<^verbatim>\<open>quit()\<close> before \<^verbatim>\<open>loop()\<close> is forgotten: the loop starts all the same.\<close>

theorem quit_before_loop_forgotten:
  "loop cap acts tns (lp\<lparr>el_quit := True\<rparr>) = loop cap acts tns (lp\<lparr>el_quit := False\<rparr>)"
  by (simp add: loop_def)

end
