(* ===== verification/TcpConnection.thy ===== *)
theory TcpConnection
  imports Channel RpcFramer "HOL-Library.Sublist"
begin

text \<open>
  \<^verbatim>\<open>include/TcpConnection.h\<close>, \<^verbatim>\<open>src/TcpConnection.cpp\<close> (the Linux branches, and the branches for other platforms): a connection of the server. Every method
  is a function from the connection to the new connection and the effects it performs, in order. The
  results of \<^verbatim>\<open>read\<close> and \<^verbatim>\<open>write\<close> are arguments: a count, the value of \<^verbatim>\<open>errno\<close> and the clock reading of
  \<^verbatim>\<open>touchActivity\<close>. What the message callback does to the connection is the parameter \<open>react\<close>.
\<close>

section \<open>State\<close>

datatype tcp_state = TcpConnecting | TcpConnected | TcpDisconnecting | TcpDisconnected

record tcp_conn =
  tc_state :: tcp_state
  tc_channel :: channel
  tc_input :: buffer
  tc_output :: buffer
  tc_hasConnectionCb :: bool
  tc_hasMessageCb :: bool
  tc_hasCloseCb :: bool
  tc_lastActiveAt :: time
  tc_highWaterMark :: nat
  tc_slowConsumerTimeout :: int
  tc_highWaterActive :: bool

datatype tcp_effect =
    TcpWrite bytes
  | TcpMessage message          \<comment> \<open>the message callback\<close>
  | TcpEstablished              \<comment> \<open>the connection callback\<close>
  | TcpClose                    \<comment> \<open>the close callback\<close>
  | TcpErrorLogged
  | TcpShutdownWrite            \<comment> \<open>\<^verbatim>\<open>shutdown(fd, SHUT_WR)\<close>\<close>
  | TcpRemoveChannel
  | TcpRunAfterSlow int         \<comment> \<open>\<^verbatim>\<open>runAfter\<close>: the check for a slow consumer\<close>
  | TcpQueueSend bytes          \<comment> \<open>\<^verbatim>\<open>runInLoop\<close> from another thread\<close>
  | TcpQueueShutdown
  | TcpQueueForceClose
  | TcpCloseFd int

type_synonym tcp_result = "tcp_conn \<times> tcp_effect list"

datatype errno = EINTR | EAGAIN | EOTHER

text \<open>A \<^verbatim>\<open>read\<close>: bytes, end of stream, or an error. A \<^verbatim>\<open>write\<close>: the count and \<^verbatim>\<open>errno\<close>.\<close>

datatype tcp_read = ReadBytes bytes time | ReadEnd | ReadFailed errno
datatype tcp_write = WriteResult int errno time

text \<open>The constructor; both buffers come empty from the pool.\<close>

definition new_tcp_conn :: "int \<Rightarrow> time \<Rightarrow> tcp_conn" where
  "new_tcp_conn fd now =
     \<lparr>tc_state = TcpConnecting,
      tc_channel = setCallback ErrorCallback (setCallback CloseCallback (setCallback WriteCallback
                     (setCallback ReadCallback (new_channel fd)))),
      tc_input = new_buffer 1024, tc_output = new_buffer 1024, tc_hasConnectionCb = False, tc_hasMessageCb = False,
      tc_hasCloseCb = False, tc_lastActiveAt = now, tc_highWaterMark = 4 * 1024 * 1024, tc_slowConsumerTimeout = 5000,
      tc_highWaterActive = False\<rparr>"

section \<open>Closing\<close>

definition tcp_handleClose :: "tcp_conn \<Rightarrow> tcp_result" where
  "tcp_handleClose c =
     (c\<lparr>tc_state := TcpDisconnected, tc_channel := disableAll (tc_channel c)\<rparr>, if tc_hasCloseCb c then [TcpClose] else [])"

definition shutdownInLoop :: "tcp_conn \<Rightarrow> tcp_result" where
  "shutdownInLoop c =
     (c, if readableBytes (tc_output c) > 0 \<or> isWriting (tc_channel c) then [] else [TcpShutdownWrite])"

definition tcp_shutdown :: "bool \<Rightarrow> tcp_conn \<Rightarrow> tcp_result" where
  "tcp_shutdown inLoopThread c =
     (if tc_state c \<noteq> TcpConnected then (c, [])
      else let c1 = c\<lparr>tc_state := TcpDisconnecting\<rparr>
           in if inLoopThread then shutdownInLoop c1 else (c1, [TcpQueueShutdown]))"

definition forceCloseInLoop :: "tcp_conn \<Rightarrow> tcp_result" where
  "forceCloseInLoop c = (if tc_state c = TcpConnected \<or> tc_state c = TcpDisconnecting then tcp_handleClose c else (c, []))"

definition forceClose :: "bool \<Rightarrow> tcp_conn \<Rightarrow> tcp_result" where
  "forceClose inLoopThread c = (if inLoopThread then forceCloseInLoop c else (c, [TcpQueueForceClose]))"

definition isIdleFor :: "time \<Rightarrow> int \<Rightarrow> tcp_conn \<Rightarrow> bool" where
  "isIdleFor now seconds c \<longleftrightarrow> now - tc_lastActiveAt c \<ge> msec (1000 * seconds)"

definition connectEstablished :: "time \<Rightarrow> tcp_conn \<Rightarrow> tcp_result" where
  "connectEstablished now c =
     (c\<lparr>tc_state := TcpConnected, tc_lastActiveAt := now, tc_channel := enableReading (tc_channel c)\<rparr>,
      if tc_hasConnectionCb c then [TcpEstablished] else [])"

definition connectDestroyed :: "tcp_conn \<Rightarrow> tcp_result" where
  "connectDestroyed c =
     (if tc_state c = TcpConnected \<or> tc_state c = TcpDisconnecting
      then c\<lparr>tc_state := TcpDisconnected, tc_channel := disableAll (tc_channel c)\<rparr> else c, [TcpRemoveChannel])"

text \<open>The destructor.\<close>

definition destroy_tcp_conn :: "tcp_conn \<Rightarrow> tcp_effect list" where
  "destroy_tcp_conn c = (if cl_fd (tc_channel c) \<ge> 0 then [TcpCloseFd (cl_fd (tc_channel c))] else [])"

section \<open>Output\<close>

definition checkWriteBackpressureInLoop :: "tcp_conn \<Rightarrow> tcp_result" where
  "checkWriteBackpressureInLoop c =
     (let pending = readableBytes (tc_output c)
      in if tc_highWaterMark c > 0 \<and> pending > tc_highWaterMark c
         then if \<not> tc_highWaterActive c
              then (c\<lparr>tc_highWaterActive := True\<rparr>, [TcpRunAfterSlow (tc_slowConsumerTimeout c)])
              else (c, [])
         else if pending = 0 then (c\<lparr>tc_highWaterActive := False\<rparr>, []) else (c, []))"

text \<open>The timer that \<^verbatim>\<open>checkWriteBackpressureInLoop\<close> starts.\<close>

definition slow_consumer_timer :: "tcp_conn \<Rightarrow> tcp_result" where
  "slow_consumer_timer c =
     (if tc_state c = TcpConnected \<and> tc_highWaterActive c \<and> readableBytes (tc_output c) > tc_highWaterMark c
      then tcp_handleClose c else (c\<lparr>tc_highWaterActive := False\<rparr>, []))"

definition tcp_append_output :: "bytes \<Rightarrow> tcp_conn \<Rightarrow> tcp_result" where
  "tcp_append_output rest c =
     checkWriteBackpressureInLoop
       (c\<lparr>tc_output := buf_append rest (tc_output c), tc_channel := enableWriting (tc_channel c)\<rparr>)"

definition tcp_sendInLoop :: "tcp_write \<Rightarrow> bytes \<Rightarrow> tcp_conn \<Rightarrow> tcp_result" where
  "tcp_sendInLoop w message c =
     (if tc_state c = TcpDisconnected then (c, [])
      else if readableBytes (tc_output c) = 0
      then case w of WriteResult n err t \<Rightarrow>
        if n \<ge> 0
        then let (c1, effs) = (if nat n < length message then tcp_append_output (drop (nat n) message) c else (c, []))
             in (c1, TcpWrite (take (nat n) message) # effs)
        else if err \<noteq> EAGAIN then (c, [TcpErrorLogged])
        else tcp_append_output message c
      else tcp_append_output message c)"

definition tcp_send :: "bool \<Rightarrow> tcp_write \<Rightarrow> bytes \<Rightarrow> tcp_conn \<Rightarrow> bool \<times> tcp_result" where
  "tcp_send inLoopThread w message c =
     (if tc_state c \<noteq> TcpConnected then (False, c, [])
      else if inLoopThread then (True, tcp_sendInLoop w message c)
      else (True, c, [TcpQueueSend message]))"

definition sendMessage :: "endian \<Rightarrow> bool \<Rightarrow> tcp_write \<Rightarrow> message \<Rightarrow> tcp_conn \<Rightarrow> bool \<times> tcp_result" where
  "sendMessage e inLoopThread w m c = tcp_send inLoopThread w (RpcFramer_encode e m) c"

fun tcp_write_loop :: "tcp_write list \<Rightarrow> tcp_conn \<Rightarrow> tcp_result" where
  "tcp_write_loop [] c =
     (if readableBytes (tc_output c) = 0 then (c\<lparr>tc_channel := disableWriting (tc_channel c)\<rparr>, []) else (c, []))"
| "tcp_write_loop (WriteResult n err t # ws) c =
     (if readableBytes (tc_output c) = 0 then (c\<lparr>tc_channel := disableWriting (tc_channel c)\<rparr>, [])
      else if n > 0
      then let sent = take (min (nat n) (readableBytes (tc_output c))) (peek (tc_output c));
               c1 = c\<lparr>tc_output := retrieve (nat n) (tc_output c), tc_lastActiveAt := t\<rparr>
           in if readableBytes (tc_output c1) = 0
              then let c2 = c1\<lparr>tc_highWaterActive := False, tc_channel := disableWriting (tc_channel c1)\<rparr>
                   in (c2, TcpWrite sent # (if tc_state c2 = TcpDisconnecting then snd (shutdownInLoop c2) else []))
              else let (c2, effs) = tcp_write_loop ws c1 in (c2, TcpWrite sent # effs)
      else if err = EINTR then tcp_write_loop ws c
      else if err = EAGAIN then (c, [])
      else (c, [TcpErrorLogged]))"

definition tcp_handleWrite :: "tcp_write list \<Rightarrow> tcp_conn \<Rightarrow> tcp_result" where
  "tcp_handleWrite ws c = tcp_write_loop ws c"

section \<open>Input\<close>

text \<open>The messages one read completes go to the callback one after the other.\<close>

fun deliver_all :: "(message \<Rightarrow> tcp_conn \<Rightarrow> tcp_result) \<Rightarrow> message list \<Rightarrow> tcp_conn \<Rightarrow> tcp_result" where
  "deliver_all react [] c = (c, [])"
| "deliver_all react (m # ms) c =
     (let (c1, effs1) = react m c; (c2, effs2) = deliver_all react ms c1 in (c2, TcpMessage m # effs1 @ effs2))"

fun tcp_read_loop :: "endian \<Rightarrow> (message \<Rightarrow> tcp_conn \<Rightarrow> tcp_result) \<Rightarrow> tcp_read list \<Rightarrow> tcp_conn \<Rightarrow> tcp_result" where
  "tcp_read_loop e react [] c = (c, [])"
| "tcp_read_loop e react (ReadBytes bs t # rs) c =
     (let c1 = c\<lparr>tc_input := buf_append bs (tc_input c), tc_lastActiveAt := t\<rparr>;
          (c2, effs1) = (if tc_hasMessageCb c1
                         then let (ms, b) = RpcFramer_decode e (tc_input c1) in deliver_all react ms (c1\<lparr>tc_input := b\<rparr>)
                         else (c1, []));
          (c3, effs2) = tcp_read_loop e react rs c2
      in (c3, effs1 @ effs2))"
| "tcp_read_loop e react (ReadEnd # rs) c = tcp_handleClose c"
| "tcp_read_loop e react (ReadFailed err # rs) c =
     (if err = EINTR then tcp_read_loop e react rs c
      else if err = EAGAIN then (c, [])
      else (c, [TcpErrorLogged]))"

definition tcp_handleRead :: "endian \<Rightarrow> (message \<Rightarrow> tcp_conn \<Rightarrow> tcp_result) \<Rightarrow> tcp_read list \<Rightarrow> tcp_conn \<Rightarrow> tcp_result" where
  "tcp_handleRead e react rs c = tcp_read_loop e react rs c"

section \<open>Other platforms\<close>

text \<open>
  Where poll is level-triggered, \<^verbatim>\<open>handleRead\<close> and \<^verbatim>\<open>handleWrite\<close> make one system call per event. Apart from an
  interrupted call, which they report as an error, that is the loop with one result.
\<close>

definition tcp_handleRead_once :: "endian \<Rightarrow> (message \<Rightarrow> tcp_conn \<Rightarrow> tcp_result) \<Rightarrow> tcp_read \<Rightarrow> tcp_conn \<Rightarrow> tcp_result" where
  "tcp_handleRead_once e react r c =
     (case r of
        ReadBytes bs t \<Rightarrow>
          let c1 = c\<lparr>tc_input := buf_append bs (tc_input c), tc_lastActiveAt := t\<rparr>
          in if tc_hasMessageCb c1
             then let (ms, b) = RpcFramer_decode e (tc_input c1) in deliver_all react ms (c1\<lparr>tc_input := b\<rparr>)
             else (c1, [])
      | ReadEnd \<Rightarrow> tcp_handleClose c
      | ReadFailed err \<Rightarrow> if err \<noteq> EAGAIN then (c, [TcpErrorLogged]) else (c, []))"

definition tcp_handleWrite_once :: "tcp_write \<Rightarrow> tcp_conn \<Rightarrow> tcp_result" where
  "tcp_handleWrite_once w c =
     (case w of WriteResult n err t \<Rightarrow>
        if readableBytes (tc_output c) = 0 then (c\<lparr>tc_channel := disableWriting (tc_channel c)\<rparr>, [])
        else if n > 0
        then let sent = take (min (nat n) (readableBytes (tc_output c))) (peek (tc_output c));
                 c1 = c\<lparr>tc_output := retrieve (nat n) (tc_output c), tc_lastActiveAt := t\<rparr>
             in if readableBytes (tc_output c1) = 0
                then let c2 = c1\<lparr>tc_highWaterActive := False, tc_channel := disableWriting (tc_channel c1)\<rparr>
                     in (c2, TcpWrite sent # (if tc_state c2 = TcpDisconnecting then snd (shutdownInLoop c2) else []))
                else (c1, [TcpWrite sent])
        else if err \<noteq> EAGAIN then (c, [TcpErrorLogged])
        else (c, []))"

lemma handleRead_once: "r \<noteq> ReadFailed EINTR \<Longrightarrow> tcp_handleRead_once e react r c = tcp_handleRead e react [r] c"
  by (auto simp: tcp_handleRead_once_def tcp_handleRead_def Let_def split_beta split: tcp_read.split)

lemma handleWrite_once:
  "n > 0 \<or> err \<noteq> EINTR \<Longrightarrow> tcp_handleWrite_once (WriteResult n err t) c = tcp_handleWrite [WriteResult n err t] c"
  by (auto simp: tcp_handleWrite_once_def tcp_handleWrite_def Let_def)

section \<open>Events\<close>

text \<open>What the channel callbacks installed by the constructor do.\<close>

fun tcp_callback :: "endian \<Rightarrow> (message \<Rightarrow> tcp_conn \<Rightarrow> tcp_result) \<Rightarrow> tcp_read list \<Rightarrow> tcp_write list \<Rightarrow>
    channel_callback \<Rightarrow> tcp_conn \<Rightarrow> tcp_result" where
  "tcp_callback e react rs ws ErrorCallback c = (c, [TcpErrorLogged])"
| "tcp_callback e react rs ws CloseCallback c = tcp_handleClose c"
| "tcp_callback e react rs ws ReadCallback c = tcp_handleRead e react rs c"
| "tcp_callback e react rs ws WriteCallback c = tcp_handleWrite ws c"

fun tcp_callbacks :: "endian \<Rightarrow> (message \<Rightarrow> tcp_conn \<Rightarrow> tcp_result) \<Rightarrow> tcp_read list \<Rightarrow> tcp_write list \<Rightarrow>
    channel_callback list \<Rightarrow> tcp_conn \<Rightarrow> tcp_result" where
  "tcp_callbacks e react rs ws [] c = (c, [])"
| "tcp_callbacks e react rs ws (cb # cbs) c =
     (let (c1, effs1) = tcp_callback e react rs ws cb c; (c2, effs2) = tcp_callbacks e react rs ws cbs c1 in (c2, effs1 @ effs2))"

text \<open>One event of the poller, dispatched by \<^verbatim>\<open>Channel::handleEvent\<close>.\<close>

definition tcp_event :: "endian \<Rightarrow> (message \<Rightarrow> tcp_conn \<Rightarrow> tcp_result) \<Rightarrow> u16 \<Rightarrow> tcp_read list \<Rightarrow> tcp_write list \<Rightarrow>
    tcp_conn \<Rightarrow> tcp_result" where
  "tcp_event e react revents rs ws c =
     tcp_callbacks e react rs ws (handleEvent (setRevents revents (tc_channel c))) c"

section \<open>Executions\<close>

text \<open>A message callback that answers inline with at most one message; \<open>w\<close> gives the results of the writes.\<close>

definition reply_with :: "endian \<Rightarrow> (message \<Rightarrow> message option) \<Rightarrow> (message \<Rightarrow> tcp_write) \<Rightarrow> message \<Rightarrow> tcp_conn \<Rightarrow> tcp_result" where
  "reply_with e f w m c = (case f m of None \<Rightarrow> (c, []) | Some r \<Rightarrow> snd (sendMessage e True (w m) r c))"

text \<open>The entry points on the loop thread; \<^verbatim>\<open>OpSend\<close> is \<^verbatim>\<open>sendInLoop\<close>, called directly or as a queued task.\<close>

datatype tcp_op =
    OpSend tcp_write bytes
  | OpEvent "message \<Rightarrow> message option" "message \<Rightarrow> tcp_write" u16 "tcp_read list" "tcp_write list"
  | OpSlowTimer
  | OpShutdown
  | OpShutdownTask
  | OpForceClose
  | OpDestroyed

fun tcp_step :: "endian \<Rightarrow> tcp_op \<Rightarrow> tcp_conn \<Rightarrow> tcp_result" where
  "tcp_step e (OpSend w message) c = tcp_sendInLoop w message c"
| "tcp_step e (OpEvent f w revents rs ws) c = tcp_event e (reply_with e f w) revents rs ws c"
| "tcp_step e OpSlowTimer c = slow_consumer_timer c"
| "tcp_step e OpShutdown c = tcp_shutdown True c"
| "tcp_step e OpShutdownTask c = shutdownInLoop c"
| "tcp_step e OpForceClose c = forceCloseInLoop c"
| "tcp_step e OpDestroyed c = connectDestroyed c"

fun message_of :: "tcp_effect \<Rightarrow> message list" where
  "message_of (TcpMessage m) = [m]" | "message_of _ = []"

fun written_of :: "tcp_effect \<Rightarrow> bytes" where
  "written_of (TcpWrite bs) = bs" | "written_of _ = []"

definition messages :: "tcp_effect list \<Rightarrow> message list" where "messages effs = concat (map message_of effs)"
definition written :: "tcp_effect list \<Rightarrow> bytes" where "written effs = concat (map written_of effs)"

lemma effect_simps [simp]:
  "messages [] = []" "messages (x # xs) = message_of x @ messages xs" "messages (xs @ ys) = messages xs @ messages ys"
  "written [] = []" "written (x # xs) = written_of x @ written xs" "written (xs @ ys) = written xs @ written ys"
  by (simp_all add: messages_def written_def)

text \<open>The byte strings an operation asks to send: its own, or the replies to the messages it delivered.\<close>

definition replies :: "endian \<Rightarrow> (message \<Rightarrow> message option) \<Rightarrow> message list \<Rightarrow> bytes list" where
  "replies e f ms = concat (map (\<lambda>m. case f m of None \<Rightarrow> [] | Some r \<Rightarrow> [RpcFramer_encode e r]) ms)"

fun requested :: "endian \<Rightarrow> tcp_op \<Rightarrow> tcp_effect list \<Rightarrow> bytes list" where
  "requested e (OpSend w message) effs = [message]"
| "requested e (OpEvent f w revents rs ws) effs = replies e f (messages effs)"
| "requested e _ effs = []"

fun tcp_exec :: "endian \<Rightarrow> tcp_op list \<Rightarrow> tcp_conn \<Rightarrow> tcp_conn \<times> tcp_effect list \<times> bytes list" where
  "tcp_exec e [] c = (c, [], [])"
| "tcp_exec e (x # xs) c =
     (let (c1, effs1) = tcp_step e x c; (c2, effs2, reqs2) = tcp_exec e xs c1
      in (c2, effs1 @ effs2, requested e x effs1 @ reqs2))"

section \<open>The output stream\<close>

text \<open>Buffers are well formed, and a connection that holds output is registered for writing.\<close>

definition tcp_ok :: "tcp_conn \<Rightarrow> bool" where
  "tcp_ok c \<longleftrightarrow>
     buffer_ok (tc_input c) \<and> buffer_ok (tc_output c) \<and>
     (tc_state c \<noteq> TcpDisconnected \<longrightarrow> contents (tc_output c) \<noteq> [] \<longrightarrow> isWriting (tc_channel c))"

text \<open>The operation keeps the connection well formed and adds \<open>new\<close> to the end of the output stream.\<close>

definition emits :: "bytes \<Rightarrow> tcp_conn \<Rightarrow> tcp_result \<Rightarrow> bool" where
  "emits new c res \<longleftrightarrow>
     tcp_ok (fst res) \<and> written (snd res) @ contents (tc_output (fst res)) = contents (tc_output c) @ new"

lemma emits_refl: "tcp_ok c \<Longrightarrow> emits [] c (c, [])"
  by (simp add: emits_def)

lemma emits_silent: "emits new c (c1, effs) \<Longrightarrow> written effs' = [] \<Longrightarrow> emits new c (c1, effs' @ effs)"
  by (simp add: emits_def)

lemma emits_seq: "emits n1 c (c1, effs1) \<Longrightarrow> emits n2 c1 (c2, effs2) \<Longrightarrow> emits (n1 @ n2) c (c2, effs1 @ effs2)"
  by (auto simp: emits_def)

lemma emits_ok: "emits new c res \<Longrightarrow> tcp_ok (fst res)"
  by (simp add: emits_def)

lemma readable_zero: "buffer_ok b \<Longrightarrow> readableBytes b = 0 \<longleftrightarrow> contents b = []"
  by (simp add: readableBytes_contents)

lemma handleClose_emits: "tcp_ok c \<Longrightarrow> emits [] c (tcp_handleClose c)"
  by (simp add: emits_def tcp_handleClose_def tcp_ok_def)

lemma backpressure_same:
  "tc_state (fst (checkWriteBackpressureInLoop c)) = tc_state c" "tc_output (fst (checkWriteBackpressureInLoop c)) = tc_output c"
  "tc_input (fst (checkWriteBackpressureInLoop c)) = tc_input c" "tc_channel (fst (checkWriteBackpressureInLoop c)) = tc_channel c"
  "tc_hasMessageCb (fst (checkWriteBackpressureInLoop c)) = tc_hasMessageCb c"
  "written (snd (checkWriteBackpressureInLoop c)) = []" "messages (snd (checkWriteBackpressureInLoop c)) = []"
  by (simp_all add: checkWriteBackpressureInLoop_def Let_def)

lemma append_output_emits: "tcp_ok c \<Longrightarrow> emits rest c (tcp_append_output rest c)"
  by (simp add: emits_def tcp_append_output_def tcp_ok_def backpressure_same contents_buf_append)

text \<open>A message is accepted whole or not at all; not at all only when the connection is closed or the write failed.\<close>

definition refused :: "tcp_write \<Rightarrow> tcp_conn \<Rightarrow> bool" where
  "refused w c \<longleftrightarrow>
     tc_state c = TcpDisconnected \<or>
     readableBytes (tc_output c) = 0 \<and> (case w of WriteResult n err t \<Rightarrow> n < 0 \<and> err \<noteq> EAGAIN)"

lemma sendInLoop_emits:
  assumes "tcp_ok c"
  shows "emits (if refused w c then [] else message) c (tcp_sendInLoop w message c)"
proof (cases w)
  case (WriteResult n err t)
  show ?thesis
  proof (cases "tc_state c = TcpDisconnected \<or> readableBytes (tc_output c) \<noteq> 0")
    case True
    then show ?thesis
      using append_output_emits [OF assms] emits_refl [OF assms] by (auto simp: tcp_sendInLoop_def refused_def)
  next
    case False
    then have empty: "contents (tc_output c) = []" using assms readable_zero by (simp add: tcp_ok_def)
    have part: "emits message c (fst (tcp_append_output (drop k message) c),
        TcpWrite (take k message) # snd (tcp_append_output (drop k message) c))" for k
      using append_output_emits [OF assms, of "drop k message"] empty by (simp add: emits_def)
    show ?thesis
      using False WriteResult part [of "nat n"] append_output_emits [OF assms] assms empty
      by (auto simp: tcp_sendInLoop_def refused_def split_beta Let_def emits_def)
  qed
qed

lemma write_loop_emits: "tcp_ok c \<Longrightarrow> emits [] c (tcp_write_loop ws c)"
proof (induction ws c rule: tcp_write_loop.induct)
  case (1 c)
  then show ?case by (auto simp: emits_def tcp_ok_def readable_zero)
next
  case (2 n err t ws c)
  have ok: "buffer_ok (tc_output c)" using 2(3) by (simp add: tcp_ok_def)
  let ?c1 = "c\<lparr>tc_output := retrieve (nat n) (tc_output c), tc_lastActiveAt := t\<rparr>"
  have sent: "take (min (nat n) (readableBytes (tc_output c))) (peek (tc_output c)) = take (nat n) (contents (tc_output c))"
    using ok by (simp add: take_peek readableBytes_contents min_def)
  have c1: "tcp_ok ?c1" "contents (tc_output ?c1) = drop (nat n) (contents (tc_output c))"
    using 2(3) ok by (auto simp: tcp_ok_def contents_retrieve)
  have c2: "emits [] c (?c1\<lparr>tc_highWaterActive := False, tc_channel := disableWriting (tc_channel ?c1)\<rparr>,
      TcpWrite (take (nat n) (contents (tc_output c))) # effs)"
    if "readableBytes (tc_output ?c1) = 0" "written effs = []" for effs
    using that c1 ok by (simp add: emits_def tcp_ok_def readable_zero)
  have rest: "emits [] c (fst (tcp_write_loop ws ?c1),
      TcpWrite (take (nat n) (contents (tc_output c))) # snd (tcp_write_loop ws ?c1))"
    if "emits [] ?c1 (tcp_write_loop ws ?c1)"
    using that c1(2) by (simp add: emits_def)
  show ?case
  proof (cases "readableBytes (tc_output c) = 0")
    case True
    then show ?thesis using 2(3) by (auto simp: emits_def tcp_ok_def readable_zero)
  next
    case False
    then show ?thesis
      using 2 c1(1) c2 rest emits_refl [OF 2(3)] emits_silent [OF emits_refl [OF 2(3)], of "[TcpErrorLogged]"]
      by (auto simp: sent Let_def split_beta shutdownInLoop_def)
  qed
qed

text \<open>Some of the byte strings asked for, whole and in order, are what the operation adds to the stream.\<close>

definition emits_some :: "bytes list \<Rightarrow> tcp_conn \<Rightarrow> tcp_result \<Rightarrow> bool" where
  "emits_some reqs c res \<longleftrightarrow> (\<exists>ms. subseq ms reqs \<and> emits (concat ms) c res)"

lemma emits_some_none: "emits [] c res \<Longrightarrow> emits_some reqs c res"
  unfolding emits_some_def by (intro exI [of _ "[]"]) simp

lemma emits_some_seq:
  assumes "emits_some r1 c (c1, effs1)" and "emits_some r2 c1 (c2, effs2)"
  shows "emits_some (r1 @ r2) c (c2, effs1 @ effs2)"
proof -
  obtain m1 m2 where "subseq m1 r1" "emits (concat m1) c (c1, effs1)" "subseq m2 r2" "emits (concat m2) c1 (c2, effs2)"
    using assms by (auto simp: emits_some_def)
  then show ?thesis
    unfolding emits_some_def using emits_seq list_emb_append_mono by (metis concat_append)
qed

lemma emits_some_ok: "emits_some reqs c res \<Longrightarrow> tcp_ok (fst res)"
  by (auto simp: emits_some_def emits_def)

lemma sendInLoop_emits_some: "tcp_ok c \<Longrightarrow> emits_some [message] c (tcp_sendInLoop w message c)"
  unfolding emits_some_def using sendInLoop_emits [of c w message]
  by (intro exI [of _ "if refused w c then [] else [message]"]) auto

lemma reply_emits: "tcp_ok c \<Longrightarrow> emits_some (replies e f [m]) c (reply_with e f w m c)"
  using sendInLoop_emits_some emits_some_none [OF emits_refl]
  by (auto simp: reply_with_def replies_def sendMessage_def tcp_send_def split: option.split)

lemma deliver_emits: "tcp_ok c \<Longrightarrow> emits_some (replies e f ms) c (deliver_all (reply_with e f w) ms c)"
proof (induction ms arbitrary: c)
  case Nil
  then show ?case by (simp add: emits_some_none emits_refl)
next
  case (Cons m ms)
  obtain c1 effs1 where r: "reply_with e f w m c = (c1, effs1)" by fastforce
  have e1: "emits_some (replies e f [m]) c (c1, TcpMessage m # effs1)"
    using reply_emits [OF Cons.prems, of e f m w] r by (auto simp: emits_some_def emits_def)
  from emits_some_seq [OF this] Cons.IH [OF emits_some_ok [OF e1, simplified]]
  have "emits_some (replies e f [m] @ replies e f ms) c
      (fst (deliver_all (reply_with e f w) ms c1), (TcpMessage m # effs1) @ snd (deliver_all (reply_with e f w) ms c1))"
    by (metis prod.collapse)
  then show ?case
    by (simp add: r split_beta Let_def replies_def)
qed

text \<open>Callbacks leave the input side alone and pass on no messages themselves.\<close>

lemma reply_input:
  "tc_input (fst (reply_with e f w m c)) = tc_input c" "tc_hasMessageCb (fst (reply_with e f w m c)) = tc_hasMessageCb c"
  "messages (snd (reply_with e f w m c)) = []"
  by (auto simp: reply_with_def sendMessage_def tcp_send_def tcp_sendInLoop_def tcp_append_output_def backpressure_same
      Let_def split_beta split: option.split tcp_write.split)

lemma deliver_input:
  "tc_input (fst (deliver_all (reply_with e f w) ms c)) = tc_input c \<and>
   tc_hasMessageCb (fst (deliver_all (reply_with e f w) ms c)) = tc_hasMessageCb c \<and>
   messages (snd (deliver_all (reply_with e f w) ms c)) = ms"
  by (induction ms arbitrary: c) (simp_all add: Let_def split_beta reply_input)

lemma read_loop_emits:
  "tcp_ok c \<Longrightarrow> emits_some (replies e f (messages (snd (tcp_read_loop e (reply_with e f w) rs c)))) c
    (tcp_read_loop e (reply_with e f w) rs c)"
proof (induction rs arbitrary: c)
  case Nil
  then show ?case by (simp add: emits_some_none emits_refl)
next
  case (Cons r rs)
  show ?case
  proof (cases r)
    case (ReadBytes bs t)
    let ?c1 = "c\<lparr>tc_input := buf_append bs (tc_input c), tc_lastActiveAt := t\<rparr>"
    obtain ms b where d: "RpcFramer_decode e (tc_input ?c1) = (ms, b)" by fastforce
    have ok1: "tcp_ok ?c1" using Cons.prems by (simp add: tcp_ok_def)
    have ok2: "tcp_ok (?c1\<lparr>tc_input := b\<rparr>)"
      using ok1 RpcFramer_decode_refines [of "tc_input ?c1" e] d by (auto simp: tcp_ok_def split: prod.splits)
    define mid where "mid = (if tc_hasMessageCb c then deliver_all (reply_with e f w) ms (?c1\<lparr>tc_input := b\<rparr>) else (?c1, []))"
    have m: "emits_some (replies e f (messages (snd mid))) c mid"
    proof (cases "tc_hasMessageCb c")
      case True
      then show ?thesis
        using deliver_emits [OF ok2, of e f ms w] deliver_input [of e f w ms "?c1\<lparr>tc_input := b\<rparr>"]
        by (simp add: mid_def emits_some_def emits_def)
    next
      case False
      then show ?thesis using ok1 by (intro emits_some_none) (simp add: mid_def emits_def)
    qed
    have loop: "tcp_read_loop e (reply_with e f w) (r # rs) c =
        (fst (tcp_read_loop e (reply_with e f w) rs (fst mid)), snd mid @ snd (tcp_read_loop e (reply_with e f w) rs (fst mid)))"
      using d by (simp add: ReadBytes mid_def split_beta Let_def)
    show ?thesis
      using emits_some_seq [of _ c "fst mid" "snd mid"] m Cons.IH [OF emits_some_ok [OF m]]
      unfolding loop by (simp add: replies_def)
  next
    case ReadEnd
    then show ?thesis using Cons.prems by (simp add: emits_some_none handleClose_emits)
  next
    case (ReadFailed err)
    then show ?thesis
      using Cons emits_refl [OF Cons.prems] emits_silent [OF emits_refl [OF Cons.prems], of "[TcpErrorLogged]"]
      by (auto intro: emits_some_none)
  qed
qed

lemma write_loop_messages: "messages (snd (tcp_write_loop ws c)) = []"
  by (induction ws c rule: tcp_write_loop.induct) (auto simp: Let_def split_beta shutdownInLoop_def)

lemma callbacks_emit:
  "tcp_ok c \<Longrightarrow> emits_some (replies e f (messages (snd (tcp_callbacks e (reply_with e f w) rs ws cbs c)))) c
    (tcp_callbacks e (reply_with e f w) rs ws cbs c)"
proof (induction cbs arbitrary: c)
  case Nil
  then show ?case by (simp add: emits_some_none emits_refl)
next
  case (Cons cb cbs)
  let ?r = "tcp_callback e (reply_with e f w) rs ws cb c"
  have "emits_some (replies e f (messages (snd ?r))) c ?r"
    using Cons.prems read_loop_emits write_loop_emits handleClose_emits
    by (cases cb) (auto simp: tcp_handleRead_def tcp_handleWrite_def emits_def intro: emits_some_none)
  from emits_some_seq [of _ c "fst ?r" "snd ?r"] this Cons.IH [OF emits_some_ok [OF this]]
  show ?case by (simp add: Let_def split_beta replies_def)
qed

lemma tcp_step_emits:
  assumes "tcp_ok c"
  shows "emits_some (requested e x (snd (tcp_step e x c))) c (tcp_step e x c)"
proof (cases x)
  case (OpSend w message)
  then show ?thesis using sendInLoop_emits_some [OF assms] by simp
next
  case (OpEvent f w revents rs ws)
  then show ?thesis using callbacks_emit [OF assms] by (simp add: tcp_event_def)
qed (use assms in \<open>auto intro!: emits_some_none simp: emits_def tcp_ok_def slow_consumer_timer_def
    tcp_shutdown_def shutdownInLoop_def forceCloseInLoop_def connectDestroyed_def tcp_handleClose_def\<close>)

lemma tcp_exec_emits:
  "tcp_ok c \<Longrightarrow> tcp_exec e xs c = (c', effs, reqs) \<Longrightarrow> emits_some reqs c (c', effs)"
proof (induction xs arbitrary: c c' effs reqs)
  case Nil
  then show ?case by (simp add: emits_some_none emits_refl)
next
  case (Cons x xs)
  have e1: "emits_some (requested e x (snd (tcp_step e x c))) c (tcp_step e x c)"
    by (rule tcp_step_emits [OF Cons.prems(1)])
  obtain c2 effs2 reqs2 where r: "tcp_exec e xs (fst (tcp_step e x c)) = (c2, effs2, reqs2)"
    by (cases "tcp_exec e xs (fst (tcp_step e x c))")
  have "emits_some (requested e x (snd (tcp_step e x c)) @ reqs2) c (c2, snd (tcp_step e x c) @ effs2)"
    using emits_some_seq [of _ c "fst (tcp_step e x c)" "snd (tcp_step e x c)"] e1
      Cons.IH [OF emits_some_ok [OF e1] r] by simp
  then show ?case using Cons.prems(2) r by (simp add: split_beta Let_def)
qed

text \<open>A connection as \<^verbatim>\<open>TcpServer::newConnection\<close> sets it up, after \<^verbatim>\<open>connectEstablished\<close>.\<close>

definition accepted_conn :: "int \<Rightarrow> time \<Rightarrow> nat \<Rightarrow> tcp_conn" where
  "accepted_conn fd now mark =
     fst (connectEstablished now ((new_tcp_conn fd now)\<lparr>tc_hasConnectionCb := True, tc_hasMessageCb := True, tc_hasCloseCb := True,
       tc_highWaterMark := mark\<rparr>))"

lemma accepted_conn_simps [simp]:
  "tcp_ok (accepted_conn fd now mark)" "contents (tc_output (accepted_conn fd now mark)) = []"
  "tc_input (accepted_conn fd now mark) = new_buffer 1024" "tc_hasMessageCb (accepted_conn fd now mark)"
  "tc_state (accepted_conn fd now mark) = TcpConnected" "tc_hasCloseCb (accepted_conn fd now mark)"
  "buffer_ok (tc_output (accepted_conn fd now mark))" "tc_highWaterMark (accepted_conn fd now mark) = mark"
  "\<not> tc_highWaterActive (accepted_conn fd now mark)" "tc_slowConsumerTimeout (accepted_conn fd now mark) = 5000"
  "cl_callbacks (tc_channel (accepted_conn fd now mark)) = {ErrorCallback, CloseCallback, ReadCallback, WriteCallback}"
  by (auto simp: tcp_ok_def accepted_conn_def connectEstablished_def new_tcp_conn_def enableReading_def setCallback_def
      new_channel_def)

section \<open>The input stream\<close>

text \<open>The byte strings the reads of an operation append to the input buffer.\<close>

fun read_chunks :: "tcp_read list \<Rightarrow> bytes list" where
  "read_chunks [] = []"
| "read_chunks (ReadBytes bs t # rs) = bs # read_chunks rs"
| "read_chunks (ReadEnd # rs) = []"
| "read_chunks (ReadFailed err # rs) = (if err = EINTR then read_chunks rs else [])"

lemma read_loop_feed:
  "tc_hasMessageCb c \<Longrightarrow>
    messages (snd (tcp_read_loop e (reply_with e f w) rs c)) = fst (feed e (read_chunks rs) (tc_input c)) \<and>
    tc_input (fst (tcp_read_loop e (reply_with e f w) rs c)) = snd (feed e (read_chunks rs) (tc_input c)) \<and>
    tc_hasMessageCb (fst (tcp_read_loop e (reply_with e f w) rs c))"
proof (induction rs arbitrary: c)
  case (Cons r rs)
  show ?case
  proof (cases r)
    case (ReadBytes bs t)
    let ?c1 = "c\<lparr>tc_input := buf_append bs (tc_input c), tc_lastActiveAt := t\<rparr>"
    obtain ms b where d: "RpcFramer_decode e (buf_append bs (tc_input c)) = (ms, b)" by fastforce
    note dl = deliver_input [of e f w ms "?c1\<lparr>tc_input := b\<rparr>"]
    show ?thesis
      using Cons.prems d dl Cons.IH [of "fst (deliver_all (reply_with e f w) ms (?c1\<lparr>tc_input := b\<rparr>))"]
      by (simp add: ReadBytes split_beta Let_def)
  qed (use Cons in \<open>auto simp: tcp_handleClose_def\<close>)
qed simp

text \<open>The bytes an operation reads: those of the read callbacks the event runs.\<close>

definition callback_chunks :: "tcp_read list \<Rightarrow> channel_callback list \<Rightarrow> bytes list" where
  "callback_chunks rs cbs = concat (map (\<lambda>cb. if cb = ReadCallback then read_chunks rs else []) cbs)"

fun op_chunks :: "tcp_op \<Rightarrow> tcp_conn \<Rightarrow> bytes list" where
  "op_chunks (OpEvent f w revents rs ws) c = callback_chunks rs (handleEvent (setRevents revents (tc_channel c)))"
| "op_chunks _ c = []"

fun exec_chunks :: "endian \<Rightarrow> tcp_op list \<Rightarrow> tcp_conn \<Rightarrow> bytes list" where
  "exec_chunks e [] c = []"
| "exec_chunks e (x # xs) c = op_chunks x c @ exec_chunks e xs (fst (tcp_step e x c))"

definition feeds :: "endian \<Rightarrow> bytes list \<Rightarrow> tcp_conn \<Rightarrow> tcp_result \<Rightarrow> bool" where
  "feeds e chunks c res \<longleftrightarrow>
     messages (snd res) = fst (feed e chunks (tc_input c)) \<and> tc_input (fst res) = snd (feed e chunks (tc_input c)) \<and>
     tc_hasMessageCb (fst res)"

lemma feeds_seq:
  "feeds e x c (c1, effs1) \<Longrightarrow> feeds e y c1 (c2, effs2) \<Longrightarrow> feeds e (x @ y) c (c2, effs1 @ effs2)"
  by (simp add: feeds_def feed_append)

lemma write_loop_input:
  "tc_input (fst (tcp_write_loop ws c)) = tc_input c" "tc_hasMessageCb (fst (tcp_write_loop ws c)) = tc_hasMessageCb c"
  by (induction ws c rule: tcp_write_loop.induct) (auto simp: Let_def split_beta)

lemma callbacks_feed:
  "tc_hasMessageCb c \<Longrightarrow> feeds e (callback_chunks rs cbs) c (tcp_callbacks e (reply_with e f w) rs ws cbs c)"
proof (induction cbs arbitrary: c)
  case Nil
  then show ?case by (simp add: callback_chunks_def feeds_def)
next
  case (Cons cb cbs)
  let ?r = "tcp_callback e (reply_with e f w) rs ws cb c"
  have "feeds e (callback_chunks rs [cb]) c ?r"
    using Cons.prems read_loop_feed [of c e f w rs]
    by (cases cb) (simp_all add: callback_chunks_def feeds_def tcp_handleRead_def tcp_handleWrite_def tcp_handleClose_def
        write_loop_input write_loop_messages)
  from feeds_seq [of e _ c "fst ?r" "snd ?r"] this Cons.IH [of "fst ?r"]
  show ?case by (simp add: callback_chunks_def feeds_def Let_def split_beta feed_append)
qed

lemma tcp_step_feed:
  assumes "tc_hasMessageCb c"
  shows "feeds e (op_chunks x c) c (tcp_step e x c)"
proof (cases x)
  case (OpEvent f w revents rs ws)
  then show ?thesis using callbacks_feed [OF assms] by (simp add: tcp_event_def)
next
  case (OpSend w message)
  then show ?thesis
    using assms by (auto simp: feeds_def tcp_sendInLoop_def tcp_append_output_def backpressure_same Let_def split_beta
        split: tcp_write.split)
qed (use assms in \<open>auto simp: feeds_def slow_consumer_timer_def tcp_shutdown_def shutdownInLoop_def forceCloseInLoop_def
    connectDestroyed_def tcp_handleClose_def\<close>)

lemma tcp_exec_feed:
  "tc_hasMessageCb c \<Longrightarrow> tcp_exec e xs c = (c', effs, reqs) \<Longrightarrow> feeds e (exec_chunks e xs c) c (c', effs)"
proof (induction xs arbitrary: c c' effs reqs)
  case Nil
  then show ?case by (simp add: feeds_def)
next
  case (Cons x xs)
  have s: "feeds e (op_chunks x c) c (tcp_step e x c)" by (rule tcp_step_feed [OF Cons.prems(1)])
  obtain c2 effs2 reqs2 where r: "tcp_exec e xs (fst (tcp_step e x c)) = (c2, effs2, reqs2)"
    by (cases "tcp_exec e xs (fst (tcp_step e x c))")
  have "feeds e (exec_chunks e xs (fst (tcp_step e x c))) (fst (tcp_step e x c)) (c2, effs2)"
    using s by (intro Cons.IH [OF _ r]) (simp add: feeds_def)
  with feeds_seq [of e _ c "fst (tcp_step e x c)" "snd (tcp_step e x c)"] s
  have "feeds e (op_chunks x c @ exec_chunks e xs (fst (tcp_step e x c))) c (c2, snd (tcp_step e x c) @ effs2)"
    by simp
  then show ?case using Cons.prems(2) r by (simp add: split_beta Let_def)
qed

text \<open>A prefix of a stream of frames is whole frames and an incomplete one.\<close>

lemma next_frame_partial:
  assumes "length (msg_body m) \<le> unat kMaxBodyLen" and "RpcFramer_encode e' m = p @ q" and "q \<noteq> []"
  shows "next_frame e p = Incomplete"
proof (cases "next_frame e p")
  case (Frame x r)
  from next_frame_append(1) [OF this, of q] show ?thesis
    using next_frame_encode [OF assms(1), of e e' "[]"] assms(2,3) by simp
next
  case Rejected
  from next_frame_append(2) [OF this, of q] show ?thesis
    using next_frame_encode [OF assms(1), of e e' "[]"] assms(2) by simp
qed

lemma frames_prefix:
  assumes "\<forall>m \<in> set ms. length (msg_body m) \<le> unat kMaxBodyLen" and "concat (map (RpcFramer_encode e') ms) = p @ q"
  shows "\<exists>ms1 ms2 tail. ms = ms1 @ ms2 \<and> p = concat (map (RpcFramer_encode e') ms1) @ tail \<and> next_frame e tail = Incomplete"
  using assms
proof (induction ms arbitrary: p)
  case Nil
  then show ?case by (simp add: next_frame_def)
next
  case (Cons m ms)
  consider r where "p = RpcFramer_encode e' m @ r" "concat (map (RpcFramer_encode e') ms) = r @ q"
    | r where "RpcFramer_encode e' m = p @ r" "r \<noteq> []"
    using Cons.prems(2) by (auto simp: append_eq_append_conv2) blast
  then show ?case
  proof cases
    case 1
    with Cons obtain ms1 ms2 tail where "ms = ms1 @ ms2" "r = concat (map (RpcFramer_encode e') ms1) @ tail" "next_frame e tail = Incomplete"
      by auto
    then show ?thesis using 1 by (intro exI [of _ "m # ms1"] exI [of _ ms2] exI [of _ tail]) simp
  next
    case 2
    then show ?thesis
      using next_frame_partial [OF _ 2] Cons.prems(1) by (intro exI [of _ "[]"] exI [of _ "m # ms"] exI [of _ p]) simp
  qed
qed

definition heartbeat :: message where
  "heartbeat = \<lparr>msg_header = zero_header\<lparr>hdr_msgType := kMsgHeartbeat\<rparr>, msg_body = []\<rparr>"

section \<open>Properties\<close>

text \<open>C10: A connection never tears or reorders what it sends, and never forgets output it holds. Over any sequence
  of sends, poller events (with callbacks that answer inline), timers, shutdowns and closes, with any
  results of the system calls: the bytes written to the socket, followed by the output buffer, are the
  concatenation of some of the messages that were to be sent, whole and in order. Unless it is closed, a
  connection with output left is registered for writing, so the poller will resume the sending.\<close>

theorem tcp_sends_whole_messages:
  assumes "tcp_exec e xs (accepted_conn fd now mark) = (c, effs, reqs)"
  shows "(\<exists>ms. subseq ms reqs \<and> written effs @ contents (tc_output c) = concat ms) \<and>
    (contents (tc_output c) \<noteq> [] \<longrightarrow> tc_state c = TcpDisconnected \<or> isWriting (tc_channel c))"
  using tcp_exec_emits [OF _ assms] by (auto simp: emits_some_def emits_def tcp_ok_def)

theorem tcp_sends_whole_messages_witness:
  "\<exists>c effs reqs. tcp_exec Little [OpSend (WriteResult 1 EAGAIN 0) [1, 2, 3], OpSend (WriteResult 0 EAGAIN 0) [4]] (accepted_conn 5 0 100) =
       (c, effs, reqs) \<and> contents (tc_output c) = [2, 3, 4] \<and> isWriting (tc_channel c) \<and>
     (\<exists>ms. subseq ms reqs \<and> written effs @ [2, 3, 4] = concat ms)"
proof -
  let ?xs = "[OpSend (WriteResult 1 EAGAIN 0) [1, 2, 3], OpSend (WriteResult 0 EAGAIN 0) [4]]"
  obtain c effs reqs where r: "tcp_exec Little ?xs (accepted_conn 5 0 100) = (c, effs, reqs)"
    by (cases "tcp_exec Little ?xs (accepted_conn 5 0 100)")
  have "contents (tc_output (fst (tcp_exec Little ?xs (accepted_conn 5 0 100)))) = [2, 3, 4]"
    "tc_state (fst (tcp_exec Little ?xs (accepted_conn 5 0 100))) = TcpConnected"
    by (simp_all add: tcp_sendInLoop_def tcp_append_output_def readableBytes_contents contents_buf_append backpressure_same
        Let_def split_beta)
  with r tcp_sends_whole_messages [OF r] show ?thesis by auto
qed



text \<open>
  A peer that sends a request and then closes its sending side gets no answer: the poller reports input and
  hang-up together, the close callback runs first, the request is delivered to the closed connection,
  where sending fails, and the end of the stream runs the close callback a second time.
\<close>

theorem tcp_hangup_drops_reply:
  assumes "tc_state c = TcpConnected" and "tc_hasMessageCb c" and "tc_hasCloseCb c"
    and "cl_callbacks (tc_channel c) = {ErrorCallback, CloseCallback, ReadCallback, WriteCallback}"
    and "RpcFramer_decode e (buf_append (RpcFramer_encode e m) (tc_input c)) = ([on_wire m], b)"
  shows "snd (tcp_event e (reply_with e f w) (POLLIN OR POLLHUP) [ReadBytes (RpcFramer_encode e m) t, ReadEnd] [] c) =
    [TcpClose, TcpMessage (on_wire m), TcpClose]"
proof -
  have "handleEvent (setRevents (POLLIN OR POLLHUP) (tc_channel c)) = [CloseCallback, ReadCallback]"
    by (rule handleEvent_hup) (simp_all add: setRevents_def assms(4))
  then show ?thesis
    using assms(2,3,5)
    by (simp add: tcp_event_def tcp_handleClose_def tcp_handleRead_def reply_with_def sendMessage_def tcp_send_def
        split_beta Let_def split: option.split)
qed

text \<open>
  The output exceeds the mark, is drained completely and exceeds the mark again. The check started by the
  first crossing then closes the connection, although the second crossing has not lasted for the timeout
  of its own check.
\<close>

theorem slow_consumer_evicted_early:
  assumes "0 < mark" and "mark < length m"
  shows "fst (snd (tcp_exec e
      [OpSend (WriteResult (-1) EAGAIN 0) m, OpEvent f w POLLOUT [] [WriteResult (int (length m)) EAGAIN 1],
       OpSend (WriteResult (-1) EAGAIN 2) m, OpSlowTimer] (accepted_conn fd now mark))) =
    [TcpRunAfterSlow 5000, TcpWrite m, TcpRunAfterSlow 5000, TcpClose]"
proof -
  let ?c = "accepted_conn fd now mark"
  have ne: "m \<noteq> []" using assms(2) by auto
  define c1 where "c1 = fst (tcp_sendInLoop (WriteResult (-1) EAGAIN 0) m ?c)"
  have c1: "tcp_sendInLoop (WriteResult (-1) EAGAIN 0) m ?c = (c1, [TcpRunAfterSlow 5000])"
    "contents (tc_output c1) = m" "buffer_ok (tc_output c1)" "tc_state c1 = TcpConnected" "tc_hasCloseCb c1"
    "tc_highWaterMark c1 = mark" "tc_slowConsumerTimeout c1 = 5000"
    "cl_callbacks (tc_channel c1) = {ErrorCallback, CloseCallback, ReadCallback, WriteCallback}"
    using assms
    by (simp_all add: c1_def tcp_sendInLoop_def tcp_append_output_def checkWriteBackpressureInLoop_def readableBytes_contents
        contents_buf_append enableWriting_def Let_def)
  define c2 where "c2 = fst (tcp_handleWrite [WriteResult (int (length m)) EAGAIN 1] c1)"
  have c2: "tcp_handleWrite [WriteResult (int (length m)) EAGAIN 1] c1 = (c2, [TcpWrite m])"
    "contents (tc_output c2) = []" "buffer_ok (tc_output c2)" "tc_state c2 = TcpConnected" "tc_hasCloseCb c2"
    "tc_highWaterMark c2 = mark" "tc_slowConsumerTimeout c2 = 5000" "\<not> tc_highWaterActive c2"
    using assms(2) c1 ne
    by (simp_all add: c2_def tcp_handleWrite_def readableBytes_contents contents_retrieve take_peek Let_def)
  have ev: "tcp_event e (reply_with e f w) POLLOUT [] [WriteResult (int (length m)) EAGAIN 1] c1 = (c2, [TcpWrite m])"
    using c1(8) c2(1) by (simp add: tcp_event_def handleEvent_def setRevents_def poll_masks)
  define c3 where "c3 = fst (tcp_sendInLoop (WriteResult (-1) EAGAIN 2) m c2)"
  have c3: "tcp_sendInLoop (WriteResult (-1) EAGAIN 2) m c2 = (c3, [TcpRunAfterSlow 5000])"
    "contents (tc_output c3) = m" "buffer_ok (tc_output c3)" "tc_state c3 = TcpConnected" "tc_hasCloseCb c3"
    "tc_highWaterMark c3 = mark" "tc_highWaterActive c3"
    using assms c2
    by (simp_all add: c3_def tcp_sendInLoop_def tcp_append_output_def checkWriteBackpressureInLoop_def readableBytes_contents
        contents_buf_append Let_def)
  have "snd (slow_consumer_timer c3) = [TcpClose]"
    using assms c3 by (simp add: slow_consumer_timer_def tcp_handleClose_def readableBytes_contents)
  then show ?thesis
    by (simp add: c1(1) ev c3(1) split_beta Let_def)
qed

end
