(* ===== verification/RpcClusterChannel.thy ===== *)
theory RpcClusterChannel
  imports RpcController LoadBalancer CircuitBreaker RetryPolicy LocalRegistry Accounting
begin

text \<open>
  \<^verbatim>\<open>include/RpcClusterChannel.h\<close>, \<^verbatim>\<open>src/RpcClusterChannel.cpp\<close>: a logical channel to several instances, with load
  balancing, circuit breaking, retries and hedging. Channels and breakers are shared objects, so an
  instance holds their addresses and the breakers live in a store. A call is an element of the type
  parameter; its controller's status and its completion flag are stores too. Calling an instance, sleeping
  in a retry thread and waiting in the hedge timer are effects, which carry what the closure captured;
  \<open>cluster_step\<close> composes the cluster with the closures that are still to run.
  What an attempt observes of its environment (channels, clock, balancer, random numbers) is a record.
\<close>

section \<open>State\<close>

record cluster_instance =
  in_host :: bytes
  in_port :: u16
  in_channel :: nat
  in_breaker :: nat

record 'c cluster =
  cc_instances :: "cluster_instance list"
  cc_breakers :: "nat \<Rightarrow> breaker"
  cc_nextAddr :: nat
  cc_options :: retry_options
  cc_budget :: retry_budget
  cc_retries :: u32
  cc_status :: "'c \<Rightarrow> u16"
  cc_completed :: "'c \<Rightarrow> bool"

definition default_breaker :: breaker where
  "default_breaker = new_breaker 5 (1 / 2) (msec 10000)"

definition new_cluster :: "'c cluster" where
  "new_cluster = \<lparr>cc_instances = [], cc_breakers = \<lambda>_. default_breaker, cc_nextAddr = 0, cc_options = default_retry_options,
     cc_budget = new_budget 10, cc_retries = 0, cc_status = \<lambda>_. kOk, cc_completed = \<lambda>_. False\<rparr>"

text \<open>What the closures of one attempt captured; \<^verbatim>\<open>request\<close> and \<^verbatim>\<open>response\<close> are the caller's.\<close>

record 'c attempt =
  at_call :: 'c
  at_requestKey :: u32
  at_idempotent :: bool
  at_number :: u32
  at_options :: retry_options
  at_breaker :: nat

datatype 'c cluster_effect =
    StartChannel nat
  | StopChannel nat
  | CallInstance nat "'c attempt"               \<comment> \<open>\<^verbatim>\<open>callAsync\<close> on a channel, with \<^verbatim>\<open>wrappedDone\<close>\<close>
  | SpawnRetry u32 "'c attempt"                 \<comment> \<open>a thread that sleeps and attempts again\<close>
  | StartHedge u32 "'c attempt" nat             \<comment> \<open>\<^verbatim>\<open>runAfter\<close>, with the index of the first instance\<close>
  | UserDone 'c

type_synonym 'c cluster_result = "'c cluster \<times> 'c cluster_effect list"

section \<open>Instances\<close>

definition same_addr :: "bytes \<Rightarrow> u16 \<Rightarrow> cluster_instance \<Rightarrow> bool" where
  "same_addr host port inst \<longleftrightarrow> in_host inst = host \<and> in_port inst = port"

text \<open>A new channel and a new breaker get the next address.\<close>

definition make_instance :: "bytes \<Rightarrow> u16 \<Rightarrow> 'c cluster \<Rightarrow> cluster_instance \<times> 'c cluster_result" where
  "make_instance host port cl =
     (let a = cc_nextAddr cl
      in (\<lparr>in_host = host, in_port = port, in_channel = a, in_breaker = a\<rparr>,
          cl\<lparr>cc_nextAddr := a + 1, cc_breakers := (cc_breakers cl)(a := default_breaker)\<rparr>, [StartChannel a]))"

definition addInstance :: "bytes \<Rightarrow> u16 \<Rightarrow> 'c cluster \<Rightarrow> 'c cluster_result" where
  "addInstance host port cl =
     (if \<exists>inst \<in> set (cc_instances cl). same_addr host port inst then (cl, [])
      else let (inst, cl1, effs) = make_instance host port cl
           in (cl1\<lparr>cc_instances := cc_instances cl1 @ [inst]\<rparr>, effs))"

definition removeInstance :: "bytes \<Rightarrow> u16 \<Rightarrow> 'c cluster \<Rightarrow> 'c cluster" where
  "removeInstance host port cl = cl\<lparr>cc_instances := filter (\<lambda>inst. \<not> same_addr host port inst) (cc_instances cl)\<rparr>"

definition cluster_instanceCount :: "'c cluster \<Rightarrow> nat" where
  "cluster_instanceCount cl = length (cc_instances cl)"

definition setRetryOptions :: "retry_options \<Rightarrow> 'c cluster \<Rightarrow> 'c cluster" where
  "setRetryOptions options cl =
     cl\<lparr>cc_options := options, cc_budget := budget_reset (opt_budgetTokens options) (cc_budget cl)\<rparr>"

text \<open>The loop of \<^verbatim>\<open>applyInstances\<close>: \<open>old\<close> is \<^verbatim>\<open>instances_\<close>, the result is \<^verbatim>\<open>next\<close>.\<close>

fun next_instances :: "cluster_instance list \<Rightarrow> instance_info list \<Rightarrow> 'c cluster \<Rightarrow> cluster_instance list \<times> 'c cluster_result" where
  "next_instances old [] cl = ([], cl, [])"
| "next_instances old (info # infos) cl =
     (case filter (same_addr (ii_host info) (ii_port info)) old of
        inst # _ \<Rightarrow> let (rest, cl1, effs) = next_instances old infos cl in (inst # rest, cl1, effs)
      | [] \<Rightarrow> let (inst, cl1, effs1) = make_instance (ii_host info) (ii_port info) cl;
                  (rest, cl2, effs2) = next_instances old infos cl1
              in (inst # rest, cl2, effs1 @ effs2))"

definition applyInstances :: "instance_info list \<Rightarrow> 'c cluster \<Rightarrow> 'c cluster_result" where
  "applyInstances infos cl =
     (let (insts, cl1, effs) = next_instances (cc_instances cl) infos cl;
          removed = filter (\<lambda>inst. \<not> (\<exists>info \<in> set infos. same_addr (ii_host info) (ii_port info) inst)) (cc_instances cl)
      in (cl1\<lparr>cc_instances := insts\<rparr>, effs @ map (\<lambda>inst. StopChannel (in_channel inst)) removed))"

section \<open>One attempt\<close>

record attempt_env =
  ae_chan :: "nat \<Rightarrow> bool \<times> u64 \<times> rat"     \<comment> \<open>\<^verbatim>\<open>isHealthy\<close>, \<^verbatim>\<open>inflightCount\<close>, \<^verbatim>\<open>latencyEmaMs\<close> of a channel\<close>
  ae_clock :: "nat \<Rightarrow> time"                \<comment> \<open>read by \<^verbatim>\<open>isAvailable\<close> of the \<open>i\<close>-th instance\<close>
  ae_pick :: "(instance_state list \<Rightarrow> u32 \<Rightarrow> nat) option"   \<comment> \<open>the balancer, if one is set\<close>
  ae_rand :: "nat \<times> nat"                   \<comment> \<open>the two draws of \<^verbatim>\<open>std::rand\<close>\<close>
  ae_allow :: "time \<times> time"                \<comment> \<open>read by \<^verbatim>\<open>allowRequest\<close>\<close>
  ae_backoff :: nat                        \<comment> \<open>the draw of \<^verbatim>\<open>jitterBackoff\<close>\<close>

definition RAND_MAX :: nat where "RAND_MAX = 2147483647"

definition instance_states :: "attempt_env \<Rightarrow> nat option \<Rightarrow> 'c cluster \<Rightarrow> instance_state list" where
  "instance_states env excluded cl =
     map (\<lambda>(i, inst). case ae_chan env (in_channel inst) of (ok, n, ema) \<Rightarrow>
            \<lparr>healthy = (excluded \<noteq> Some i \<and> ok \<and> isAvailable (ae_clock env i) (cc_breakers cl (in_breaker inst))),
             inflight = n, latencyEmaMs = ema, weight = 1\<rparr>)
       (enumerate 0 (cc_instances cl))"

definition open_indices :: "'c cluster \<Rightarrow> nat list" where
  "open_indices cl = filter (\<lambda>i. isOpen (cc_breakers cl (in_breaker (cc_instances cl ! i)))) [0..<length (cc_instances cl)]"

text \<open>The balancer's choice; without one, the first healthy instance, or the first one.\<close>

definition choose_index :: "attempt_env \<Rightarrow> u32 \<Rightarrow> instance_state list \<Rightarrow> nat" where
  "choose_index env key states =
     (if states = [] then 0
      else case ae_pick env of
             Some pick \<Rightarrow> pick states key
           | None \<Rightarrow> (case healthy_indices states of [] \<Rightarrow> 0 | i # _ \<Rightarrow> i))"

text \<open>The callback \<^verbatim>\<open>sharedDone\<close> of \<^verbatim>\<open>callAsync\<close>: the first finisher wins.\<close>

definition shared_done :: "'c \<Rightarrow> 'c cluster \<Rightarrow> 'c cluster_result" where
  "shared_done c cl =
     (if cc_completed cl c then (cl, []) else (cl\<lparr>cc_completed := (cc_completed cl)(c := True)\<rparr>, [UserDone c]))"

definition maybeRetry :: "nat \<Rightarrow> bool \<Rightarrow> 'c attempt \<Rightarrow> 'c cluster \<Rightarrow> 'c cluster_result" where
  "maybeRetry rand success a cl =
     (if success then shared_done (at_call a) (cl\<lparr>cc_budget := refund (cc_budget cl)\<rparr>)
      else if shouldRetry (cc_status cl (at_call a)) (at_idempotent a) (at_number a) (opt_maxAttempts (at_options a))
      then case tryConsume (cc_budget cl) of (ok, b) \<Rightarrow>
             if ok
             then (cl\<lparr>cc_budget := b, cc_retries := cc_retries cl + 1\<rparr>,
                   [SpawnRetry (jitterBackoff rand (at_number a - 1) (opt_baseBackoffMs (at_options a)) (opt_maxBackoffMs (at_options a)))
                      (a\<lparr>at_number := at_number a + 1\<rparr>)])
             else shared_done (at_call a) (cl\<lparr>cc_budget := b\<rparr>)
      else shared_done (at_call a) cl)"

definition failCall :: "nat \<Rightarrow> u16 \<Rightarrow> 'c attempt \<Rightarrow> 'c cluster \<Rightarrow> 'c cluster_result" where
  "failCall rand status a cl = maybeRetry rand False a (cl\<lparr>cc_status := (cc_status cl)(at_call a := status)\<rparr>)"

text \<open>Recovery rate limiting: the instance that is admitted although every instance is circuit-open.\<close>

definition recovery_pick :: "rounding \<Rightarrow> attempt_env \<Rightarrow> 'c cluster \<Rightarrow> nat option" where
  "recovery_pick rnd env cl =
     (let n = length (cc_instances cl); opens = open_indices cl; working = opt_recoveryMinWorking (cc_options cl);
          p = min 1 (rnd (rnd (of_nat (unat working)) / rnd (of_nat n)))
      in if working > 0 \<and> opens \<noteq> [] \<and> length opens = n \<and> n > 0 \<and>
            rnd (rnd (of_nat (fst (ae_rand env))) / rnd (of_nat RAND_MAX)) < p
         then Some (opens ! (snd (ae_rand env) mod length opens)) else None)"

text \<open>The end of \<^verbatim>\<open>attemptOnce\<close>: fail fast, or ask the breaker of the chosen instance and call it.\<close>

definition attempt_on :: "rounding \<Rightarrow> attempt_env \<Rightarrow> 'c attempt \<Rightarrow> nat option \<Rightarrow> 'c cluster \<Rightarrow> 'c cluster_result" where
  "attempt_on rnd env a chosen cl =
     (case chosen of
        None \<Rightarrow> failCall (ae_backoff env) kUnknown a cl
      | Some i \<Rightarrow>
          let b = in_breaker (cc_instances cl ! i);
              (ok, brk) = allowRequest rnd (fst (ae_allow env)) (snd (ae_allow env)) (cc_breakers cl b);
              cl1 = cl\<lparr>cc_breakers := (cc_breakers cl)(b := brk)\<rparr>
          in if \<not> ok then failCall (ae_backoff env) kConcurrencyLimited a cl1
             else (cl1, [CallInstance (in_channel (cc_instances cl ! i)) (a\<lparr>at_breaker := b\<rparr>)]))"

definition hedge_effects :: "'c attempt \<Rightarrow> bool \<Rightarrow> nat \<Rightarrow> 'c cluster \<Rightarrow> 'c cluster_effect list" where
  "hedge_effects a hedge idx cl =
     (if hedge \<and> opt_hedgeAfterMs (at_options a) > 0 \<and> at_number a = 1 \<and> at_idempotent a \<and> idx < length (cc_instances cl)
      then [StartHedge (opt_hedgeAfterMs (at_options a)) a idx] else [])"

definition attemptOnce :: "rounding \<Rightarrow> attempt_env \<Rightarrow> 'c attempt \<Rightarrow> nat option \<Rightarrow> bool \<Rightarrow> 'c cluster \<Rightarrow> 'c cluster_result" where
  "attemptOnce rnd env a0 excluded hedge cl =
     (let states = instance_states env excluded cl;
          a = a0\<lparr>at_options := cc_options cl\<rparr>;
          idx = choose_index env (at_requestKey a) states;
          unusable = (idx \<ge> length (cc_instances cl) \<or> \<not> healthy (states ! idx));
          (cl1, effs) = attempt_on rnd env a (if unusable then recovery_pick rnd env cl else Some idx) cl
      in (cl1, hedge_effects a hedge idx cl @ effs))"

text \<open>\<open>c\<close> is a fresh call, so its completion flag is false.\<close>

definition cluster_callAsync :: "rounding \<Rightarrow> attempt_env \<Rightarrow> 'c \<Rightarrow> u32 \<Rightarrow> bool \<Rightarrow> 'c cluster \<Rightarrow> 'c cluster_result" where
  "cluster_callAsync rnd env c key idem cl =
     attemptOnce rnd env \<lparr>at_call = c, at_requestKey = key, at_idempotent = idem, at_number = 1, at_options = cc_options cl,
         at_breaker = 0\<rparr> None True (cl\<lparr>cc_completed := (cc_completed cl)(c := False)\<rparr>)"

text \<open>\<^verbatim>\<open>wrappedDone\<close>: the channel has set the controller's status; \<open>t1\<close>, \<open>t2\<close>, \<open>t3\<close> are the breaker's clock readings.\<close>

definition wrappedDone :: "time \<Rightarrow> time \<Rightarrow> time \<Rightarrow> nat \<Rightarrow> u16 \<Rightarrow> 'c attempt \<Rightarrow> 'c cluster \<Rightarrow> 'c cluster_result" where
  "wrappedDone t1 t2 t3 rand status a cl0 =
     (let cl = cl0\<lparr>cc_status := (cc_status cl0)(at_call a := status)\<rparr>; b = at_breaker a
      in if status = kOk
         then maybeRetry rand True a (cl\<lparr>cc_breakers := (cc_breakers cl)(b := onSuccess t1 t2 t3 (cc_breakers cl b))\<rparr>)
         else if status \<noteq> kUnknown
         then maybeRetry rand False a (cl\<lparr>cc_breakers := (cc_breakers cl)(b := onError t1 t2 t3 (cc_breakers cl b))\<rparr>)
         else maybeRetry rand False a cl)"

text \<open>The hedge timer: a backup on another instance, unless the call is complete.\<close>

definition hedge_timer :: "rounding \<Rightarrow> attempt_env \<Rightarrow> 'c attempt \<Rightarrow> nat \<Rightarrow> 'c cluster \<Rightarrow> 'c cluster_result" where
  "hedge_timer rnd env a firstIdx cl =
     (if cc_completed cl (at_call a) then (cl, []) else attemptOnce rnd env (a\<lparr>at_number := 1\<rparr>) (Some firstIdx) False cl)"

text \<open>The thread of a retry, after its sleep.\<close>

definition retry_thread :: "rounding \<Rightarrow> attempt_env \<Rightarrow> 'c attempt \<Rightarrow> 'c cluster \<Rightarrow> 'c cluster_result" where
  "retry_thread rnd env a cl = attemptOnce rnd env a None False cl"

text \<open>
  \<^verbatim>\<open>call()\<close>: it waits twice for the callback, which comes \<open>after\<close> the start or never, and returns whether the
  status is OK. The second component tells whether the callback had run by then; if not, it still refers
  to the variables of the caller's stack frame.
\<close>

definition waitMs :: "u32 \<Rightarrow> u32" where
  "waitMs timeoutMs = (if timeoutMs > 0 then timeoutMs + 2000 else 15000)"

definition cluster_call :: "u32 \<Rightarrow> time option \<Rightarrow> u16 \<Rightarrow> bool \<times> bool" where
  "cluster_call timeoutMs after status =
     (status = kOk, case after of None \<Rightarrow> False | Some d \<Rightarrow> d \<le> 2 * msec (uint (waitMs timeoutMs)))"

section \<open>Executions\<close>

text \<open>The cluster with the attempts in flight, the retry threads and the hedge timers.\<close>

record 'c cluster_sys =
  cs_cluster :: "'c cluster"
  cs_inflight :: "'c attempt list"
  cs_retrying :: "'c attempt list"
  cs_hedges :: "('c attempt \<times> nat) list"

datatype 'c cluster_op =
    ClCall attempt_env 'c u32 bool
  | ClDone nat time time time nat u16
  | ClRetry nat attempt_env
  | ClHedge nat attempt_env

fun call_of :: "'c cluster_effect \<Rightarrow> 'c attempt list" where
  "call_of (CallInstance ch a) = [a]" | "call_of _ = []"

fun retry_of :: "'c cluster_effect \<Rightarrow> 'c attempt list" where
  "retry_of (SpawnRetry ms a) = [a]" | "retry_of _ = []"

fun hedge_of :: "'c cluster_effect \<Rightarrow> ('c attempt \<times> nat) list" where
  "hedge_of (StartHedge ms a i) = [(a, i)]" | "hedge_of _ = []"

fun done_of_effect :: "'c cluster_effect \<Rightarrow> 'c list" where
  "done_of_effect (UserDone c) = [c]" | "done_of_effect _ = []"

definition calls_in :: "'c cluster_effect list \<Rightarrow> 'c attempt list" where "calls_in effs = concat (map call_of effs)"
definition retries_in :: "'c cluster_effect list \<Rightarrow> 'c attempt list" where "retries_in effs = concat (map retry_of effs)"
definition hedges_in :: "'c cluster_effect list \<Rightarrow> ('c attempt \<times> nat) list" where "hedges_in effs = concat (map hedge_of effs)"
definition dones_in :: "'c cluster_effect list \<Rightarrow> 'c list" where "dones_in effs = concat (map done_of_effect effs)"

lemma effects_in_simps [simp]:
  "calls_in [] = []" "calls_in (x # xs) = call_of x @ calls_in xs" "calls_in (xs @ ys) = calls_in xs @ calls_in ys"
  "retries_in [] = []" "retries_in (x # xs) = retry_of x @ retries_in xs" "retries_in (xs @ ys) = retries_in xs @ retries_in ys"
  "hedges_in [] = []" "hedges_in (x # xs) = hedge_of x @ hedges_in xs" "hedges_in (xs @ ys) = hedges_in xs @ hedges_in ys"
  "dones_in [] = []" "dones_in (x # xs) = done_of_effect x @ dones_in xs" "dones_in (xs @ ys) = dones_in xs @ dones_in ys"
  by (simp_all add: calls_in_def retries_in_def hedges_in_def dones_in_def)

definition cluster_absorb :: "'c cluster_result \<Rightarrow> 'c cluster_sys \<Rightarrow> 'c cluster_sys \<times> 'c cluster_effect list" where
  "cluster_absorb res sys =
     (sys\<lparr>cs_cluster := fst res, cs_inflight := cs_inflight sys @ calls_in (snd res),
          cs_retrying := cs_retrying sys @ retries_in (snd res), cs_hedges := cs_hedges sys @ hedges_in (snd res)\<rparr>, snd res)"

fun cluster_step :: "rounding \<Rightarrow> 'c cluster_op \<Rightarrow> 'c cluster_sys \<Rightarrow> 'c cluster_sys \<times> 'c cluster_effect list" where
  "cluster_step rnd (ClCall env c key idem) sys = cluster_absorb (cluster_callAsync rnd env c key idem (cs_cluster sys)) sys"
| "cluster_step rnd (ClDone i t1 t2 t3 rand status) sys =
     (if i < length (cs_inflight sys)
      then cluster_absorb (wrappedDone t1 t2 t3 rand status (cs_inflight sys ! i) (cs_cluster sys))
             (sys\<lparr>cs_inflight := remove_at i (cs_inflight sys)\<rparr>)
      else (sys, []))"
| "cluster_step rnd (ClRetry i env) sys =
     (if i < length (cs_retrying sys)
      then cluster_absorb (retry_thread rnd env (cs_retrying sys ! i) (cs_cluster sys))
             (sys\<lparr>cs_retrying := remove_at i (cs_retrying sys)\<rparr>)
      else (sys, []))"
| "cluster_step rnd (ClHedge i env) sys =
     (if i < length (cs_hedges sys)
      then cluster_absorb (hedge_timer rnd env (fst (cs_hedges sys ! i)) (snd (cs_hedges sys ! i)) (cs_cluster sys))
             (sys\<lparr>cs_hedges := remove_at i (cs_hedges sys)\<rparr>)
      else (sys, []))"

definition idle_cluster :: "'c cluster \<Rightarrow> 'c cluster_sys" where
  "idle_cluster cl = \<lparr>cs_cluster = cl, cs_inflight = [], cs_retrying = [], cs_hedges = []\<rparr>"

fun issued_call :: "'c cluster_op \<Rightarrow> 'c list" where
  "issued_call (ClCall env c key idem) = [c]" | "issued_call _ = []"

definition issued_calls :: "'c cluster_op list \<Rightarrow> 'c list" where
  "issued_calls xs = concat (map issued_call xs)"

section \<open>The outcome of an attempt\<close>

text \<open>
  An attempt either passes its call on, to one instance or to one retry thread with the next number, or
  completes it.
\<close>

definition continues :: "'c attempt \<Rightarrow> 'c cluster \<Rightarrow> 'c cluster_result \<Rightarrow> bool" where
  "continues a cl res \<longleftrightarrow>
     (\<exists>a'. at_call a' = at_call a \<and> at_options a' = cc_options cl \<and>
        (calls_in (snd res) = [a'] \<and> retries_in (snd res) = [] \<and> at_number a' = at_number a \<or>
         calls_in (snd res) = [] \<and> retries_in (snd res) = [a'] \<and> at_number a' = at_number a + 1 \<and>
           at_number a < opt_maxAttempts (cc_options cl))) \<and>
     dones_in (snd res) = [] \<and> cc_completed (fst res) = cc_completed cl"

definition completes :: "'c attempt \<Rightarrow> 'c cluster \<Rightarrow> 'c cluster_result \<Rightarrow> bool" where
  "completes a cl res \<longleftrightarrow>
     calls_in (snd res) = [] \<and> retries_in (snd res) = [] \<and>
     dones_in (snd res) = (if cc_completed cl (at_call a) then [] else [at_call a]) \<and>
     cc_completed (fst res) = (cc_completed cl)(at_call a := True)"

definition outcome :: "'c attempt \<Rightarrow> 'c cluster \<Rightarrow> 'c cluster_result \<Rightarrow> bool" where
  "outcome a cl res \<longleftrightarrow> (continues a cl res \<or> completes a cl res) \<and> cc_options (fst res) = cc_options cl"

lemma shared_done_completes: "completes a cl (shared_done (at_call a) cl)"
  by (auto simp: completes_def shared_done_def fun_upd_idem)

lemma shared_done_same [simp]:
  "cc_options (fst (shared_done c cl)) = cc_options cl" "hedges_in (snd (shared_done c cl)) = []"
  by (simp_all add: shared_done_def)

lemma maybeRetry_outcome:
  assumes "at_options a = cc_options cl"
  shows "outcome a cl (maybeRetry rand success a cl)" "hedges_in (snd (maybeRetry rand success a cl)) = []"
proof -
  have fin: "completes a cl (shared_done (at_call a) (cl\<lparr>cc_budget := b\<rparr>))" for b
    using shared_done_completes [of a "cl\<lparr>cc_budget := b\<rparr>"] by (simp add: completes_def)
  show "outcome a cl (maybeRetry rand success a cl)"
    using assms fin fin [of "cc_budget cl"]
    by (auto simp: maybeRetry_def outcome_def continues_def shouldRetry_def split: prod.split if_splits)
  show "hedges_in (snd (maybeRetry rand success a cl)) = []"
    by (simp add: maybeRetry_def split: prod.split)
qed

lemma outcome_cong:
  "outcome a cl1 res \<Longrightarrow> cc_completed cl1 = cc_completed cl \<Longrightarrow> cc_options cl1 = cc_options cl \<Longrightarrow> outcome a cl res"
  by (simp add: outcome_def continues_def completes_def)

lemma maybeRetry_after:
  assumes "at_options a = cc_options cl" and "cc_completed cl1 = cc_completed cl" and "cc_options cl1 = cc_options cl"
  shows "outcome a cl (maybeRetry rand success a cl1)" "hedges_in (snd (maybeRetry rand success a cl1)) = []"
  using maybeRetry_outcome [of a cl1] outcome_cong [of a cl1 _ cl] assms by simp_all

lemma failCall_outcome:
  assumes "at_options a = cc_options cl" and "cc_completed cl1 = cc_completed cl" and "cc_options cl1 = cc_options cl"
  shows "outcome a cl (failCall rand status a cl1)" "hedges_in (snd (failCall rand status a cl1)) = []"
  unfolding failCall_def using maybeRetry_after [OF assms(1), of "cl1\<lparr>cc_status := _\<rparr>"] assms by simp_all

lemma wrappedDone_outcome:
  assumes "at_options a = cc_options cl"
  shows "outcome a cl (wrappedDone t1 t2 t3 rand status a cl)" "hedges_in (snd (wrappedDone t1 t2 t3 rand status a cl)) = []"
  using maybeRetry_after [OF assms, of "cl\<lparr>cc_status := _\<rparr>"] maybeRetry_after [OF assms, of "cl\<lparr>cc_status := _, cc_breakers := _\<rparr>"]
  by (simp_all add: wrappedDone_def Let_def)

lemma attempt_on_outcome:
  assumes "at_options a = cc_options cl"
  shows "outcome a cl (attempt_on rnd env a chosen cl)" "hedges_in (snd (attempt_on rnd env a chosen cl)) = []"
proof -
  have call: "outcome a cl (cl\<lparr>cc_breakers := s\<rparr>, [CallInstance ch (a\<lparr>at_breaker := b\<rparr>)])" for s ch b
    using assms by (auto simp: outcome_def continues_def)
  show "outcome a cl (attempt_on rnd env a chosen cl)" "hedges_in (snd (attempt_on rnd env a chosen cl)) = []"
    using call failCall_outcome [OF assms, of cl] failCall_outcome [OF assms, of "cl\<lparr>cc_breakers := _\<rparr>"]
    by (simp_all add: attempt_on_def Let_def split_beta split: option.split)
qed

lemma outcome_tag: "outcome (a\<lparr>at_options := x\<rparr>) cl res = outcome a cl res"
  unfolding outcome_def continues_def completes_def by simp

lemma outcome_prefix:
  assumes "outcome a cl res" and "calls_in p = []" and "retries_in p = []" and "dones_in p = []"
  shows "outcome a cl (fst res, p @ snd res)"
  using assms unfolding outcome_def continues_def completes_def by simp

lemma attemptOnce_outcome:
  fixes cl :: "'c cluster"
  defines "tag \<equiv> \<lambda>a. a\<lparr>at_options := cc_options cl\<rparr>"
  shows "outcome a cl (attemptOnce rnd env a excluded hedge cl)"
    and "hedges_in (snd (attemptOnce rnd env a excluded False cl)) = []"
    and "\<exists>is. hedges_in (snd (attemptOnce rnd env a excluded hedge cl)) = map (\<lambda>i. (tag a, i)) is \<and> length is \<le> 1"
proof -
  define idx where "idx = choose_index env (at_requestKey (tag a)) (instance_states env excluded cl)"
  define chosen where "chosen = (if idx \<ge> length (cc_instances cl) \<or> \<not> healthy (instance_states env excluded cl ! idx)
    then recovery_pick rnd env cl else Some idx)"
  have eq: "attemptOnce rnd env a excluded h cl =
      (fst (attempt_on rnd env (tag a) chosen cl), hedge_effects (tag a) h idx cl @ snd (attempt_on rnd env (tag a) chosen cl))" for h
    by (simp add: attemptOnce_def Let_def split_beta tag_def idx_def chosen_def)
  have h: "calls_in (hedge_effects x h i cl) = []" "retries_in (hedge_effects x h i cl) = []" "dones_in (hedge_effects x h i cl) = []"
    for x h i by (simp_all add: hedge_effects_def)
  have o: "outcome (tag a) cl (attempt_on rnd env (tag a) chosen cl)" "hedges_in (snd (attempt_on rnd env (tag a) chosen cl)) = []"
    by (rule attempt_on_outcome, simp add: tag_def)+
  show "outcome a cl (attemptOnce rnd env a excluded hedge cl)"
    unfolding eq using outcome_prefix [OF _ h] o(1) by (simp add: outcome_tag tag_def)
  show "hedges_in (snd (attemptOnce rnd env a excluded False cl)) = []"
    using o(2) unfolding eq by (simp add: hedge_effects_def)
  show "\<exists>is. hedges_in (snd (attemptOnce rnd env a excluded hedge cl)) = map (\<lambda>i. (tag a, i)) is \<and> length is \<le> 1"
    using o(2) unfolding eq by (auto simp: hedge_effects_def intro: exI [of _ "[]"] exI [of _ "[idx]"])
qed

section \<open>Every call completes once\<close>

definition tokens :: "'c cluster_sys \<Rightarrow> 'c attempt set" where
  "tokens sys = set (cs_inflight sys) \<union> set (cs_retrying sys) \<union> fst ` set (cs_hedges sys)"

text \<open>
  The closures belong to issued calls; the callbacks made are those of the completed calls, one each; and every
  other issued call, except perhaps the one under way, has an attempt in flight or a retry thread.
\<close>

definition owned :: "'c list \<Rightarrow> 'c cluster_sys \<Rightarrow> bool" where
  "owned I sys \<longleftrightarrow> (\<forall>a \<in> tokens sys. at_call a \<in> set I \<and> at_options a = cc_options (cs_cluster sys))"

definition called_back :: "'c list \<Rightarrow> 'c cluster_effect list \<Rightarrow> 'c cluster \<Rightarrow> bool" where
  "called_back I effs cl \<longleftrightarrow> (\<forall>c. count_list (dones_in effs) c = (if c \<in> set I \<and> cc_completed cl c then 1 else 0))"

definition working :: "'c cluster_sys \<Rightarrow> 'c set" where
  "working sys = at_call ` (set (cs_inflight sys) \<union> set (cs_retrying sys))"

definition accounted :: "'c list \<Rightarrow> 'c cluster_effect list \<Rightarrow> 'c set \<Rightarrow> 'c cluster_sys \<Rightarrow> bool" where
  "accounted I effs away sys \<longleftrightarrow>
     owned I sys \<and> called_back I effs (cs_cluster sys) \<and>
     (\<forall>c \<in> set I - away. \<not> cc_completed (cs_cluster sys) c \<longrightarrow> c \<in> working sys)"

lemma absorb_simps [simp]:
  "cs_cluster (fst (cluster_absorb res sys)) = fst res" "snd (cluster_absorb res sys) = snd res"
  "working (fst (cluster_absorb res sys)) = working sys \<union> at_call ` (set (calls_in (snd res)) \<union> set (retries_in (snd res)))"
  "tokens (fst (cluster_absorb res sys)) =
     tokens sys \<union> set (calls_in (snd res)) \<union> set (retries_in (snd res)) \<union> fst ` set (hedges_in (snd res))"
  by (auto simp: cluster_absorb_def working_def tokens_def)

lemma accounted_absorb:
  assumes acc: "accounted I effs {at_call a} sys" and out: "outcome a (cs_cluster sys) res" and a: "at_call a \<in> set I"
    and h: "\<forall>x \<in> fst ` set (hedges_in (snd res)). at_call x = at_call a \<and> at_options x = cc_options (cs_cluster sys)"
  shows "accounted I (effs @ snd res) {} (fst (cluster_absorb res sys))"
proof -
  have opts: "cc_options (fst res) = cc_options (cs_cluster sys)" using out by (simp add: outcome_def)
  have own: "owned I sys" and cb: "called_back I effs (cs_cluster sys)" using acc by (simp_all add: accounted_def)
  have alive: "c \<in> working sys" if "c \<in> set I" "c \<noteq> at_call a" "\<not> cc_completed (cs_cluster sys) c" for c
    using acc that unfolding accounted_def by blast
  from out consider "continues a (cs_cluster sys) res" | "completes a (cs_cluster sys) res" by (auto simp: outcome_def)
  then show ?thesis
  proof cases
    case 1
    then obtain a' where a': "at_call a' = at_call a" "at_options a' = cc_options (cs_cluster sys)"
      "set (calls_in (snd res)) \<union> set (retries_in (snd res)) = {a'}" by (auto simp: continues_def)
    have union: "tokens sys \<union> set (calls_in (snd res)) \<union> set (retries_in (snd res)) \<union> H = tokens sys \<union> {a'} \<union> H" for H
      using a'(3) by blast
    have d: "dones_in (snd res) = []" "cc_completed (fst res) = cc_completed (cs_cluster sys)"
      using 1 by (auto simp: continues_def)
    have "owned I (fst (cluster_absorb res sys))"
      using own a h a'(1,2) unfolding owned_def absorb_simps opts union by (metis UnE singletonD)
    moreover have "called_back I (effs @ snd res) (fst res)" using cb d by (simp add: called_back_def)
    moreover have "c \<in> working (fst (cluster_absorb res sys))" if "c \<in> set I" "\<not> cc_completed (fst res) c" for c
      using alive [OF that(1)] that(2) d(2) a'(1) unfolding absorb_simps a'(3) by auto
    ultimately show ?thesis by (simp add: accounted_def del: absorb_simps(3,4))
  next
    case 2
    then have none: "calls_in (snd res) = []" "retries_in (snd res) = []"
      and d: "dones_in (snd res) = (if cc_completed (cs_cluster sys) (at_call a) then [] else [at_call a])"
        "cc_completed (fst res) = (cc_completed (cs_cluster sys))(at_call a := True)" by (auto simp: completes_def)
    have "owned I (fst (cluster_absorb res sys))"
      using own a h unfolding owned_def absorb_simps opts none by (metis UnE empty_iff list.set(1))
    moreover have "called_back I (effs @ snd res) (fst res)" using cb d a by (simp add: called_back_def)
    moreover have "c \<in> working (fst (cluster_absorb res sys))" if "c \<in> set I" "\<not> cc_completed (fst res) c" for c
      using alive [OF that(1)] that(2) d(2) by (auto split: if_splits)
    ultimately show ?thesis by (simp add: accounted_def del: absorb_simps(3,4))
  qed
qed

text \<open>Removing the closure that runs.\<close>

lemma set_remove_at: "i < length xs \<Longrightarrow> set xs = insert (xs ! i) (set (remove_at i xs))"
  by (subst id_take_nth_drop [of i xs]) (auto simp: remove_at_def)

lemma accounted_remove:
  assumes acc: "accounted I effs {} sys"
  shows "i < length (cs_inflight sys) \<Longrightarrow>
      accounted I effs {at_call (cs_inflight sys ! i)} (sys\<lparr>cs_inflight := remove_at i (cs_inflight sys)\<rparr>)"
    and "i < length (cs_retrying sys) \<Longrightarrow>
      accounted I effs {at_call (cs_retrying sys ! i)} (sys\<lparr>cs_retrying := remove_at i (cs_retrying sys)\<rparr>)"
    and "i < length (cs_hedges sys) \<Longrightarrow> accounted I effs {} (sys\<lparr>cs_hedges := remove_at i (cs_hedges sys)\<rparr>)"
  using acc set_remove_at [of i "cs_inflight sys"] set_remove_at [of i "cs_retrying sys"] set_remove_at [of i "cs_hedges sys"]
  by (auto simp: accounted_def owned_def tokens_def working_def)

lemma accounted_weaken: "accounted I effs {} sys \<Longrightarrow> accounted I effs away sys"
  by (simp add: accounted_def)

lemma accounted_step:
  assumes acc: "accounted I effs {} sys" and fresh: "\<forall>c \<in> set (issued_call x). c \<notin> set I"
  shows "accounted (I @ issued_call x) (effs @ snd (cluster_step rnd x sys)) {} (fst (cluster_step rnd x sys))"
proof (cases x)
  case (ClCall env c key idem)
  let ?cl = "(cs_cluster sys)\<lparr>cc_completed := (cc_completed (cs_cluster sys))(c := False)\<rparr>"
  let ?a = "\<lparr>at_call = c, at_requestKey = key, at_idempotent = idem, at_number = 1, at_options = cc_options (cs_cluster sys), at_breaker = 0\<rparr>"
  define res where "res = attemptOnce rnd env ?a None True ?cl"
  have "accounted (I @ [c]) effs {c} (sys\<lparr>cs_cluster := ?cl\<rparr>)"
    using acc fresh unfolding ClCall accounted_def owned_def called_back_def working_def tokens_def by simp
  moreover have "outcome ?a ?cl res" unfolding res_def by (rule attemptOnce_outcome(1))
  moreover have "\<forall>x \<in> fst ` set (hedges_in (snd res)). at_call x = c \<and> at_options x = cc_options (cs_cluster sys)"
    using attemptOnce_outcome(3) [of rnd env ?a None True ?cl] by (auto simp: res_def)
  ultimately have "accounted (I @ [c]) (effs @ snd res) {} (fst (cluster_absorb res (sys\<lparr>cs_cluster := ?cl\<rparr>)))"
    by (intro accounted_absorb [of _ _ ?a]) simp_all
  then show ?thesis by (simp add: ClCall cluster_callAsync_def res_def cluster_absorb_def)
next
  case (ClDone i t1 t2 t3 rand status)
  show ?thesis
  proof (cases "i < length (cs_inflight sys)")
    case True
    let ?a = "cs_inflight sys ! i"
    have own: "at_call ?a \<in> set I \<and> at_options ?a = cc_options (cs_cluster sys)"
      using acc nth_mem [OF True] unfolding accounted_def owned_def tokens_def by blast
    have "accounted I (effs @ snd res) {} (fst (cluster_absorb res (sys\<lparr>cs_inflight := remove_at i (cs_inflight sys)\<rparr>)))"
      if "res = wrappedDone t1 t2 t3 rand status ?a (cs_cluster sys)" for res
      by (rule accounted_absorb [OF accounted_remove(1) [OF acc True]])
        (use own wrappedDone_outcome [of ?a "cs_cluster sys"] that in simp_all)
    then show ?thesis using True by (simp add: ClDone)
  qed (simp add: ClDone acc)
next
  case (ClRetry i env)
  show ?thesis
  proof (cases "i < length (cs_retrying sys)")
    case True
    let ?a = "cs_retrying sys ! i"
    have own: "at_call ?a \<in> set I"
      using acc nth_mem [OF True] unfolding accounted_def owned_def tokens_def by blast
    have "accounted I (effs @ snd res) {} (fst (cluster_absorb res (sys\<lparr>cs_retrying := remove_at i (cs_retrying sys)\<rparr>)))"
      if "res = attemptOnce rnd env ?a None False (cs_cluster sys)" for res
      by (rule accounted_absorb [OF accounted_remove(2) [OF acc True]])
        (use own that in \<open>simp_all add: attemptOnce_outcome(1,2)\<close>)
    then show ?thesis using True by (simp add: ClRetry retry_thread_def)
  qed (simp add: ClRetry acc)
next
  case (ClHedge i env)
  show ?thesis
  proof (cases "i < length (cs_hedges sys)")
    case True
    let ?a = "(fst (cs_hedges sys ! i))\<lparr>at_number := 1\<rparr>"
    have "fst (cs_hedges sys ! i) \<in> tokens sys" using nth_mem [OF True] by (simp add: tokens_def)
    then have own: "at_call ?a \<in> set I" using acc by (simp add: accounted_def owned_def)
    note rem = accounted_remove(3) [OF acc True]
    show ?thesis
    proof (cases "cc_completed (cs_cluster sys) (at_call ?a)")
      case True
      then show ?thesis using rem \<open>i < _\<close> by (simp add: ClHedge hedge_timer_def cluster_absorb_def)
    next
      case False
      have "accounted I (effs @ snd res) {} (fst (cluster_absorb res (sys\<lparr>cs_hedges := remove_at i (cs_hedges sys)\<rparr>)))"
        if "res = attemptOnce rnd env ?a (Some j) False (cs_cluster sys)" for res j
        by (rule accounted_absorb [OF accounted_weaken [OF rem], of ?a])
          (use own that in \<open>simp_all add: attemptOnce_outcome(1,2)\<close>)
      then show ?thesis using False \<open>i < _\<close> by (simp add: ClHedge hedge_timer_def)
    qed
  qed (simp add: ClHedge acc)
qed

lemma accounted_run:
  "accounted I effs {} sys \<Longrightarrow> distinct (I @ issued_calls xs) \<Longrightarrow>
    accounted (I @ issued_calls xs) (effs @ snd (run_ops (cluster_step rnd) xs sys)) {} (fst (run_ops (cluster_step rnd) xs sys))"
proof (induction xs arbitrary: I effs sys)
  case Nil
  then show ?case by (simp add: issued_calls_def)
next
  case (Cons x xs)
  have "accounted (I @ issued_call x) (effs @ snd (cluster_step rnd x sys)) {} (fst (cluster_step rnd x sys))"
    using Cons.prems by (intro accounted_step) (auto simp: issued_calls_def)
  from Cons.IH [OF this] Cons.prems(2) show ?case
    by (simp add: issued_calls_def split_beta Let_def)
qed

lemma accounted_idle: "accounted [] [] {} (idle_cluster cl)"
  by (simp add: accounted_def owned_def called_back_def tokens_def idle_cluster_def)

section \<open>Bounded work\<close>

text \<open>
  The calls of instances that the closures of a call may still cause: an attempt in flight with number \<open>k\<close> may be
  followed by the attempts \<open>k + 1\<close> to \<open>M\<close>, a retry thread also makes its own, and a hedge timer starts anew.
\<close>

definition budget_of :: "nat \<Rightarrow> 'c \<Rightarrow> 'c cluster_sys \<Rightarrow> nat" where
  "budget_of M c sys =
     sum_list (map (\<lambda>a. if at_call a = c then M - unat (at_number a) else 0) (cs_inflight sys)) +
     sum_list (map (\<lambda>a. if at_call a = c then M + 1 - unat (at_number a) else 0) (cs_retrying sys)) +
     sum_list (map (\<lambda>(a, i). if at_call a = c then M else 0) (cs_hedges sys))"

definition made :: "'c \<Rightarrow> 'c cluster_effect list \<Rightarrow> nat" where
  "made c effs = length (filter (\<lambda>a. at_call a = c) (calls_in effs))"

definition max_attempts :: "'c cluster \<Rightarrow> nat" where
  "max_attempts cl = max 1 (unat (opt_maxAttempts (cc_options cl)))"

definition numbered :: "'c cluster_sys \<Rightarrow> bool" where
  "numbered sys \<longleftrightarrow>
     (\<forall>a \<in> tokens sys. 1 \<le> unat (at_number a) \<and> unat (at_number a) \<le> max_attempts (cs_cluster sys) \<and>
        at_options a = cc_options (cs_cluster sys))"

text \<open>What an attempt adds: the instance it calls and what its new closures may still cause.\<close>

definition gain :: "nat \<Rightarrow> 'c \<Rightarrow> 'c cluster_effect list \<Rightarrow> nat" where
  "gain M c effs =
     made c effs +
     sum_list (map (\<lambda>a. if at_call a = c then M - unat (at_number a) else 0) (calls_in effs)) +
     sum_list (map (\<lambda>a. if at_call a = c then M + 1 - unat (at_number a) else 0) (retries_in effs))"

lemma budget_absorb:
  "made c effs + made c (snd res) + budget_of M c (fst (cluster_absorb res sys)) =
    made c effs + budget_of M c sys + gain M c (snd res) + sum_list (map (\<lambda>(a, i). if at_call a = c then M else 0) (hedges_in (snd res)))"
  by (simp add: budget_of_def cluster_absorb_def gain_def)

lemma unat_next_number:
  assumes "at_number a < opt_maxAttempts (cc_options cl)"
  shows "unat (at_number a + 1) = unat (at_number a) + 1" "unat (at_number a + 1) \<le> max_attempts cl"
proof -
  show eq: "unat (at_number a + 1) = unat (at_number a) + 1" using unat_succ [OF assms] by simp
  show "unat (at_number a + 1) \<le> max_attempts cl"
    unfolding eq using assms by (simp add: max_attempts_def word_less_nat_alt)
qed

lemma outcome_gain:
  assumes "outcome a cl res" and "unat (at_number a) \<le> max_attempts cl"
  shows "gain (max_attempts cl) c (snd res) \<le> (if at_call a = c then max_attempts cl + 1 - unat (at_number a) else 0)"
    and "calls_in (snd res) = [] \<Longrightarrow>
      gain (max_attempts cl) c (snd res) \<le> (if at_call a = c then max_attempts cl - unat (at_number a) else 0)"
    and "\<forall>x \<in> set (calls_in (snd res)) \<union> set (retries_in (snd res)). 1 \<le> unat (at_number a) \<longrightarrow>
      1 \<le> unat (at_number x) \<and> unat (at_number x) \<le> max_attempts cl \<and> at_options x = cc_options cl"
  using assms unat_next_number [of a cl]
  by (auto simp: outcome_def continues_def completes_def gain_def made_def)

definition within_bound :: "'c list \<Rightarrow> 'c cluster_effect list \<Rightarrow> 'c cluster_sys \<Rightarrow> bool" where
  "within_bound I effs sys \<longleftrightarrow>
     numbered sys \<and>
     (\<forall>c. made c effs + budget_of (max_attempts (cs_cluster sys)) c sys \<le> (if c \<in> set I then 2 * max_attempts (cs_cluster sys) else 0))"

definition well_numbered :: "'c cluster \<Rightarrow> 'c attempt \<Rightarrow> bool" where
  "well_numbered cl a \<longleftrightarrow> 1 \<le> unat (at_number a) \<and> unat (at_number a) \<le> max_attempts cl \<and> at_options a = cc_options cl"

lemma numbered_iff: "numbered sys \<longleftrightarrow> (\<forall>a \<in> tokens sys. well_numbered (cs_cluster sys) a)"
  by (simp add: numbered_def well_numbered_def)

lemma outcome_options: "outcome a cl res \<Longrightarrow> cc_options (fst res) = cc_options cl"
  by (simp add: outcome_def)

lemma numbered_absorb:
  assumes "numbered sys" and "outcome a (cs_cluster sys) res"
    and "1 \<le> unat (at_number a)" and "unat (at_number a) \<le> max_attempts (cs_cluster sys)"
    and "\<forall>x \<in> fst ` set (hedges_in (snd res)). well_numbered (cs_cluster sys) x"
  shows "numbered (fst (cluster_absorb res sys))" "max_attempts (fst res) = max_attempts (cs_cluster sys)"
proof -
  have o: "cc_options (fst res) = cc_options (cs_cluster sys)" by (rule outcome_options [OF assms(2)])
  then show m: "max_attempts (fst res) = max_attempts (cs_cluster sys)" by (simp add: max_attempts_def)
  have w: "well_numbered (fst res) x = well_numbered (cs_cluster sys) x" for x by (simp add: well_numbered_def m o)
  have "\<forall>x \<in> set (calls_in (snd res)) \<union> set (retries_in (snd res)). well_numbered (cs_cluster sys) x"
    using outcome_gain(3) [OF assms(2,4)] assms(3) by (simp add: well_numbered_def)
  with assms(1,5) show "numbered (fst (cluster_absorb res sys))"
    unfolding numbered_iff absorb_simps w by blast
qed

text \<open>An attempt that takes over the share of the closure it comes from stays within the bound.\<close>

lemma bound_absorb:
  assumes b: "\<forall>c. made c effs + budget_of (max_attempts (cs_cluster sys)) c sys + (if at_call a = c then share else 0) \<le> B c"
    and g: "\<forall>c. gain (max_attempts (cs_cluster sys)) c (snd res) \<le> (if at_call a = c then share else 0)"
    and h: "hedges_in (snd res) = []" and m: "max_attempts (fst res) = max_attempts (cs_cluster sys)"
  shows "made c (effs @ snd res) + budget_of (max_attempts (fst res)) c (fst (cluster_absorb res sys)) \<le> B c"
proof -
  have "made c (effs @ snd res) = made c effs + made c (snd res)" by (simp add: made_def)
  with budget_absorb [of c effs res "max_attempts (cs_cluster sys)" sys] b [THEN spec, of c] g [THEN spec, of c]
  show ?thesis by (simp add: h m)
qed

lemma budget_remove:
  "i < length (cs_inflight sys) \<Longrightarrow> budget_of M c sys =
    budget_of M c (sys\<lparr>cs_inflight := remove_at i (cs_inflight sys)\<rparr>) +
      (if at_call (cs_inflight sys ! i) = c then M - unat (at_number (cs_inflight sys ! i)) else 0)"
  "i < length (cs_retrying sys) \<Longrightarrow> budget_of M c sys =
    budget_of M c (sys\<lparr>cs_retrying := remove_at i (cs_retrying sys)\<rparr>) +
      (if at_call (cs_retrying sys ! i) = c then M + 1 - unat (at_number (cs_retrying sys ! i)) else 0)"
  "i < length (cs_hedges sys) \<Longrightarrow> budget_of M c sys =
    budget_of M c (sys\<lparr>cs_hedges := remove_at i (cs_hedges sys)\<rparr>) + (if at_call (fst (cs_hedges sys ! i)) = c then M else 0)"
  using remove_at_simps(3) [of i "cs_inflight sys" "\<lambda>a. if at_call a = c then M - unat (at_number a) else 0"]
    remove_at_simps(3) [of i "cs_retrying sys" "\<lambda>a. if at_call a = c then M + 1 - unat (at_number a) else 0"]
    remove_at_simps(3) [of i "cs_hedges sys" "\<lambda>(a, i). if at_call a = c then M else 0"]
  by (simp_all add: budget_of_def split_beta)

lemma numbered_remove:
  assumes "numbered sys"
  shows "i < length (cs_inflight sys) \<Longrightarrow> numbered (sys\<lparr>cs_inflight := remove_at i (cs_inflight sys)\<rparr>)"
    "i < length (cs_retrying sys) \<Longrightarrow> numbered (sys\<lparr>cs_retrying := remove_at i (cs_retrying sys)\<rparr>)"
    "i < length (cs_hedges sys) \<Longrightarrow> numbered (sys\<lparr>cs_hedges := remove_at i (cs_hedges sys)\<rparr>)"
  using assms remove_at_simps(2) [of i "cs_inflight sys"] remove_at_simps(2) [of i "cs_retrying sys"]
    remove_at_simps(2) [of i "cs_hedges sys"]
  unfolding numbered_iff tokens_def by (simp_all add: ball_Un) (blast dest: subsetD)+

lemma wrappedDone_no_call: "calls_in (snd (wrappedDone t1 t2 t3 rand status a cl)) = []"
  by (simp add: wrappedDone_def maybeRetry_def shared_done_def Let_def split: prod.split)

text \<open>One closure runs: \<open>sys0\<close> is the state without it, \<open>share\<close> what it accounted for.\<close>

lemma bound_resume:
  assumes b: "within_bound I effs sys" and n: "numbered sys0" and cl: "cs_cluster sys0 = cs_cluster sys"
    and split: "\<forall>c. budget_of (max_attempts (cs_cluster sys)) c sys =
      budget_of (max_attempts (cs_cluster sys)) c sys0 + (if at_call a = c then share else 0)"
    and out: "outcome a (cs_cluster sys) res" and h: "hedges_in (snd res) = []"
    and k: "1 \<le> unat (at_number a)" "unat (at_number a) \<le> max_attempts (cs_cluster sys)"
    and g: "\<forall>c. gain (max_attempts (cs_cluster sys)) c (snd res) \<le> (if at_call a = c then share else 0)"
  shows "within_bound I (effs @ snd res) (fst (cluster_absorb res sys0))"
proof -
  have m: "numbered (fst (cluster_absorb res sys0))" "max_attempts (fst res) = max_attempts (cs_cluster sys0)"
    using numbered_absorb [OF n, of a res] out k h cl by simp_all
  have "\<forall>c. made c effs + budget_of (max_attempts (cs_cluster sys0)) c sys0 + (if at_call a = c then share else 0) \<le>
      (if c \<in> set I then 2 * max_attempts (cs_cluster sys0) else 0)"
    using b split unfolding within_bound_def cl by (simp add: add.assoc)
  from bound_absorb [OF this _ h m(2)] g
  have "made c (effs @ snd res) + budget_of (max_attempts (fst res)) c (fst (cluster_absorb res sys0)) \<le>
      (if c \<in> set I then 2 * max_attempts (fst res) else 0)" for c
    unfolding m(2) cl by blast
  with m(1) show ?thesis unfolding within_bound_def absorb_simps(1) by blast
qed

lemma bound_done:
  assumes b: "within_bound I effs sys" and i: "i < length (cs_inflight sys)"
  shows "within_bound I (effs @ snd (cluster_step rnd (ClDone i t1 t2 t3 rand status) sys))
    (fst (cluster_step rnd (ClDone i t1 t2 t3 rand status) sys))"
proof -
  let ?a = "cs_inflight sys ! i" and ?M = "max_attempts (cs_cluster sys)"
  let ?res = "wrappedDone t1 t2 t3 rand status ?a (cs_cluster sys)"
  have n: "numbered sys" using b by (simp add: within_bound_def)
  then have w: "1 \<le> unat (at_number ?a)" "unat (at_number ?a) \<le> ?M" "at_options ?a = cc_options (cs_cluster sys)"
    using nth_mem [OF i] unfolding numbered_def tokens_def by blast+
  note out = wrappedDone_outcome [OF w(3), of t1 t2 t3 rand status]
  have "within_bound I (effs @ snd ?res) (fst (cluster_absorb ?res (sys\<lparr>cs_inflight := remove_at i (cs_inflight sys)\<rparr>)))"
  proof (rule bound_resume [OF b numbered_remove(1) [OF n i] _ _ out w(1,2)])
    show "\<forall>c. budget_of ?M c sys = budget_of ?M c (sys\<lparr>cs_inflight := remove_at i (cs_inflight sys)\<rparr>) +
        (if at_call ?a = c then ?M - unat (at_number ?a) else 0)"
      using budget_remove(1) [OF i] by blast
    show "\<forall>c. gain ?M c (snd ?res) \<le> (if at_call ?a = c then ?M - unat (at_number ?a) else 0)"
      using outcome_gain(2) [OF out(1) w(2) wrappedDone_no_call] by blast
  qed simp
  then show ?thesis using i by simp
qed

lemma bound_retry:
  assumes b: "within_bound I effs sys" and i: "i < length (cs_retrying sys)"
  shows "within_bound I (effs @ snd (cluster_step rnd (ClRetry i env) sys)) (fst (cluster_step rnd (ClRetry i env) sys))"
proof -
  let ?a = "cs_retrying sys ! i" and ?M = "max_attempts (cs_cluster sys)"
  let ?res = "attemptOnce rnd env ?a None False (cs_cluster sys)"
  have n: "numbered sys" using b by (simp add: within_bound_def)
  then have w: "1 \<le> unat (at_number ?a)" "unat (at_number ?a) \<le> ?M"
    using nth_mem [OF i] unfolding numbered_def tokens_def by blast+
  have out: "outcome ?a (cs_cluster sys) ?res" "hedges_in (snd ?res) = []" by (rule attemptOnce_outcome(1,2))+
  have "within_bound I (effs @ snd ?res) (fst (cluster_absorb ?res (sys\<lparr>cs_retrying := remove_at i (cs_retrying sys)\<rparr>)))"
  proof (rule bound_resume [OF b numbered_remove(2) [OF n i] _ _ out w])
    show "\<forall>c. budget_of ?M c sys = budget_of ?M c (sys\<lparr>cs_retrying := remove_at i (cs_retrying sys)\<rparr>) +
        (if at_call ?a = c then ?M + 1 - unat (at_number ?a) else 0)"
      using budget_remove(2) [OF i] by blast
    show "\<forall>c. gain ?M c (snd ?res) \<le> (if at_call ?a = c then ?M + 1 - unat (at_number ?a) else 0)"
      using outcome_gain(1) [OF out(1) w(2)] by blast
  qed simp
  then show ?thesis using i by (simp add: retry_thread_def)
qed

lemma bound_hedge:
  assumes b: "within_bound I effs sys" and i: "i < length (cs_hedges sys)"
  shows "within_bound I (effs @ snd (cluster_step rnd (ClHedge i env) sys)) (fst (cluster_step rnd (ClHedge i env) sys))"
proof -
  let ?a = "(fst (cs_hedges sys ! i))\<lparr>at_number := 1\<rparr>" and ?j = "snd (cs_hedges sys ! i)" and ?M = "max_attempts (cs_cluster sys)"
  let ?sys = "sys\<lparr>cs_hedges := remove_at i (cs_hedges sys)\<rparr>"
  let ?res = "attemptOnce rnd env ?a (Some ?j) False (cs_cluster sys)"
  have n: "numbered ?sys" using numbered_remove(3) [OF _ i] b by (simp add: within_bound_def)
  have rem: "\<forall>c. budget_of ?M c sys = budget_of ?M c ?sys + (if at_call ?a = c then ?M else 0)"
    using budget_remove(3) [OF i] by simp
  have num: "1 \<le> unat (at_number ?a)" "unat (at_number ?a) \<le> ?M" by (simp_all add: max_attempts_def)
  have out: "outcome ?a (cs_cluster sys) ?res" "hedges_in (snd ?res) = []" by (rule attemptOnce_outcome(1,2))+
  have share: "?M + 1 - unat (at_number ?a) = ?M" by simp
  have run: "within_bound I (effs @ snd ?res) (fst (cluster_absorb ?res ?sys))"
  proof (rule bound_resume [OF b n _ rem out num])
    show "\<forall>c. gain ?M c (snd ?res) \<le> (if at_call ?a = c then ?M else 0)"
      using outcome_gain(1) [OF out(1) num(2)] unfolding share by blast
  qed simp
  have "made c effs + budget_of ?M c ?sys \<le> (if c \<in> set I then 2 * ?M else 0)" for c
  proof -
    have "budget_of ?M c ?sys \<le> budget_of ?M c sys" using rem [THEN spec, of c] by linarith
    moreover have "made c effs + budget_of ?M c sys \<le> (if c \<in> set I then 2 * ?M else 0)"
      using b unfolding within_bound_def by blast
    ultimately show ?thesis by linarith
  qed
  moreover have "cs_cluster ?sys = cs_cluster sys" by simp
  ultimately have "within_bound I effs ?sys" using n unfolding within_bound_def by presburger
  with run show ?thesis using i by (simp add: hedge_timer_def cluster_absorb_def)
qed

lemma bound_call:
  assumes b: "within_bound I effs sys" and fresh: "c \<notin> set I"
  shows "within_bound (I @ [c]) (effs @ snd (cluster_step rnd (ClCall env c key idem) sys))
    (fst (cluster_step rnd (ClCall env c key idem) sys))"
proof -
  let ?cl = "(cs_cluster sys)\<lparr>cc_completed := (cc_completed (cs_cluster sys))(c := False)\<rparr>"
  let ?M = "max_attempts (cs_cluster sys)" and ?sys = "sys\<lparr>cs_cluster := ?cl\<rparr>"
  let ?a = "\<lparr>at_call = c, at_requestKey = key, at_idempotent = idem, at_number = 1, at_options = cc_options (cs_cluster sys), at_breaker = 0\<rparr>"
  define res where "res = attemptOnce rnd env ?a None True ?cl"
  have M: "max_attempts ?cl = ?M" "1 \<le> ?M" by (simp_all add: max_attempts_def)
  have out: "outcome ?a ?cl res" unfolding res_def by (rule attemptOnce_outcome(1))
  obtain js where js: "hedges_in (snd res) = map (\<lambda>j. (?a, j)) js" "length js \<le> 1"
    using attemptOnce_outcome(3) [of rnd env ?a None True ?cl] by (auto simp: res_def)
  have "numbered ?sys" using b by (simp add: within_bound_def numbered_def tokens_def M(1))
  then have num: "numbered (fst (cluster_absorb res ?sys))" "max_attempts (fst res) = ?M"
    using numbered_absorb [of ?sys ?a res] out M js by (simp_all add: well_numbered_def)
  have share: "max_attempts ?cl + 1 - unat (at_number ?a) = ?M" using M(1) by simp
  have g: "gain ?M c' (snd res) \<le> (if c = c' then ?M else 0)" for c'
    using outcome_gain(1) [OF out, of c'] M unfolding share by simp
  have hedge: "sum_list (map (\<lambda>(a, i). if at_call a = c' then ?M else 0) (hedges_in (snd res))) \<le> (if c = c' then ?M else 0)" for c'
    unfolding js(1) using js(2) by (cases js) simp_all
  have start: "made c' effs + budget_of ?M c' sys \<le> (if c' \<in> set I then 2 * ?M else 0)" for c'
    using b by (simp add: within_bound_def)
  have "made c' (effs @ snd res) + budget_of ?M c' (fst (cluster_absorb res ?sys)) \<le> (if c' \<in> set (I @ [c]) then 2 * ?M else 0)" for c'
  proof -
    have "made c' (effs @ snd res) + budget_of ?M c' (fst (cluster_absorb res ?sys)) =
        made c' effs + budget_of ?M c' sys + gain ?M c' (snd res) +
        sum_list (map (\<lambda>(a, i). if at_call a = c' then ?M else 0) (hedges_in (snd res)))"
      using budget_absorb [of c' effs res ?M ?sys] by (simp add: made_def budget_of_def)
    also have "\<dots> \<le> (if c' \<in> set I then 2 * ?M else 0) + (if c = c' then ?M else 0) + (if c = c' then ?M else 0)"
      by (intro add_mono start g hedge)
    finally show ?thesis using fresh by (auto split: if_splits)
  qed
  with num have "within_bound (I @ [c]) (effs @ snd res) (fst (cluster_absorb res ?sys))"
    unfolding within_bound_def absorb_simps(1) num(2) by blast
  then show ?thesis by (simp add: cluster_callAsync_def res_def cluster_absorb_def)
qed

lemma bound_run:
  "within_bound I effs sys \<Longrightarrow> distinct (I @ issued_calls xs) \<Longrightarrow>
    within_bound (I @ issued_calls xs) (effs @ snd (run_ops (cluster_step rnd) xs sys)) (fst (run_ops (cluster_step rnd) xs sys))"
proof (induction xs arbitrary: I effs sys)
  case Nil
  then show ?case by (simp add: issued_calls_def)
next
  case (Cons x xs)
  have "within_bound (I @ issued_call x) (effs @ snd (cluster_step rnd x sys)) (fst (cluster_step rnd x sys))"
  proof (cases x)
    case (ClCall env c key idem)
    then show ?thesis using Cons.prems bound_call [of I effs sys c] by (simp add: issued_calls_def del: cluster_step.simps)
  next
    case (ClDone i t1 t2 t3 rand status)
    then show ?thesis
      using Cons.prems(1) bound_done [OF Cons.prems(1)] by (cases "i < length (cs_inflight sys)") (simp_all del: cluster_step.simps, simp)
  next
    case (ClRetry i env)
    then show ?thesis
      using Cons.prems(1) bound_retry [OF Cons.prems(1)] by (cases "i < length (cs_retrying sys)") (simp_all del: cluster_step.simps, simp)
  next
    case (ClHedge i env)
    then show ?thesis
      using Cons.prems(1) bound_hedge [OF Cons.prems(1)] by (cases "i < length (cs_hedges sys)") (simp_all del: cluster_step.simps, simp)
  qed
  from Cons.IH [OF this] Cons.prems(2) show ?case
    by (simp add: issued_calls_def split_beta Let_def)
qed

lemma bound_idle: "within_bound [] [] (idle_cluster cl)"
  by (simp add: within_bound_def numbered_def tokens_def idle_cluster_def made_def budget_of_def)

section \<open>Properties\<close>

text \<open>A cluster with two instances, hedging after 20 ms, and what an attempt observes when both are healthy.\<close>

definition sample_cluster :: "u32 \<Rightarrow> 'c cluster" where
  "sample_cluster n = fst (addInstance [] 2 (fst (addInstance [] 1
     (setRetryOptions (default_retry_options\<lparr>opt_maxAttempts := n, opt_hedgeAfterMs := 20\<rparr>) new_cluster))))"

definition sample_env :: attempt_env where
  "sample_env = \<lparr>ae_chan = \<lambda>_. (True, 0, 0), ae_clock = \<lambda>_. 0, ae_pick = None, ae_rand = (0, 0), ae_allow = (0, 0), ae_backoff = 0\<rparr>"

text \<open>An execution: the call is hedged, the backup answers first, then the connection of the first attempt closes.\<close>

definition hedged_run :: "nat cluster_op list" where
  "hedged_run = [ClCall sample_env 5 7 True, ClHedge 0 sample_env, ClDone 1 0 0 0 0 kOk, ClDone 0 0 0 0 0 kUnknown, ClRetry 0 sample_env, ClDone 0 0 0 0 0 kOk]"

lemma hedged_run_effects:
  "issued_calls hedged_run = [5]"
  "cs_inflight (fst (run_ops (cluster_step id) hedged_run (idle_cluster (sample_cluster 3)))) = []"
  "cs_retrying (fst (run_ops (cluster_step id) hedged_run (idle_cluster (sample_cluster 3)))) = []"
  "dones_in (snd (run_ops (cluster_step id) hedged_run (idle_cluster (sample_cluster 3)))) = [5]"
  "map at_number (calls_in (snd (run_ops (cluster_step id) hedged_run (idle_cluster (sample_cluster 3))))) = [1, 1, 2]"
  by code_simp+

text \<open>C4: Calls through a cluster. In every execution with distinct calls, whatever the instances answer, whichever
  retries and hedged backups run and in whatever order, a call's callback is invoked at most once; and once
  no attempt is in flight and no retry thread is waiting, every call made has had its callback, hedges
  pending or not.\<close>

theorem cluster_calls_once:
  assumes run: "run_ops (cluster_step rnd) xs (idle_cluster cl) = (sys, effs)" and fresh: "distinct (issued_calls xs)"
  shows "distinct (dones_in effs) \<and> set (dones_in effs) \<subseteq> set (issued_calls xs) \<and>
    (cs_inflight sys = [] \<and> cs_retrying sys = [] \<longrightarrow> set (dones_in effs) = set (issued_calls xs))"
proof -
  have acc: "accounted (issued_calls xs) effs {} sys"
    using accounted_run [OF accounted_idle [of cl], of xs rnd] fresh by (simp add: run)
  then have cb: "count_list (dones_in effs) c = (if c \<in> set (issued_calls xs) \<and> cc_completed (cs_cluster sys) c then 1 else 0)" for c
    unfolding accounted_def called_back_def by blast
  have iff: "c \<in> set (dones_in effs) \<longleftrightarrow> c \<in> set (issued_calls xs) \<and> cc_completed (cs_cluster sys) c" for c
    using cb [of c] count_list_0_iff [of "dones_in effs" c] by (metis zero_neq_one)
  have "distinct (dones_in effs)"
    unfolding distinct_count_atmost_1 using cb iff by (metis count_mset)
  moreover have "set (dones_in effs) \<subseteq> set (issued_calls xs)" using iff by blast
  moreover have "set (dones_in effs) = set (issued_calls xs)" if "cs_inflight sys = [] \<and> cs_retrying sys = []"
  proof -
    have "working sys = {}" using that by (simp add: working_def)
    then show ?thesis using acc iff unfolding accounted_def by blast
  qed
  ultimately show ?thesis by blast
qed

theorem cluster_calls_once_witness:
  "distinct (issued_calls hedged_run) \<and>
   (let (sys, effs) = run_ops (cluster_step id) hedged_run (idle_cluster (sample_cluster 3))
    in cs_inflight sys = [] \<and> cs_retrying sys = [] \<and> set (dones_in effs) = {5})"
  using cluster_calls_once [of id hedged_run "sample_cluster 3", OF surjective_pairing] hedged_run_effects
  by (simp add: split_beta Let_def)

text \<open>C16: Bounded work. In every execution with distinct calls, the instances are called for one call at most
  twice \<^verbatim>\<open>maxAttempts\<close> times, once for the call itself and its retries and once more for a hedged backup and
  its retries; with a \<^verbatim>\<open>maxAttempts\<close> of zero, still once each.\<close>

theorem cluster_attempts_bounded:
  assumes run: "run_ops (cluster_step rnd) xs (idle_cluster cl) = (sys, effs)" and fresh: "distinct (issued_calls xs)"
  shows "length (filter (\<lambda>a. at_call a = c) (calls_in effs)) \<le> 2 * max 1 (unat (opt_maxAttempts (cc_options (cs_cluster sys))))"
proof -
  have "within_bound (issued_calls xs) effs sys"
    using bound_run [OF bound_idle [of cl], of xs rnd] fresh by (simp add: run)
  then have "made c effs \<le> (if c \<in> set (issued_calls xs) then 2 * max_attempts (cs_cluster sys) else 0)"
    unfolding within_bound_def by (metis add_leE)
  then show ?thesis by (simp add: made_def max_attempts_def split: if_splits)
qed

theorem cluster_attempts_bounded_witness:
  "distinct (issued_calls hedged_run) \<and>
   length (filter (\<lambda>a. at_call a = 5) (calls_in (snd (run_ops (cluster_step id) hedged_run (idle_cluster (sample_cluster 3)))))) \<le>
     2 * max 1 (unat (opt_maxAttempts (cc_options (cs_cluster (fst (run_ops (cluster_step id) hedged_run (idle_cluster (sample_cluster 3))))))))"
  using cluster_attempts_bounded [of id hedged_run "sample_cluster 3" _ _ 5, OF surjective_pairing] hedged_run_effects(1)
  by simp

text \<open>Work after completion: \<^verbatim>\<open>maybeRetry\<close> does not look at \<^verbatim>\<open>completed\<close>. When the backup has answered and the callback
  has run, the closing of the first attempt's connection still spends a retry token and calls an
  instance again.\<close>

theorem retry_after_completion:
  "let effs = snd (run_ops (cluster_step id) hedged_run (idle_cluster (sample_cluster 3)));
       after = dropWhile (\<lambda>e. done_of_effect e = []) effs
   in dones_in after = [5] \<and> length (retries_in after) = 1 \<and> map at_number (calls_in after) = [2]"
  by code_simp

text \<open>A backup that fails the call: with one instance, the hedge timer finds no other, so \<^verbatim>\<open>attemptOnce\<close> fails and, when
  no attempt is left, completes the call with an error although its first attempt is in flight and
  healthy; the reply that comes later is dropped.\<close>

theorem hedge_without_alternative:
  "let ops = [ClCall sample_env 5 7 True, ClHedge 0 sample_env, ClDone 0 0 0 0 0 kOk];
       cl = removeInstance [] 2 (sample_cluster 1);
       (sys, effs) = run_ops (cluster_step id) (take 2 ops) (idle_cluster (cl :: nat cluster))
   in dones_in effs = [5] \<and> cc_status (cs_cluster sys) 5 = kUnknown \<and> map at_call (cs_inflight sys) = [5] \<and>
      dones_in (snd (run_ops (cluster_step id) ops (idle_cluster cl))) = [5]"
  by code_simp

text \<open>A lost probe: the outcome \<^verbatim>\<open>kUnknown\<close> is not reported to the breaker. If the connection of the probe of a half-open
  breaker closes, the breaker stays half-open, and every attempt on the instance is refused.\<close>

theorem cluster_probe_lost:
  assumes "cb_state (cc_breakers cl (at_breaker a)) = HalfOpen" and "in_breaker (cc_instances cl ! i) = at_breaker a"
  shows "let cl' = fst (wrappedDone t1 t2 t3 rand kUnknown a cl)
    in cc_breakers cl' = cc_breakers cl \<and> calls_in (snd (attempt_on rnd env a' (Some i) cl')) = []"
proof -
  have "cc_breakers (fst (maybeRetry rand ok a cl)) = cc_breakers cl \<and> cc_instances (fst (maybeRetry rand ok a cl)) = cc_instances cl" for ok cl
    by (simp add: maybeRetry_def shared_done_def split: prod.split)
  moreover have "calls_in (snd (failCall rand st a' cl)) = []" for rand st cl
    by (simp add: failCall_def maybeRetry_def shared_done_def split: prod.split)
  ultimately show ?thesis
    using assms by (simp add: wrappedDone_def Let_def attempt_on_def allow_half_open kUnknown_def kOk_def)
qed

text \<open>The wait of \<^verbatim>\<open>call()\<close> is computed in 32 bits: for timeouts of almost \<open>2 ^ 32\<close> ms it wraps to less than two seconds.\<close>

theorem waitMs_wraps:
  assumes "2 ^ 32 - 2000 \<le> unat timeoutMs"
  shows "unat (waitMs timeoutMs) = unat timeoutMs + 2000 - 2 ^ 32"
proof -
  have "unat timeoutMs < 2 ^ 32" using unsigned_less [of timeoutMs] by simp
  moreover have "unat (timeoutMs + 2000) = (unat timeoutMs + 2000) mod 2 ^ 32" by (simp add: unat_word_ariths)
  moreover have "0 < timeoutMs" using assms by (simp add: word_less_nat_alt)
  ultimately show ?thesis using assms by (simp add: waitMs_def mod_if [of "unat timeoutMs + 2000"])
qed

end
