(* ===== verification/RpcExchange.thy ===== *)
theory RpcExchange
  imports RpcChannel RpcServer
begin

text \<open>
  One remote call from end to end: the client channel (\<^verbatim>\<open>src/RpcChannel.cpp\<close>) serializes and frames the request, the
  server's connection reassembles it, the server (\<^verbatim>\<open>src/RpcServer.cpp\<close>) decodes it, runs the handler and sends the
  response, and the client channel dispatches it to the caller. The two byte streams are cut into reads
  arbitrarily; the handler is a function \<open>run\<close> from the registered handler and the request to the status
  and the response. The definitions compose those of the components; they add no behaviour of their own.
\<close>

section \<open>The two sides\<close>

text \<open>The client up to the socket: the call is registered and, on the loop thread, its frame written.\<close>

fun run_send :: "endian \<Rightarrow> 'c chan_effect list \<Rightarrow> 'c chan \<Rightarrow> 'c chan_result" where
  "run_send e [] ch = (ch, [])"
| "run_send e (QueueSend idv mid tmo body trace # effs) ch =
     (let (ch1, out1) = sendInLoop e (Wrote (kHeaderSize + length body)) 0 idv mid tmo body trace ch;
          (ch2, out2) = run_send e effs ch1
      in (ch2, out1 @ out2))"
| "run_send e (_ # effs) ch = run_send e effs ch"

definition client_call :: "endian \<Rightarrow> time \<Rightarrow> 'c \<Rightarrow> u32 \<Rightarrow> u32 \<Rightarrow> u64 \<Rightarrow> u64 \<Rightarrow> rpc_value \<Rightarrow> 'c chan \<Rightarrow> 'c chan \<times> bytes" where
  "client_call e now c mid tmo trace gen request ch =
     (let (idv, ch1, effs) = asyncCall now c True mid tmo trace gen request ch;
          (ch2, out) = run_send e effs ch1
      in (ch2, written out))"

text \<open>The server's answers to one message, when its handlers finish at once.\<close>

fun sent_to :: "('h, 'c) server_effect \<Rightarrow> message list" where
  "sent_to (SendMessage conn m) = [m]"
| "sent_to _ = []"

fun handled_by :: "('h, 'c) server_effect \<Rightarrow> ('h \<times> request_context) list" where
  "handled_by (RunHandler h conn ctx reply) = [(h, ctx)]"
| "handled_by _ = []"

definition serve :: "endian \<Rightarrow> time \<Rightarrow> time \<Rightarrow> u64 \<Rightarrow> ('h \<Rightarrow> rpc_value \<Rightarrow> u16 \<times> rpc_value) \<Rightarrow> 'h server \<Rightarrow> message \<Rightarrow> message list" where
  "serve e t1 t2 gen run sv m =
     (let (sys1, effs1) = run_ops (server_step e) [SvMessage () m, SvTask 0 t1 gen] (idle_sys sv)
      in concat (map sent_to effs1) @
         (case concat (map handled_by effs1) of
            [] \<Rightarrow> []
          | (h, ctx) # _ \<Rightarrow>
              let (status, response) = run h (rc_request ctx)
              in concat (map sent_to (snd (server_step e (SvDone 0 t2 True status response) sys1)))))"

text \<open>The client on the bytes of the responses.\<close>

definition client_receive :: "rounding \<Rightarrow> endian \<Rightarrow> time \<Rightarrow> bytes list \<Rightarrow> 'c chan \<Rightarrow> 'c chan_result" where
  "client_receive rnd e now chunks ch = read_loop rnd e 0 (map (\<lambda>bs. ReadBytes bs (\<lambda>_. now)) chunks) ch"

definition server_receive :: "endian \<Rightarrow> bytes list \<Rightarrow> message list" where
  "server_receive e chunks = fst (feed e chunks (new_buffer 1024))"

text \<open>A value as the other side sees it: a struct, or null if no byte was sent.\<close>

definition delivered :: "endian \<Rightarrow> rpc_value \<Rightarrow> rpc_value" where
  "delivered e v = (if as_struct v = [] then VNull else received e (VStruct (as_struct v)))"

section \<open>Lemmas\<close>

lemma encode_empty: "Serializer_encode v = [] \<longleftrightarrow> as_struct v = []"
  by (cases "as_struct v") (auto simp: Serializer_encode_def writeTag_not_Nil)

lemma decode_delivered:
  assumes "length (Serializer_encode v) \<le> unat kMaxBodyLen"
  shows "(if Serializer_encode v \<noteq> [] then Serializer_decode e (Serializer_encode v) else Some VNull) = Some (delivered e v)"
  using Serializer_decode_encode [of v e] assms by (simp add: delivered_def encode_empty unat_kMaxBodyLen)

text \<open>One frame, however it is cut.\<close>

lemma feed_one:
  assumes "length (msg_body m) \<le> unat kMaxBodyLen" and "concat chunks = RpcFramer_encode e' m"
    and "buffer_ok b" and "contents b = []"
  shows "fst (feed e chunks b) = [on_wire m]"
proof -
  have "deframe e (RpcFramer_encode e' m @ []) = ([on_wire m], [], False)"
    unfolding deframe_encode [OF assms(1)] by (simp add: deframe.simps [of e "[]"] next_frame_def)
  then show ?thesis
    using feed_deframe [OF assms(3), of e chunks "[on_wire m]" "[]"] assms(2,4) by (simp add: next_frame_def)
qed

lemma dispatch_buffer:
  "dispatchResponse rnd e now m (ch\<lparr>ch_inputBuffer := b\<rparr>) =
     ((fst (dispatchResponse rnd e now m ch))\<lparr>ch_inputBuffer := b\<rparr>, snd (dispatchResponse rnd e now m ch))"
  by (simp add: dispatchResponse_def pending_at_def release_slot_def Let_def split: option.split)

lemma dispatch_all_buffer:
  "dispatch_all rnd e clk i ms (ch\<lparr>ch_inputBuffer := b\<rparr>) =
     ((fst (dispatch_all rnd e clk i ms ch))\<lparr>ch_inputBuffer := b\<rparr>, snd (dispatch_all rnd e clk i ms ch))"
  by (induction ms arbitrary: i ch) (simp_all add: dispatch_buffer split_beta Let_def)

lemma dispatch_all_append:
  "dispatch_all rnd e (\<lambda>_. now) i (ms @ ms') ch =
     (let (ch1, effs) = dispatch_all rnd e (\<lambda>_. now) i ms ch; (ch2, effs') = dispatch_all rnd e (\<lambda>_. now) j ms' ch1
      in (ch2, effs @ effs'))"
proof (induction ms arbitrary: i ch)
  case Nil
  have "dispatch_all rnd e (\<lambda>_. now) i ms' ch = dispatch_all rnd e (\<lambda>_. now) j ms' ch" for i j
    by (induction ms' arbitrary: i j ch) (simp_all add: split_beta Let_def, metis)
  then show ?case by (simp add: split_beta)
next
  case (Cons m ms)
  then show ?case by (simp add: split_beta Let_def)
qed

lemma client_receive_dispatch:
  "client_receive rnd e now chunks ch =
     ((fst (dispatch_all rnd e (\<lambda>_. now) 0 (fst (feed e chunks (ch_inputBuffer ch))) ch))\<lparr>ch_inputBuffer := snd (feed e chunks (ch_inputBuffer ch))\<rparr>,
      snd (dispatch_all rnd e (\<lambda>_. now) 0 (fst (feed e chunks (ch_inputBuffer ch))) ch))"
  unfolding client_receive_def
proof (induction chunks arbitrary: ch)
  case Nil
  then show ?case by simp
next
  case (Cons c cs)
  then show ?case
    by (simp add: split_beta Let_def dispatch_all_buffer dispatch_all_append [where j = 0])
qed

text \<open>The request on the wire, and the call waiting under its id.\<close>

definition request_message :: "u32 \<Rightarrow> u32 \<Rightarrow> u32 \<Rightarrow> u64 \<Rightarrow> rpc_value \<Rightarrow> message" where
  "request_message idv mid tmo trace request =
     \<lparr>msg_header = zero_header\<lparr>hdr_msgType := kMsgRequest, hdr_requestId := idv, hdr_methodId := mid, hdr_timeoutMs := tmo,
        hdr_traceId := trace\<rparr>, msg_body = Serializer_encode request\<rparr>"

lemma asyncCall_ready:
  assumes "chan_ok ch" and "ch_state ch = Ready" and "length (ch_pending ch) < 2 ^ 32 - 1"
    and "asyncCall now c True mid tmo trace gen request ch = (idv, ch1, effs)"
  shows "pending_at idv ch1 = Some \<lparr>pc_id = idv, pc_call = c, pc_hasDone = True, pc_timeoutMs = tmo, pc_start = now\<rparr>"
    "ch1 = ch\<lparr>ch_pending := ch_pending ch1, ch_freeSlots := ch_freeSlots ch1\<rparr>"
    "effs = (if tmo > 0 then [QueueArm idv] else []) @ [QueueSend idv mid tmo (Serializer_encode request) (if trace \<noteq> 0 then trace else gen)]"
proof -
  let ?pc = "\<lambda>slot. \<lparr>pc_id = of_nat slot + 1, pc_call = c, pc_hasDone = True, pc_timeoutMs = tmo, pc_start = now\<rparr>"
  have small: "unat (of_nat slot :: u32) = slot" if "slot \<le> length (ch_pending ch)" for slot
    using that assms(3) by (simp add: unat_of_nat)
  show "pending_at idv ch1 = Some \<lparr>pc_id = idv, pc_call = c, pc_hasDone = True, pc_timeoutMs = tmo, pc_start = now\<rparr>"
  proof (cases "ch_freeSlots ch")
    case Nil
    then show ?thesis using assms(2,4) small [of "length (ch_pending ch)"] by (auto simp: asyncCall_def Let_def pending_at_def)
  next
    case (Cons s fs)
    then have "s < length (ch_pending ch)" using assms(1) by (auto simp: chan_ok_def)
    then show ?thesis using Cons assms(2,4) small [of s] by (auto simp: asyncCall_def Let_def pending_at_def)
  qed
qed (use assms(2,4) in \<open>auto simp: asyncCall_def Let_def split: list.splits\<close>)

lemma client_call_ready:
  assumes "chan_ok ch" and "ch_state ch = Ready" and "ch_outputQueue ch = []" and "length (ch_pending ch) < 2 ^ 32 - 1"
    and "length (Serializer_encode request) \<le> unat kMaxBodyLen"
    and "client_call e now c mid tmo trace gen request ch = (ch2, out)"
  obtains idv where "out = RpcFramer_encode e (request_message idv mid tmo (if trace \<noteq> 0 then trace else gen) request)"
    "pending_at idv ch2 = Some \<lparr>pc_id = idv, pc_call = c, pc_hasDone = True, pc_timeoutMs = tmo, pc_start = now\<rparr>"
    "ch_inputBuffer ch2 = ch_inputBuffer ch"
proof -
  obtain idv ch1 effs where call: "asyncCall now c True mid tmo trace gen request ch = (idv, ch1, effs)"
    by (metis prod_cases3)
  note ready = asyncCall_ready [OF assms(1,2,4) call]
  have same: "ch_state ch1 = Ready" "ch_outputQueue ch1 = []" "ch_inputBuffer ch1 = ch_inputBuffer ch"
    by (subst ready(2); simp add: assms(2,3))+
  let ?m = "request_message idv mid tmo (if trace \<noteq> 0 then trace else gen) request"
  have len: "length (RpcFramer_encode e ?m) = kHeaderSize + length (Serializer_encode request)"
    using RpcFramer_encode_bytes [of ?m e] assms(5) by (simp add: request_message_def kHeaderSize_def)
  have "sendInLoop e (Wrote (kHeaderSize + length (Serializer_encode request))) 0 idv mid tmo (Serializer_encode request)
      (if trace \<noteq> 0 then trace else gen) ch1 = (ch1, [SocketWrite (RpcFramer_encode e ?m)])"
    using same len by (simp add: sendInLoop_def writeFrame_def request_message_def)
  then have "client_call e now c mid tmo trace gen request ch = (ch1, RpcFramer_encode e ?m)"
    unfolding client_call_def call ready(3) by (cases "tmo > 0") (simp_all split del: if_split)
  then have "ch2 = ch1" "out = RpcFramer_encode e ?m" using assms(6) by simp_all
  with that ready(1) same(3) show ?thesis by blast
qed

lemma serve_request:
  assumes "\<not> sv_stopping sv" and "acquire_slot sv = Some sv1" and "router_find mid (sv_router sv1) = Some h"
    and "length (Serializer_encode request) \<le> unat kMaxBodyLen"
    and "run h (delivered e request) = (status, response)" and "tmo = 0 \<or> to_ms (t2 - t1) < uint tmo"
    and "m = on_wire (request_message idv mid tmo trace request)"
  shows "serve e t1 t2 gen run sv m =
    [\<lparr>msg_header = (msg_header m)\<lparr>hdr_traceId := (if trace \<noteq> 0 then trace else gen), hdr_msgType := kMsgResponse, hdr_status := status\<rparr>,
      msg_body = (if status = kOk then Serializer_encode response else [])\<rparr>]"
proof -
  define ctx where "ctx = \<lparr>rc_header = msg_header m, rc_start = t1, rc_traceId = (if trace \<noteq> 0 then trace else gen),
    rc_request = delivered e request, rc_methodName = methodName mid (sv_router sv1)\<rparr>"
  have hdr: "hdr_msgType (msg_header m) = kMsgRequest" "hdr_methodId (msg_header m) = mid" "hdr_traceId (msg_header m) = trace"
    "hdr_timeoutMs (msg_header m) = tmo" "msg_body m = Serializer_encode request"
    by (simp_all add: assms(7) on_wire_def request_message_def)
  have body: "(if msg_body m \<noteq> [] then Serializer_decode e (msg_body m) else Some VNull) = Some (delivered e request)"
    unfolding hdr by (rule decode_delivered [OF assms(4)])
  have "handleRequest e t1 gen () m sv = (sv1\<lparr>sv_inflight := sv_inflight sv1 + 1\<rparr>, [RunHandler h () ctx True])"
    unfolding handleRequest_def Let_def body using assms(1-3) hdr by (simp add: ctx_def)
  then have "run_ops (server_step e) [SvMessage () m, SvTask 0 t1 gen] (idle_sys sv) =
      (\<lparr>sy_server = sv1\<lparr>sv_inflight := sv_inflight sv1 + 1\<rparr>, sy_tasks = [], sy_running = [((), ctx, True)]\<rparr>,
       [MarkRequest, Submit () m, RunHandler h () ctx True])"
    using assms(1) hdr(1) by (simp add: idle_sys_def absorb_def onMessage_def Let_def remove_at_def)
  moreover have "final_status t2 ctx status = status"
    using assms(6) hdr by (auto simp: final_status_def ctx_def)
  ultimately show ?thesis
    using assms(5) by (simp add: serve_def absorb_def handler_done_def Let_def response_message_def ctx_def)
qed

section \<open>From end to end\<close>

text \<open>The whole exchange: what the client's read handler does when the answer of the server has arrived.\<close>

definition rpc_exchange where
  "rpc_exchange rnd ec es cut_request cut_response now t1 t2 now' gen gen' run sv c mid tmo trace request ch =
     (let (ch1, out) = client_call ec now c mid tmo trace gen request ch;
          answers = concat (map (serve es t1 t2 gen' run sv) (server_receive es (cut_request out)))
      in client_receive rnd ec now' (cut_response (concat (map (RpcFramer_encode es) answers))) ch1)"

text \<open>A connected client whose stream is at the beginning of a frame in both directions.\<close>

definition at_frame_boundary :: "'c chan \<Rightarrow> bool" where
  "at_frame_boundary ch \<longleftrightarrow> chan_ok ch \<and> ch_state ch = Ready \<and> ch_outputQueue ch = [] \<and> length (ch_pending ch) < 2 ^ 32 - 1 \<and>
     buffer_ok (ch_inputBuffer ch) \<and> contents (ch_inputBuffer ch) = []"

lemma rpc_exchange_effects:
  assumes ready: "at_frame_boundary ch"
    and sv: "\<not> sv_stopping sv" "acquire_slot sv = Some sv1" "router_find mid (sv_router sv1) = Some h"
    and req: "length (Serializer_encode request) \<le> unat kMaxBodyLen"
    and run: "run h (delivered es request) = (status, response)" "tmo = 0 \<or> to_ms (t2 - t1) < uint tmo"
    and resp: "length (Serializer_encode response) \<le> unat kMaxBodyLen"
    and cut: "\<And>bs. concat (cut_request bs) = bs" "\<And>bs. concat (cut_response bs) = bs"
  shows "snd (rpc_exchange rnd ec es cut_request cut_response now t1 t2 now' gen gen' run sv c mid tmo trace request ch) =
    SetStatus c status (if status = kOk then [] else lit ''rpc failed'') #
    (if status = kOk \<and> as_struct response \<noteq> [] then [SetResponse c (delivered ec response)] else []) @ [InvokeDone c]"
proof -
  have ch: "chan_ok ch" "ch_state ch = Ready" "ch_outputQueue ch = []" "length (ch_pending ch) < 2 ^ 32 - 1"
    "buffer_ok (ch_inputBuffer ch)" "contents (ch_inputBuffer ch) = []"
    using ready by (simp_all add: at_frame_boundary_def)
  obtain ch1 out where call: "client_call ec now c mid tmo trace gen request ch = (ch1, out)" by fastforce
  define tr where "tr = (if trace \<noteq> 0 then trace else gen)"
  obtain idv where sent: "out = RpcFramer_encode ec (request_message idv mid tmo tr request)"
    and pend: "pending_at idv ch1 = Some \<lparr>pc_id = idv, pc_call = c, pc_hasDone = True, pc_timeoutMs = tmo, pc_start = now\<rparr>"
    and buf: "ch_inputBuffer ch1 = ch_inputBuffer ch"
    using client_call_ready [OF ch(1-4) req call] unfolding tr_def by metis
  define m where "m = on_wire (request_message idv mid tmo tr request)"
  have got: "server_receive es (cut_request out) = [m]"
    unfolding server_receive_def m_def
    by (rule feed_one [where e' = ec]) (simp_all add: cut sent request_message_def req)
  define r where "r = \<lparr>msg_header = (msg_header m)\<lparr>hdr_traceId := (if tr \<noteq> 0 then tr else gen'), hdr_msgType := kMsgResponse,
      hdr_status := status\<rparr>, msg_body = (if status = kOk then Serializer_encode response else [])\<rparr>"
  have answers: "serve es t1 t2 gen' run sv m = [r]"
    unfolding r_def by (rule serve_request [where run = run, OF sv req run m_def])
  have body: "length (msg_body r) \<le> unat kMaxBodyLen" using resp by (simp add: r_def)
  have "fst (feed ec (cut_response (RpcFramer_encode es r)) (ch_inputBuffer ch1)) = [on_wire r]"
    by (rule feed_one [where e' = es]) (simp_all add: cut body buf ch)
  then have "snd (rpc_exchange rnd ec es cut_request cut_response now t1 t2 now' gen gen' run sv c mid tmo trace request ch) =
      snd (dispatchResponse rnd ec now' (on_wire r) ch1)"
    by (simp add: rpc_exchange_def call got answers client_receive_dispatch split_beta)
  moreover have "hdr_requestId (msg_header (on_wire r)) = idv" "hdr_status (msg_header (on_wire r)) = status"
    "msg_body (on_wire r) = (if status = kOk then Serializer_encode response else [])"
    by (simp_all add: r_def m_def on_wire_def request_message_def)
  ultimately show ?thesis
    using pend decode_delivered [OF resp, of ec] by (auto simp: dispatchResponse_def Let_def encode_empty)
qed


text \<open>An echo server and a client that has just connected.\<close>

definition echo_handler :: "nat \<Rightarrow> rpc_value \<Rightarrow> u16 \<times> rpc_value" where
  "echo_handler h v = (kOk, v)"

definition connected_chan :: "nat chan" where
  "connected_chan = (new_chan 0)\<lparr>ch_state := Ready, ch_sockfd := 5, ch_channel := Some \<lparr>poll_reading = True, poll_writing = False\<rparr>\<rparr>"


end
