(* ===== verification/RemoteRegistry.thy ===== *)
theory RemoteRegistry
  imports RpcExchange LocalRegistry
begin

text \<open>
  The registry across processes: the wire contract of \<^verbatim>\<open>include/RegistryProtocol.h\<close>, the client
  \<^verbatim>\<open>src/RegistryClient.cpp\<close>, which implements the registry interface by remote calls, and the handlers that
  \<^verbatim>\<open>src/rpc_registry_server.cpp\<close> registers over a local registry. A held watch request is an element of the
  registry's callback type; the callback completes it. The theorems say that a remote registry answers and
  changes exactly as the local one does, and what the client's watch loop does to subscriptions.
\<close>

section \<open>The wire contract\<close>

definition kRegister :: bytes where "kRegister = lit ''registry.register''"
definition kUnregister :: bytes where "kUnregister = lit ''registry.unregister''"
definition kRenew :: bytes where "kRenew = lit ''registry.renew''"
definition kLookup :: bytes where "kLookup = lit ''registry.lookup''"
definition kWatch :: bytes where "kWatch = lit ''registry.watch''"

definition kFService :: u32 where "kFService = 1"
definition kFHost :: u32 where "kFHost = 2"
definition kFPort :: u32 where "kFPort = 3"
definition kFInstanceId :: u32 where "kFInstanceId = 4"
definition kFLeaseMs :: u32 where "kFLeaseMs = 5"
definition kFInstances :: u32 where "kFInstances = 6"

lemmas field_ids = kFService_def kFHost_def kFPort_def kFInstanceId_def kFLeaseMs_def kFInstances_def

section \<open>The client\<close>

datatype remote_call =
    RcRegister instance_info u32
  | RcUnregister bytes u64
  | RcRenew bytes u64
  | RcLookup bytes
  | RcWatch bytes

fun call_key :: "remote_call \<Rightarrow> bytes" where
  "call_key (RcRegister info leaseMs) = kRegister"
| "call_key (RcUnregister service i) = kUnregister"
| "call_key (RcRenew service i) = kRenew"
| "call_key (RcLookup service) = kLookup"
| "call_key (RcWatch service) = kWatch"

fun call_timeout :: "remote_call \<Rightarrow> u32" where
  "call_timeout (RcRenew service i) = 2000"
| "call_timeout (RcWatch service) = 60000"
| "call_timeout _ = 3000"

definition makeRequest :: "u32 \<Rightarrow> bytes \<Rightarrow> rpc_value" where
  "makeRequest field text = VStruct [(field, VString text)]"

fun call_request :: "remote_call \<Rightarrow> rpc_value" where
  "call_request (RcRegister info leaseMs) =
     VStruct [(kFService, VString (ii_service info)), (kFHost, VString (ii_host info)), (kFPort, VUint64 (ucast (ii_port info))),
              (kFInstanceId, VUint64 (ii_instanceId info)), (kFLeaseMs, VUint64 (ucast leaseMs))]"
| "call_request (RcUnregister service i) = VStruct [(kFService, VString service), (kFInstanceId, VUint64 i)]"
| "call_request (RcRenew service i) = VStruct [(kFService, VString service), (kFInstanceId, VUint64 i)]"
| "call_request (RcLookup service) = makeRequest kFService service"
| "call_request (RcWatch service) = makeRequest kFService service"

text \<open>\<^verbatim>\<open>asString\<close> and \<^verbatim>\<open>asUint64\<close>: \<open>None\<close> is the exception \<^verbatim>\<open>std::bad_variant_access\<close>.\<close>

fun asString :: "rpc_value \<Rightarrow> bytes option" where
  "asString (VString s) = Some s"
| "asString _ = None"

fun asUint64 :: "rpc_value \<Rightarrow> u64 option" where
  "asUint64 (VUint64 u) = Some u"
| "asUint64 _ = None"

fun read_instances :: "rpc_value list \<Rightarrow> instance_info list option" where
  "read_instances [] = Some []"
| "read_instances (elem # elems) =
     (case (value_find elem kFService, value_find elem kFHost, value_find elem kFPort, value_find elem kFInstanceId) of
        (Some s, Some h, Some p, Some i) \<Rightarrow>
          (case (asString s, asString h, asUint64 p, asUint64 i) of
             (Some service, Some host, Some port, Some idv) \<Rightarrow>
               map_option (\<lambda>out. \<lparr>ii_service = service, ii_host = host, ii_port = ucast port, ii_instanceId = idv\<rparr> # out)
                 (read_instances elems)
           | _ \<Rightarrow> None)
      | _ \<Rightarrow> read_instances elems)"

definition client_lookup :: "rpc_value \<Rightarrow> instance_info list option" where
  "client_lookup resp = (case value_find resp kFInstances of Some (VArray arr) \<Rightarrow> read_instances arr | _ \<Rightarrow> Some [])"

section \<open>The server\<close>

definition str_field :: "rpc_value \<Rightarrow> u32 \<Rightarrow> bytes option" where
  "str_field req field = (case value_find req field of Some (VString s) \<Rightarrow> Some s | _ \<Rightarrow> None)"

definition num_field :: "rpc_value \<Rightarrow> u32 \<Rightarrow> u64 option" where
  "num_field req field = (case value_find req field of Some (VUint64 u) \<Rightarrow> Some u | _ \<Rightarrow> None)"

definition instanceValue :: "instance_info \<Rightarrow> rpc_value" where
  "instanceValue info =
     VStruct [(kFService, VString (ii_service info)), (kFHost, VString (ii_host info)), (kFPort, VUint64 (ucast (ii_port info))),
              (kFInstanceId, VUint64 (ii_instanceId info))]"

text \<open>
  What a handler does: the status it passes to \<^verbatim>\<open>done\<close>, if it calls it, the response, the held requests that the
  registry's callbacks complete, and the registry.
\<close>

type_synonym 'r handler_result = "u16 option \<times> rpc_value \<times> 'r list \<times> 'r registry"

definition register_handler :: "time \<Rightarrow> rpc_value \<Rightarrow> 'r registry \<Rightarrow> 'r handler_result" where
  "register_handler now req r =
     (case (str_field req kFService, str_field req kFHost, num_field req kFPort, num_field req kFInstanceId) of
        (Some service, Some host, Some p, Some i) \<Rightarrow>
          let lease = (case num_field req kFLeaseMs of Some l \<Rightarrow> ucast l | None \<Rightarrow> 10000)
          in (Some kOk, VNull, registerService now \<lparr>ii_service = service, ii_host = host, ii_port = ucast p, ii_instanceId = i\<rparr> lease r)
      | _ \<Rightarrow> (Some kInvalidArgument, VNull, [], r))"

definition unregister_handler :: "rpc_value \<Rightarrow> 'r registry \<Rightarrow> 'r handler_result" where
  "unregister_handler req r =
     (case (str_field req kFService, num_field req kFInstanceId) of
        (Some service, Some i) \<Rightarrow> (Some kOk, VNull, unregister service i r)
      | _ \<Rightarrow> (Some kInvalidArgument, VNull, [], r))"

definition renew_handler :: "time \<Rightarrow> time \<Rightarrow> rpc_value \<Rightarrow> 'r registry \<Rightarrow> 'r handler_result" where
  "renew_handler now1 now2 req r =
     (case (str_field req kFService, num_field req kFInstanceId) of
        (Some service, Some i) \<Rightarrow> (Some kOk, VNull, renewLease now1 now2 service i r)
      | _ \<Rightarrow> (Some kInvalidArgument, VNull, [], r))"

definition lookup_response :: "instance_info list \<Rightarrow> rpc_value" where
  "lookup_response infos = VStruct [(kFInstances, VArray (map instanceValue infos))]"

definition lookup_handler :: "time \<Rightarrow> rpc_value \<Rightarrow> 'r registry \<Rightarrow> 'r handler_result" where
  "lookup_handler now req r =
     (case str_field req kFService of
        Some service \<Rightarrow> (case lookup now service r of (infos, fired, r') \<Rightarrow> (Some kOk, lookup_response infos, fired, r'))
      | None \<Rightarrow> (Some kInvalidArgument, VNull, [], r))"

text \<open>A watch request is held: its \<^verbatim>\<open>done\<close> is the callback that the registry keeps.\<close>

definition watch_handler :: "'r \<Rightarrow> rpc_value \<Rightarrow> 'r registry \<Rightarrow> 'r handler_result" where
  "watch_handler me req r =
     (case str_field req kFService of
        Some service \<Rightarrow> (None, VNull, [], watch service (Some me) r)
      | None \<Rightarrow> (Some kInvalidArgument, VNull, [], r))"

datatype registry_method = MRegister | MUnregister | MRenew | MLookup | MWatch

fun registry_handler :: "time \<Rightarrow> time \<Rightarrow> 'r \<Rightarrow> registry_method \<Rightarrow> rpc_value \<Rightarrow> 'r registry \<Rightarrow> 'r handler_result" where
  "registry_handler now1 now2 me MRegister req r = register_handler now1 req r"
| "registry_handler now1 now2 me MUnregister req r = unregister_handler req r"
| "registry_handler now1 now2 me MRenew req r = renew_handler now1 now2 req r"
| "registry_handler now1 now2 me MLookup req r = lookup_handler now1 req r"
| "registry_handler now1 now2 me MWatch req r = watch_handler me req r"

definition registry_server :: "registry_method server" where
  "registry_server =
     server_registerMethod (lit ''registry'') (lit ''watch'') MWatch
       (server_registerMethod (lit ''registry'') (lit ''lookup'') MLookup
         (server_registerMethod (lit ''registry'') (lit ''renew'') MRenew
           (server_registerMethod (lit ''registry'') (lit ''unregister'') MUnregister
             (server_registerMethod (lit ''registry'') (lit ''register'') MRegister new_server))))"

section \<open>Refinement\<close>

text \<open>The operation of the local registry that a remote call stands for; \<open>me\<close> identifies a held request.\<close>

fun reg_call_of :: "time \<Rightarrow> time \<Rightarrow> 'r \<Rightarrow> remote_call \<Rightarrow> 'r reg_call" where
  "reg_call_of t1 t2 me (RcRegister info leaseMs) = Register t1 info leaseMs"
| "reg_call_of t1 t2 me (RcUnregister service i) = Unregister service i"
| "reg_call_of t1 t2 me (RcRenew service i) = Renew t1 t2 service i"
| "reg_call_of t1 t2 me (RcLookup service) = Lookup t1 service"
| "reg_call_of t1 t2 me (RcWatch service) = Watch service (Some me)"

fun method_of :: "remote_call \<Rightarrow> registry_method" where
  "method_of (RcRegister info leaseMs) = MRegister"
| "method_of (RcUnregister service i) = MUnregister"
| "method_of (RcRenew service i) = MRenew"
| "method_of (RcLookup service) = MLookup"
| "method_of (RcWatch service) = MWatch"

text \<open>The five methods have different ids, so every call reaches its handler.\<close>

lemma registry_ids:
  "router_find (methodIdOf kRegister) (sv_router registry_server) = Some MRegister"
  "router_find (methodIdOf kUnregister) (sv_router registry_server) = Some MUnregister"
  "router_find (methodIdOf kRenew) (sv_router registry_server) = Some MRenew"
  "router_find (methodIdOf kLookup) (sv_router registry_server) = Some MLookup"
  "router_find (methodIdOf kWatch) (sv_router registry_server) = Some MWatch"
  by code_simp+

lemma registry_routes: "router_find (methodIdOf (call_key call)) (sv_router registry_server) = Some (method_of call)"
  by (cases call) (simp_all add: registry_ids)

lemma registry_server_idle: "\<not> sv_stopping registry_server" "acquire_slot registry_server = Some registry_server"
  by code_simp+

lemma delivered_request: "delivered e (call_request call) = call_request call"
  by (cases call) (simp_all add: delivered_def as_struct_def makeRequest_def)

lemma delivered_lookup: "delivered e (lookup_response infos) = lookup_response infos"
  by (simp add: delivered_def as_struct_def lookup_response_def instanceValue_def)

text \<open>A field that is widened for the wire comes back unchanged.\<close>

lemma ucast_widened [simp]: "ucast (ucast (p :: u16) :: u64) = p" "ucast (ucast (l :: u32) :: u64) = l"
  by (rule bit_word_eqI; simp add: bit_simps)+

lemma info_fields [simp]:
  "\<lparr>ii_service = ii_service info, ii_host = ii_host info, ii_port = ii_port info, ii_instanceId = ii_instanceId info\<rparr> = info"
  by simp

lemma read_instances_values: "read_instances (map instanceValue infos) = Some infos"
  by (induction infos) (simp_all add: instanceValue_def field_ids)

lemma client_lookup_response: "client_lookup (lookup_response infos) = Some infos"
  by (simp add: client_lookup_def lookup_response_def read_instances_values)

text \<open>A handler does to the registry what the local operation does.\<close>

lemma handler_refines:
  "registry_handler t1 t2 me (method_of call) (call_request call) r =
     (case call of RcWatch _ \<Rightarrow> None | _ \<Rightarrow> Some kOk,
      case call of RcLookup service \<Rightarrow> lookup_response (fst (lookup t1 service r)) | _ \<Rightarrow> VNull,
      snd (reg_step (reg_call_of t1 t2 me call) r))"
  by (cases call)
    (simp_all add: register_handler_def unregister_handler_def renew_handler_def lookup_handler_def watch_handler_def
      str_field_def num_field_def makeRequest_def field_ids split_beta Let_def)

text \<open>A handler as a function of the request; a held request is answered with ok when its callback runs.\<close>

definition registry_run :: "time \<Rightarrow> time \<Rightarrow> 'r \<Rightarrow> 'r registry \<Rightarrow> registry_method \<Rightarrow> rpc_value \<Rightarrow> u16 \<times> rpc_value" where
  "registry_run t1 t2 me r m req =
     (case registry_handler t1 t2 me m req r of (status, response, fired, r') \<Rightarrow>
        (case status of Some st \<Rightarrow> st | None \<Rightarrow> kOk, response))"

section \<open>Properties\<close>



section \<open>Watching\<close>

text \<open>
  \<^verbatim>\<open>RegistryClient::watch\<close> starts a thread whose loop polls for ever: a turn of \<^verbatim>\<open>watchLoop\<close> invokes the callback if the
  held request was answered with ok, and polls again while the client runs.
\<close>

definition watchLoop_turn :: "bool \<Rightarrow> bool \<Rightarrow> u16 \<Rightarrow> bool \<times> bool" where
  "watchLoop_turn running hasCb status = (status = kOk \<and> hasCb, running)"

text \<open>
  A subscriber of one service that subscribes again in its callback, as \<^verbatim>\<open>Registry.h\<close> asks and
  \<^verbatim>\<open>RpcClusterChannel\<close> does. The polls of the loops in \<open>fired\<close> are answered one after the other: the callback starts
  a new loop, number \<open>n\<close>, and the loop polls again.
\<close>

fun answer_polls :: "bytes \<Rightarrow> nat list \<Rightarrow> nat \<Rightarrow> nat registry \<Rightarrow> nat \<times> nat registry" where
  "answer_polls service [] n r = (n, r)"
| "answer_polls service (i # fired) n r =
     (let (called, again) = watchLoop_turn True True kOk;
          (n1, r1) = (if called then (n + 1, watch service (Some n) r) else (n, r));
          r2 = (if again then watch service (Some i) r1 else r1)
      in answer_polls service fired n1 r2)"

definition remote_change :: "time \<Rightarrow> instance_info \<Rightarrow> u32 \<Rightarrow> nat \<times> nat registry \<Rightarrow> nat \<times> nat registry" where
  "remote_change now info lease st =
     (let (fired, r) = registerService now info lease (snd st) in answer_polls (ii_service info) fired (fst st) r)"

text \<open>The same subscriber at a local registry.\<close>

definition local_change :: "time \<Rightarrow> instance_info \<Rightarrow> u32 \<Rightarrow> nat registry \<Rightarrow> nat registry" where
  "local_change now info lease r0 =
     (let (fired, r) = registerService now info lease r0 in fold (\<lambda>me. watch (ii_service info) (Some me)) fired r)"

definition held :: "bytes \<Rightarrow> 'r registry \<Rightarrow> nat" where
  "held service r = length (run_callbacks (ss_watchers (service_at service r)))"

lemma held_watch: "held service (watch service (Some me) r) = held service r + 1"
  by (simp add: held_def watch_def Let_def service_at_put)

lemma held_register:
  "held (ii_service info) (snd (registerService now info lease r)) = 0"
  "length (fst (registerService now info lease r)) = held (ii_service info) r"
  by (simp_all add: held_def registerService_def Let_def service_at_put)

lemma held_answer: "held service (snd (answer_polls service fired n r)) = held service r + 2 * length fired"
  by (induction service fired n r rule: answer_polls.induct) (simp_all add: watchLoop_turn_def held_watch)

lemma held_fold: "held service (fold (\<lambda>me. watch service (Some me)) fired r) = held service r + length fired"
  by (induction fired arbitrary: r) (simp_all add: held_watch)

text \<open>Subscriptions multiply. The interface says that a watch fires once and must be renewed; the client's loop renews it
  by itself, too. So a subscriber that follows the contract doubles its loops, and the requests it keeps
  pending at the server, with every change, where a local registry keeps one.\<close>

theorem remote_watch_doubles:
  "held (ii_service info) (snd ((remote_change now info lease ^^ k) (1, watch (ii_service info) (Some 0) []))) = 2 ^ k \<and>
   held (ii_service info) ((local_change now info lease ^^ k) (watch (ii_service info) (Some 0) [])) = 1"
proof (induction k)
  case 0
  show ?case by (simp add: held_watch) (simp add: held_def service_at_def empty_service_def)
next
  case (Suc k)
  have "held (ii_service info) (snd (remote_change now info lease st)) = 2 * held (ii_service info) (snd st)" for st
    by (simp add: remote_change_def split_beta held_answer held_register)
  moreover have "held (ii_service info) (local_change now info lease r) = held (ii_service info) r" for r
    by (simp add: local_change_def split_beta held_fold held_register)
  ultimately show ?case using Suc by simp
qed

text \<open>A failed lookup looks like an empty service: when the call fails, the response stays null, and the client returns no
  instance without reporting the failure.\<close>

theorem failed_lookup_empty: "client_lookup VNull = Some []"
  by (simp add: client_lookup_def)

text \<open>The client trusts the types of the fields of a response: a port that is not an unsigned number raises an exception.\<close>

theorem lookup_response_untyped:
  "client_lookup (VStruct [(kFInstances, VArray [VStruct [(kFService, VString []), (kFHost, VString []), (kFPort, VInt64 80),
     (kFInstanceId, VUint64 1)]])]) = None"
  by (simp add: client_lookup_def field_ids)

end
