(* ===== verification/Discovery.thy ===== *)
theory Discovery
  imports RpcClusterChannel RemoteRegistry
begin

text \<open>
  Service discovery: \<^verbatim>\<open>setDiscovery\<close>, \<^verbatim>\<open>resubscribeWatch\<close> and the watch callback of \<^verbatim>\<open>src/RpcClusterChannel.cpp\<close>, composed with
  the registry. Each service may have one cluster that follows it; the cluster's watch callback is identified
  by the service. A registry operation runs the callbacks it fires before the next operation starts,
  as it does when one thread works on the registry; the last section shows what an operation between the
  lookup and the subscription does.
\<close>

section \<open>Composition\<close>

definition inst_addr :: "cluster_instance \<Rightarrow> bytes \<times> u16" where
  "inst_addr inst = (in_host inst, in_port inst)"

definition info_addr :: "instance_info \<Rightarrow> bytes \<times> u16" where
  "info_addr info = (ii_host info, ii_port info)"

record 'c discovery =
  di_registry :: "bytes registry"
  di_clusters :: "bytes \<Rightarrow> 'c cluster"

definition resubscribeWatch :: "bytes \<Rightarrow> bytes registry \<Rightarrow> bytes registry" where
  "resubscribeWatch service r = watch service (Some service) r"

text \<open>
  \<^verbatim>\<open>setDiscovery\<close>, and the watch callback, which does the same: look the instances up, apply them, subscribe. The
  callbacks that the lookup itself fires, if it finds an expired lease, are returned.
\<close>

definition setDiscovery :: "time \<Rightarrow> bytes \<Rightarrow> 'c discovery \<Rightarrow> 'c discovery \<times> bytes list" where
  "setDiscovery now service d =
     (let (infos, nested, r) = lookup now service (di_registry d);
          cl = fst (applyInstances infos (di_clusters d service))
      in (\<lparr>di_registry = resubscribeWatch service r, di_clusters = (di_clusters d)(service := cl)\<rparr>, nested))"

fun run_watchers :: "(bytes \<Rightarrow> time) \<Rightarrow> bytes list \<Rightarrow> 'c discovery \<Rightarrow> 'c discovery \<times> bytes list" where
  "run_watchers now [] d = (d, [])"
| "run_watchers now (service # fired) d =
     (let (d1, nested1) = setDiscovery (now service) service d; (d2, nested2) = run_watchers now fired d1 in (d2, nested1 @ nested2))"

datatype disc_op =
    DiSet time bytes
  | DiReg "bytes \<Rightarrow> time" "bytes reg_call"

fun disc_step :: "disc_op \<Rightarrow> 'c discovery \<Rightarrow> 'c discovery \<times> bytes list" where
  "disc_step (DiSet now service) d = setDiscovery now service d"
| "disc_step (DiReg now c) d =
     (let (out, fired, r) = reg_step c (di_registry d) in run_watchers now fired (d\<lparr>di_registry := r\<rparr>))"

text \<open>Every service is followed by one cluster, and nobody else subscribes.\<close>

fun followed :: "disc_op \<Rightarrow> bytes list" where
  "followed (DiSet now service) = [service]"
| "followed (DiReg now c) = []"

fun no_watch :: "disc_op \<Rightarrow> bool" where
  "no_watch (DiReg now (Watch s cb)) = False"
| "no_watch _ = True"

definition no_discovery :: "'c discovery" where
  "no_discovery = \<lparr>di_registry = [], di_clusters = \<lambda>_. new_cluster\<rparr>"

section \<open>Applying a list of instances\<close>

lemma next_instances_addrs: "map inst_addr (fst (next_instances old infos cl)) = map info_addr infos"
proof (induction infos arbitrary: cl)
  case (Cons info infos)
  show ?case
  proof (cases "filter (same_addr (ii_host info) (ii_port info)) old")
    case Nil
    then show ?thesis using Cons by (simp add: split_beta Let_def make_instance_def inst_addr_def info_addr_def)
  next
    case found: (Cons inst insts)
    then have "inst \<in> set (filter (same_addr (ii_host info) (ii_port info)) old)" by simp
    then have "same_addr (ii_host info) (ii_port info) inst" by simp
    then show ?thesis using Cons found by (simp add: split_beta Let_def inst_addr_def info_addr_def same_addr_def)
  qed
qed simp

lemma applyInstances_addrs: "map inst_addr (cc_instances (fst (applyInstances infos cl))) = map info_addr infos"
  by (simp add: applyInstances_def split_beta Let_def next_instances_addrs)

section \<open>The registry's side\<close>

definition reg_addrs :: "bytes \<Rightarrow> 'cb registry \<Rightarrow> (bytes \<times> u16) list" where
  "reg_addrs s r = map (\<lambda>kv. info_addr (en_info (snd kv))) (ss_instances (service_at s r))"

abbreviation watchers_of :: "bytes \<Rightarrow> 'cb registry \<Rightarrow> 'cb option list" where
  "watchers_of s r \<equiv> ss_watchers (service_at s r)"

lemma sweep_cases:
  "sweepExpiredLocked now st = ([], st) \<or> ss_watchers (snd (sweepExpiredLocked now st)) = []"
  by (auto simp: sweepExpiredLocked_def Let_def filter_id_conv)

lemma put_same_infos:
  "omap_ok m \<Longrightarrow> omap_find i m = Some e \<Longrightarrow> en_info e' = en_info e \<Longrightarrow>
    map (\<lambda>kv. f (en_info (snd kv))) (omap_put i e' m) = map (\<lambda>kv. f (en_info (snd kv))) m"
proof (induction i e' m rule: omap_put.induct)
  case (2 i e' i' e'' m)
  then have "omap_find i m = None" if "i < i'" using that by (auto simp: omap_ok_def omap_find_def map_of_eq_None_iff)
  then show ?case using 2 by (auto simp: omap_ok_def omap_find_def split: if_splits)
qed (simp add: omap_find_def)

text \<open>An operation that does not fire a service's watchers leaves them, and its addresses, alone.\<close>

definition quiet_at :: "bytes \<Rightarrow> 'cb registry \<Rightarrow> 'cb registry \<Rightarrow> bool" where
  "quiet_at s r r' \<longleftrightarrow> watchers_of s r' = watchers_of s r \<and> reg_addrs s r' = reg_addrs s r"

lemma quiet_refl [simp]: "quiet_at s r r"
  by (simp add: quiet_at_def)

lemma quiet_put: "s \<noteq> s0 \<Longrightarrow> quiet_at s r (omap_put s0 st r)"
  by (simp add: quiet_at_def reg_addrs_def service_at_put)

lemma reg_step_quiet:
  assumes ok: "registry_ok r" and c: "\<And>s' cb. c \<noteq> Watch s' cb"
  shows "quiet_at s r (snd (snd (reg_step c r))) \<or> watchers_of s (snd (snd (reg_step c r))) = []"
proof (cases c)
  case (Register t info lease)
  then show ?thesis by (cases "s = ii_service info") (simp_all add: registerService_def Let_def service_at_put quiet_put)
next
  case (Unregister s0 i)
  then show ?thesis
    by (cases "s = s0") (auto simp: unregister_def service_at_put quiet_put split: option.split)
next
  case (Renew t1 t2 s0 i)
  show ?thesis
  proof (cases "omap_find s0 r")
    case None
    then show ?thesis by (simp add: Renew renewLease_def)
  next
    case (Some st)
    have ok': "omap_ok (ss_instances st)" using registry_ok_service(2) [OF ok, of s0] Some by (simp add: known_service)
    show ?thesis
    proof (cases "s = s0")
      case True
      from sweep_cases [of t1 st] show ?thesis
      proof
        assume sw: "sweepExpiredLocked t1 st = ([], st)"
        then show ?thesis
          using Some True
          by (auto simp: put_same_infos [OF ok'] Renew renewLease_def quiet_at_def reg_addrs_def service_at_put known_service split: option.split)
      next
        assume "ss_watchers (snd (sweepExpiredLocked t1 st)) = []"
        then show ?thesis
          using Some True by (simp add: Renew renewLease_def split_beta Let_def service_at_put renew_watchers)
      qed
    next
      case False
      then show ?thesis using Some by (simp add: Renew renewLease_def split_beta Let_def quiet_put)
    qed
  qed
next
  case (Lookup t s0)
  show ?thesis
  proof (cases "omap_find s0 r")
    case (Some st)
    then show ?thesis
      using sweep_cases [of t st]
      by (cases "s = s0") (auto simp: Lookup lookup_def split_beta quiet_put quiet_at_def reg_addrs_def service_at_put known_service)
  qed (simp add: Lookup lookup_def)
next
  case (Watch s0 cb)
  then show ?thesis using c by blast
next
  case (SweepPass f)
  have "service_at s (snd (snd (reg_step c r))) = snd (sweepExpiredLocked (f s) (service_at s r))"
    by (simp add: SweepPass sweep_pass_def service_at_def omap_find_map sweepExpiredLocked_def empty_service_def split: option.split)
  then show ?thesis using sweep_cases [of "f s" "service_at s r"] by (auto simp: quiet_at_def reg_addrs_def)
qed

section \<open>Clusters follow the registry\<close>

definition in_sync :: "bytes \<Rightarrow> 'c discovery \<Rightarrow> bool" where
  "in_sync s d \<longleftrightarrow> map inst_addr (cc_instances (di_clusters d s)) = reg_addrs s (di_registry d)"

text \<open>The services in \<open>D\<close> are followed; the callbacks of those in \<open>P\<close> have been fired and not yet run.\<close>

definition following :: "bytes set \<Rightarrow> bytes set \<Rightarrow> 'c discovery \<Rightarrow> bool" where
  "following D P d \<longleftrightarrow>
     registry_ok (di_registry d) \<and>
     (\<forall>s. watchers_of s (di_registry d) = (if s \<in> D - P then [Some s] else [])) \<and>
     (\<forall>s \<in> D - P. in_sync s d)"

text \<open>The pending callbacks are the followed services, each once.\<close>

lemma pending_followed:
  assumes "omap_ok r" and "\<And>s. watchers_of s r = (if s \<in> D then [Some s] else [])"
  shows "finite D \<and> pending r = mset_set D"
proof -
  have mem: "(s, st) \<in> set r \<Longrightarrow> run_callbacks (ss_watchers st) = (if s \<in> D then [s] else [])" for s st
    using omap_mem_find [OF assms(1), of s st] assms(2) [of s] by (simp add: known_service)
  have "pending xs = mset (filter (\<lambda>s. s \<in> D) (map fst xs))" if "set xs \<subseteq> set r" for xs
    using that by (induction xs) (auto simp: pending_def mem)
  then have p: "pending r = mset (filter (\<lambda>s. s \<in> D) (map fst r))" by blast
  have "s \<in> fst ` set r" if "s \<in> D" for s
    using assms(2) [of s] that omap_mem_find [OF assms(1), of s]
    by (cases "omap_find s r") (force simp: service_at_def empty_service_def)+
  then have D: "set (filter (\<lambda>s. s \<in> D) (map fst r)) = D" by auto
  have "distinct (filter (\<lambda>s. s \<in> D) (map fst r))"
    using assms(1) by (simp add: omap_ok_def strict_sorted_iff)
  then show ?thesis unfolding p using D mset_set_set by (metis List.finite_set)
qed

lemma following_reg:
  assumes f: "following D {} d" and c: "\<And>s' cb. c \<noteq> Watch s' cb" and step: "reg_step c (di_registry d) = (out, fired, r)"
  shows "following D (set fired) (d\<lparr>di_registry := r\<rparr>)" "distinct fired" "set fired \<subseteq> D"
proof -
  let ?r = "di_registry d"
  define W where "W = {s. watchers_of s r \<noteq> []}"
  have ok: "registry_ok ?r" "registry_ok r" using f registry_ok_step [of ?r c] step by (simp_all add: following_def)
  have w: "watchers_of s ?r = (if s \<in> D then [Some s] else [])" for s using f by (simp add: following_def)
  have q: "quiet_at s ?r r \<or> watchers_of s r = []" for s using reg_step_quiet [OF ok(1) c, of s] step by simp
  have w': "watchers_of s r = (if s \<in> W then [Some s] else [])" for s
    using q [of s] w [of s] by (auto simp: W_def quiet_at_def split: if_splits)
  have sub: "W \<subseteq> D"
  proof
    fix s
    assume "s \<in> W"
    then show "s \<in> D" using q [of s] w [of s] by (simp add: W_def quiet_at_def split: if_splits)
  qed
  note pd = pending_followed [OF registry_ok_service(1) [OF ok(1)] w] pending_followed [OF registry_ok_service(1) [OF ok(2)] w']
  have "subscribed c = {#}" using c by (cases c) auto
  then have "mset fired + mset_set W = mset_set D" using reg_step_pending [OF ok(1), of c] step pd by simp
  then have "mset fired = mset_set (D - W)" using pd sub by (metis add_diff_cancel_right' mset_set_Diff)
  moreover have "finite (D - W)" using pd by blast
  ultimately have fired: "distinct fired" "set fired = D - W"
    by (simp_all add: distinct_count_atmost_1 flip: set_mset_mset)
  have "in_sync s (d\<lparr>di_registry := r\<rparr>)" if "s \<in> W" for s
  proof -
    have "quiet_at s ?r r" using q [of s] that by (simp add: W_def)
    moreover have "in_sync s d" using f sub that by (auto simp: following_def)
    ultimately show ?thesis by (simp add: in_sync_def quiet_at_def)
  qed
  moreover have "D - set fired = W" using fired sub by auto
  ultimately show "following D (set fired) (d\<lparr>di_registry := r\<rparr>)" "distinct fired" "set fired \<subseteq> D"
    using ok(2) w' fired by (simp_all add: following_def)
qed

text \<open>Running a fired callback brings its cluster back into step; its lookup fires nothing.\<close>

lemma following_set:
  assumes f: "following D P d" and s: "s \<in> P \<or> s \<notin> D"
  shows "following (insert s D) (P - {s}) (fst (setDiscovery now s d))" "snd (setDiscovery now s d) = []"
proof -
  let ?r = "di_registry d"
  obtain infos nested r where look: "lookup now s ?r = (infos, nested, r)" by (metis prod_cases3)
  have ok: "registry_ok ?r" using f by (simp add: following_def)
  have none: "watchers_of s ?r = []" using f s by (auto simp: following_def)
  have swept: "ss_watchers (snd (sweepExpiredLocked now (service_at s ?r))) = []" "fst (sweepExpiredLocked now (service_at s ?r)) = []"
    using none by (simp_all add: sweepExpiredLocked_def Let_def)
  have res: "nested = []" "map info_addr infos = reg_addrs s r" "watchers_of s r = []"
    "\<And>s'. s' \<noteq> s \<Longrightarrow> service_at s' r = service_at s' ?r"
    using look swept none by (auto simp: lookup_def reg_addrs_def service_at_def empty_service_def split_beta split: option.splits)
  have ok': "registry_ok r" using registry_ok_step [OF ok, of "Lookup now s"] look by simp
  have reg: "registry_ok (resubscribeWatch s r)"
    using registry_ok_step [OF ok', of "Watch s (Some s)"] by (simp add: resubscribeWatch_def)
  have at: "service_at s' (resubscribeWatch s r) =
      (if s' = s then (service_at s r)\<lparr>ss_watchers := [Some s]\<rparr> else service_at s' ?r)" for s'
    using res(3,4) by (simp add: resubscribeWatch_def watch_def Let_def service_at_put)
  have w: "watchers_of s' ?r = (if s' \<in> D - P then [Some s'] else [])" for s' using f by (simp add: following_def)
  have sync: "in_sync s' d" if "s' \<in> D - P" for s' using f that by (simp add: following_def)
  have "setDiscovery now s d = (\<lparr>di_registry = resubscribeWatch s r,
      di_clusters = (di_clusters d)(s := fst (applyInstances infos (di_clusters d s)))\<rparr>, [])"
    by (simp add: setDiscovery_def look res(1))
  moreover have "in_sync s' (\<lparr>di_registry = resubscribeWatch s r,
      di_clusters = (di_clusters d)(s := fst (applyInstances infos (di_clusters d s)))\<rparr>)" if "s' \<in> insert s D - (P - {s})" for s'
    using that sync [of s'] by (auto simp: in_sync_def applyInstances_addrs res(2) reg_addrs_def at)
  ultimately show "following (insert s D) (P - {s}) (fst (setDiscovery now s d))" "snd (setDiscovery now s d) = []"
    using reg w by (simp_all add: following_def at)
qed

lemma following_run:
  "following D (set fired) d \<Longrightarrow> distinct fired \<Longrightarrow> set fired \<subseteq> D \<Longrightarrow>
    following D {} (fst (run_watchers now fired d)) \<and> snd (run_watchers now fired d) = []"
proof (induction fired arbitrary: d)
  case (Cons s fired)
  note set = following_set [OF Cons.prems(1), of s "now s"]
  have "insert s D = D" "set (s # fired) - {s} = set fired" using Cons.prems(2,3) by auto
  then have "following D (set fired) (fst (setDiscovery (now s) s d))" "snd (setDiscovery (now s) s d) = []" using set by simp_all
  with Cons.IH [OF this(1)] Cons.prems(2,3) show ?case by (simp add: split_beta Let_def)
qed simp

lemma following_step:
  assumes f: "following D {} d" and x: "no_watch x" "set (followed x) \<inter> D = {}"
  shows "following (D \<union> set (followed x)) {} (fst (disc_step x d)) \<and> snd (disc_step x d) = []"
proof (cases x)
  case (DiSet now s)
  then show ?thesis using following_set [OF f, of s now] x(2) by simp
next
  case (DiReg now c)
  have c: "\<And>s' cb. c \<noteq> Watch s' cb" using x(1) DiReg by (cases c) auto
  obtain out fired r where "reg_step c (di_registry d) = (out, fired, r)" by (metis prod_cases3)
  then show ?thesis using following_run [OF following_reg [OF f c]] DiReg by simp
qed

lemma following_exec:
  "following D {} d \<Longrightarrow> list_all no_watch xs \<Longrightarrow> distinct (concat (map followed xs)) \<Longrightarrow> D \<inter> set (concat (map followed xs)) = {} \<Longrightarrow>
    following (D \<union> set (concat (map followed xs))) {} (fst (run_ops disc_step xs d)) \<and> snd (run_ops disc_step xs d) = []"
proof (induction xs arbitrary: D d)
  case (Cons x xs)
  have "following (D \<union> set (followed x)) {} (fst (disc_step x d)) \<and> snd (disc_step x d) = []"
    using Cons.prems by (intro following_step) auto
  with Cons.IH [of "D \<union> set (followed x)" "fst (disc_step x d)"] Cons.prems show ?case
    by (auto simp: split_beta Let_def Un_assoc)
qed simp

lemma following_start: "following {} {} no_discovery"
  by (simp add: following_def no_discovery_def registry_ok_def service_at_def empty_service_def)

section \<open>Instances that stay\<close>

text \<open>Every channel and breaker of the cluster has an address that has been given out.\<close>

definition cluster_ok :: "'c cluster \<Rightarrow> bool" where
  "cluster_ok cl \<longleftrightarrow> (\<forall>inst \<in> set (cc_instances cl). in_channel inst < cc_nextAddr cl \<and> in_breaker inst < cc_nextAddr cl)"

lemma next_instances_store:
  "cc_nextAddr cl \<le> cc_nextAddr (fst (snd (next_instances old infos cl))) \<and>
   (\<forall>a < cc_nextAddr cl. cc_breakers (fst (snd (next_instances old infos cl))) a = cc_breakers cl a) \<and>
   (\<forall>inst \<in> set (fst (next_instances old infos cl)). inst \<in> set old \<or>
      in_channel inst < cc_nextAddr (fst (snd (next_instances old infos cl))) \<and>
      in_breaker inst < cc_nextAddr (fst (snd (next_instances old infos cl))))"
proof (induction infos arbitrary: cl)
  case (Cons info infos)
  show ?case
  proof (cases "filter (same_addr (ii_host info) (ii_port info)) old")
    case Nil
    then show ?thesis
      using Cons [of "cl\<lparr>cc_nextAddr := cc_nextAddr cl + 1, cc_breakers := (cc_breakers cl)(cc_nextAddr cl := default_breaker)\<rparr>"]
      by (auto simp: split_beta Let_def make_instance_def)
  next
    case found: (Cons inst0 insts)
    then have "inst0 \<in> set (filter (same_addr (ii_host info) (ii_port info)) old)" by simp
    then have "inst0 \<in> set old" by simp
    then show ?thesis using Cons [of cl] found by (simp add: split_beta Let_def)
  qed
qed simp

lemma next_instances_kept:
  assumes "inst \<in> set old" and "info \<in> set infos" and "inst_addr inst = info_addr info" and "distinct (map inst_addr old)"
  shows "inst \<in> set (fst (next_instances old infos cl))"
  using assms(2)
proof (induction infos arbitrary: cl)
  case (Cons x infos)
  show ?case
  proof (cases "x = info")
    case True
    have only: "i = inst" if "i \<in> set old" "same_addr (ii_host info) (ii_port info) i" for i
    proof -
      have "inst_addr i = inst_addr inst" using that(2) assms(3) by (simp add: same_addr_def inst_addr_def info_addr_def)
      with that(1) assms(1,4) show ?thesis unfolding distinct_map by (blast dest: inj_onD)
    qed
    have "inst \<in> set (filter (same_addr (ii_host info) (ii_port info)) old)"
      using assms(1,3) by (simp add: same_addr_def inst_addr_def info_addr_def)
    moreover have "set (filter (same_addr (ii_host info) (ii_port info)) old) \<subseteq> {inst}" using only by auto
    ultimately obtain ys where "filter (same_addr (ii_host info) (ii_port info)) old = inst # ys"
      by (cases "filter (same_addr (ii_host info) (ii_port info)) old") (simp_all del: filter_set set_filter)
    then show ?thesis using True by (simp add: split_beta Let_def)
  next
    case False
    then show ?thesis using Cons by (auto simp: split_beta Let_def split: list.split)
  qed
qed simp

section \<open>Properties\<close>


definition sample_info :: "u16 \<Rightarrow> u64 \<Rightarrow> instance_info" where
  "sample_info port i = \<lparr>ii_service = [1], ii_host = [2], ii_port = port, ii_instanceId = i\<rparr>"


text \<open>An update keeps the connections of the instances that stay: for every instance whose address is still listed, the
  cluster keeps the same channel and the same breaker, in the same state; only the channels of the others
  are stopped.\<close>

theorem apply_keeps_channels:
  assumes "cluster_ok cl" and "distinct (map inst_addr (cc_instances cl))" and "applyInstances infos cl = (cl', effs)"
    and "inst \<in> set (cc_instances cl)" and "inst_addr inst \<in> info_addr ` set infos"
  shows "inst \<in> set (cc_instances cl') \<and> cc_breakers cl' (in_breaker inst) = cc_breakers cl (in_breaker inst) \<and> cluster_ok cl'"
proof -
  note store = next_instances_store [of cl "cc_instances cl" infos]
  have cl': "cl' = (fst (snd (next_instances (cc_instances cl) infos cl)))\<lparr>cc_instances := fst (next_instances (cc_instances cl) infos cl)\<rparr>"
    using assms(3) by (simp add: applyInstances_def split_beta Let_def)
  from assms(5) obtain info where "info \<in> set infos" "inst_addr inst = info_addr info" by blast
  from next_instances_kept [OF assms(4) this assms(2)] have "inst \<in> set (cc_instances cl')" by (simp add: cl')
  moreover have "cc_breakers cl' (in_breaker inst) = cc_breakers cl (in_breaker inst)"
    using store assms(1,4) by (simp add: cl' cluster_ok_def)
  moreover have "cluster_ok cl'"
    using store assms(1) unfolding cl' cluster_ok_def by (simp, meson order_less_le_trans)
  ultimately show ?thesis by blast
qed

text \<open>A missed update: \<^verbatim>\<open>setDiscovery\<close> and the callback look up before they subscribe. An instance registered between the two
  fires nobody, and the cluster does not have it until the service changes again.\<close>

theorem discovery_misses_update:
  "let (infos, nested, r1) = lookup 0 [1] ([] :: bytes registry);
       (fired, r2) = registerService 0 (sample_info 80 1) 100 r1;
       r3 = resubscribeWatch [1] r2;
       cl = fst (applyInstances infos (new_cluster :: nat cluster))
   in fired = [] \<and> cc_instances cl = [] \<and> reg_addrs [1] r3 = [([2], 80)]"
  by code_simp

text \<open>A registry that cannot be reached empties the cluster: the remote client returns a failed lookup as an empty list, and
  applying it stops every channel.\<close>

theorem failed_lookup_stops_cluster:
  assumes "client_lookup VNull = Some infos"
  shows "cc_instances (fst (applyInstances infos cl)) = [] \<and>
    snd (applyInstances infos cl) = map (\<lambda>inst. StopChannel (in_channel inst)) (cc_instances cl)"
  using assms by (simp add: client_lookup_def applyInstances_def)

end
