(* ===== verification/Scheduler.thy ===== *)
theory Scheduler
  imports Accounting
begin

text \<open>
  \<^verbatim>\<open>include/Scheduler.h\<close>, \<^verbatim>\<open>src/Scheduler.cpp\<close>: coroutines on worker threads, with one ready queue, a heap of sleeping
  coroutines and a timer thread. A coroutine is a number, its address, with its function, an element of
  the type parameter. What a running coroutine does next (sleep or finish) is an operation; the atomic
  sections of the workers, of the timer thread and of the callers are the steps, so executions are their
  interleavings. \<^verbatim>\<open>coSleep\<close> is two steps, parking on the heap and the context switch, because it releases the
  lock in between. Of the heap only the guarantee of \<^verbatim>\<open>std::pop_heap\<close> is used: the entry taken has a least deadline.
\<close>

section \<open>State\<close>

type_synonym 'f coro = "nat \<times> 'f"

datatype 'f worker =
    WTop                 \<comment> \<open>at the head of the loop\<close>
  | WWait                \<comment> \<open>waiting for a ready coroutine\<close>
  | WRun "'f coro"       \<comment> \<open>inside a coroutine\<close>
  | WParked "'f coro"    \<comment> \<open>inside \<^verbatim>\<open>coSleep\<close>, parked but not yet switched away\<close>
  | WExit

datatype timer_state = TTop | TDecided | TSleeping | TExit

record 'f sched =
  sc_running :: bool
  sc_ready :: "'f coro list"
  sc_sleep :: "(time \<times> 'f coro) list"
  sc_workers :: "'f worker list"
  sc_timer :: timer_state
  sc_next :: nat
  sc_finished :: "nat set"

definition new_sched :: "'f sched" where
  "new_sched = \<lparr>sc_running = False, sc_ready = [], sc_sleep = [], sc_workers = [], sc_timer = TExit, sc_next = 0, sc_finished = {}\<rparr>"

datatype 'f sched_effect = CoFinished "'f coro" | CoReaped "'f coro"

type_synonym 'f sched_result = "'f sched \<times> 'f sched_effect list"

section \<open>Operations\<close>

definition sched_start :: "nat \<Rightarrow> 'f sched \<Rightarrow> 'f sched_result" where
  "sched_start workerCount s =
     (if sc_running s then (s, [])
      else (s\<lparr>sc_running := True, sc_workers := replicate (if workerCount > 0 then workerCount else 1) WTop, sc_timer := TTop\<rparr>, []))"

definition spawn :: "'f \<Rightarrow> 'f sched \<Rightarrow> 'f sched_result" where
  "spawn fn s = (s\<lparr>sc_next := sc_next s + 1, sc_ready := sc_ready s @ [(sc_next s, fn)]\<rparr>, [])"

text \<open>A notification wakes the timer thread only if it already waits.\<close>

definition notify_timer :: "'f sched \<Rightarrow> 'f sched" where
  "notify_timer s = (if sc_timer s = TSleeping then s\<lparr>sc_timer := TTop\<rparr> else s)"

text \<open>A step of worker \<open>w\<close>: the test of the loop, or taking the front of the ready queue.\<close>

definition worker_turn :: "nat \<Rightarrow> 'f sched \<Rightarrow> 'f sched_result" where
  "worker_turn w s =
     (case sc_workers s ! w of
        WTop \<Rightarrow> (s\<lparr>sc_workers := (sc_workers s)[w := (if sc_running s then WWait else WExit)]\<rparr>, [])
      | WWait \<Rightarrow>
          (case sc_ready s of
             [] \<Rightarrow> if sc_running s then (s, []) else (s\<lparr>sc_workers := (sc_workers s)[w := WExit]\<rparr>, [])
           | k # ks \<Rightarrow> (s\<lparr>sc_ready := ks, sc_workers := (sc_workers s)[w := WRun k]\<rparr>, []))
      | _ \<Rightarrow> (s, []))"

text \<open>
  The first half of \<^verbatim>\<open>coSleep\<close>, called by the coroutine on worker \<open>w\<close>; it needs the lock of the heap, which the timer
  thread holds between its decision to wait and the wait.
\<close>

definition coSleep_park :: "nat \<Rightarrow> time \<Rightarrow> time \<Rightarrow> 'f sched \<Rightarrow> 'f sched_result" where
  "coSleep_park w now ms s =
     (case sc_workers s ! w of
        WRun k \<Rightarrow>
          if sc_timer s = TDecided then (s, [])
          else (notify_timer (s\<lparr>sc_sleep := sc_sleep s @ [(now + ms, k)], sc_workers := (sc_workers s)[w := WParked k]\<rparr>), [])
      | _ \<Rightarrow> (s, []))"

text \<open>The second half, \<^verbatim>\<open>swapcontext\<close> back to the worker.\<close>

definition coSleep_switch :: "nat \<Rightarrow> 'f sched \<Rightarrow> 'f sched_result" where
  "coSleep_switch w s =
     (case sc_workers s ! w of WParked k \<Rightarrow> (s\<lparr>sc_workers := (sc_workers s)[w := WTop]\<rparr>, []) | _ \<Rightarrow> (s, []))"

text \<open>The function of the coroutine returns: \<^verbatim>\<open>coroutineEntry\<close> marks it done and the worker deletes it.\<close>

definition coroutine_finish :: "nat \<Rightarrow> 'f sched \<Rightarrow> 'f sched_result" where
  "coroutine_finish w s =
     (case sc_workers s ! w of
        WRun k \<Rightarrow> (s\<lparr>sc_workers := (sc_workers s)[w := WTop], sc_finished := insert (fst k) (sc_finished s)\<rparr>, [CoFinished k])
      | _ \<Rightarrow> (s, []))"

text \<open>A step of the timer thread at time \<open>now\<close>; \<open>i\<close> is the entry at the front of the heap.\<close>

definition heap_front :: "nat \<Rightarrow> (time \<times> 'a) list \<Rightarrow> bool" where
  "heap_front i h \<longleftrightarrow> i < length h \<and> (\<forall>e \<in> set h. fst (h ! i) \<le> fst e)"

definition timer_turn :: "nat \<Rightarrow> time \<Rightarrow> 'f sched \<Rightarrow> 'f sched_result" where
  "timer_turn i now s =
     (case sc_timer s of
        TTop \<Rightarrow>
          if sc_sleep s = [] then (s\<lparr>sc_timer := (if sc_running s then TDecided else TExit)\<rparr>, [])
          else if \<not> heap_front i (sc_sleep s) \<or> now < fst (sc_sleep s ! i) then (s, [])
          else let k = snd (sc_sleep s ! i); s1 = s\<lparr>sc_sleep := remove_at i (sc_sleep s)\<rparr>
               in (if fst k \<in> sc_finished s then s1 else s1\<lparr>sc_ready := sc_ready s1 @ [k]\<rparr>, [])
      | TDecided \<Rightarrow> (s\<lparr>sc_timer := TSleeping\<rparr>, [])
      | _ \<Rightarrow> (s, []))"

definition sched_stop :: "'f sched \<Rightarrow> 'f sched_result" where
  "sched_stop s = (if \<not> sc_running s then (s, []) else (notify_timer (s\<lparr>sc_running := False\<rparr>), []))"

text \<open>The end of \<^verbatim>\<open>stop\<close>: every thread has been joined, the coroutines still queued are deleted.\<close>

definition joined :: "'f sched \<Rightarrow> bool" where
  "joined s \<longleftrightarrow> \<not> sc_running s \<and> (\<forall>w \<in> set (sc_workers s). w = WExit) \<and> sc_timer s = TExit"

definition sched_reap :: "'f sched \<Rightarrow> 'f sched_result" where
  "sched_reap s =
     (if joined s
      then (s\<lparr>sc_ready := [], sc_sleep := [], sc_workers := []\<rparr>,
            map CoReaped (sc_ready s) @ map (\<lambda>e. CoReaped (snd e)) (sc_sleep s))
      else (s, []))"

section \<open>Executions\<close>

datatype 'f sched_op =
    ScStart nat
  | ScSpawn 'f
  | ScWorker nat
  | ScSleep nat time time
  | ScSwitch nat
  | ScFinish nat
  | ScTimer nat time
  | ScStop
  | ScReap

fun sched_step :: "'f sched_op \<Rightarrow> 'f sched \<Rightarrow> 'f sched_result" where
  "sched_step (ScStart n) s = (if sc_workers s = [] then sched_start n s else (s, []))"
| "sched_step (ScSpawn fn) s = spawn fn s"
| "sched_step (ScWorker w) s = (if w < length (sc_workers s) then worker_turn w s else (s, []))"
| "sched_step (ScSleep w now ms) s = (if w < length (sc_workers s) then coSleep_park w now ms s else (s, []))"
| "sched_step (ScSwitch w) s = (if w < length (sc_workers s) then coSleep_switch w s else (s, []))"
| "sched_step (ScFinish w) s = (if w < length (sc_workers s) then coroutine_finish w s else (s, []))"
| "sched_step (ScTimer i now) s = timer_turn i now s"
| "sched_step ScStop s = sched_stop s"
| "sched_step ScReap s = sched_reap s"

section \<open>Coroutines are conserved\<close>

text \<open>
  A coroutine is ready, running or on the heap. A parked one that has not switched away is on the heap,
  although its worker still executes it.
\<close>

fun running_on :: "'f worker \<Rightarrow> 'f coro multiset" where
  "running_on (WRun k) = {#k#}"
| "running_on _ = {#}"

definition coros :: "'f sched \<Rightarrow> 'f coro multiset" where
  "coros s = mset (sc_ready s) + sum_list (map running_on (sc_workers s)) + mset (map snd (sc_sleep s))"

fun ended :: "'f sched_effect \<Rightarrow> 'f coro multiset" where
  "ended (CoFinished k) = {#k#}"
| "ended (CoReaped k) = {#k#}"

definition sched_ok :: "'f sched \<Rightarrow> bool" where
  "sched_ok s \<longleftrightarrow>
     (\<forall>i. count (image_mset fst (coros s)) i \<le> 1) \<and>
     (\<forall>k \<in># coros s. fst k < sc_next s \<and> fst k \<notin> sc_finished s) \<and> (\<forall>i \<in> sc_finished s. i < sc_next s)"

lemma coros_worker:
  assumes "w < length (sc_workers s)"
  shows "coros (s\<lparr>sc_workers := (sc_workers s)[w := x]\<rparr>) + running_on (sc_workers s ! w) = coros s + running_on x"
  using sum_list_update [OF assms, of running_on x] by (simp add: coros_def ac_simps)

lemma notify_timer_same [simp]:
  "coros (notify_timer s) = coros s" "sc_next (notify_timer s) = sc_next s" "sc_finished (notify_timer s) = sc_finished s"
  "sc_workers (notify_timer s) = sc_workers s" "sc_ready (notify_timer s) = sc_ready s" "sc_sleep (notify_timer s) = sc_sleep s"
  by (simp_all add: notify_timer_def coros_def)

lemma mset_remove_at: "i < length xs \<Longrightarrow> mset (map f (remove_at i xs)) + {#f (xs ! i)#} = mset (map f xs)"
  using remove_at_simps(3) [of i xs "\<lambda>x. {#f x#}"] by simp

lemma sum_replicate_empty [simp]: "sum_list (replicate n {#}) = {#}"
  by (induction n) simp_all

lemma settled_reaped: "settled ended (map CoReaped ks) = mset ks"
  by (induction ks) simp_all

fun spawned :: "nat \<Rightarrow> 'f sched_op \<Rightarrow> 'f coro multiset" where
  "spawned n (ScSpawn fn) = {#(n, fn)#}"
| "spawned n _ = {#}"

lemma worker_turn_coros:
  assumes "w < length (sc_workers s)"
  shows "coros (fst (worker_turn w s)) = coros s" "snd (worker_turn w s) = []"
    "sc_next (fst (worker_turn w s)) = sc_next s" "sc_finished (fst (worker_turn w s)) = sc_finished s"
proof -
  note put = coros_worker [OF assms]
  have take: "coros (s\<lparr>sc_ready := ks, sc_workers := (sc_workers s)[w := WRun k]\<rparr>) = coros s"
    if "sc_ready s = k # ks" "sc_workers s ! w = WWait" for k ks
    using put [of "WRun k"] that by (simp add: coros_def)
  show "coros (fst (worker_turn w s)) = coros s" "snd (worker_turn w s) = []"
    "sc_next (fst (worker_turn w s)) = sc_next s" "sc_finished (fst (worker_turn w s)) = sc_finished s"
    using put [of WWait] put [of WExit] take by (auto simp: worker_turn_def split: worker.split list.split)
qed

lemma coSleep_park_coros:
  assumes "w < length (sc_workers s)"
  shows "coros (fst (coSleep_park w now ms s)) = coros s"
proof (cases "sc_workers s ! w")
  case (WRun k)
  then show ?thesis
    using coros_worker [OF assms, of "WParked k"] by (simp add: coSleep_park_def coros_def ac_simps)
qed (simp_all add: coSleep_park_def)

lemma timer_turn_coros:
  assumes "sched_ok s"
  shows "coros (fst (timer_turn i now s)) = coros s"
proof (cases "sc_timer s = TTop \<and> sc_sleep s \<noteq> [] \<and> heap_front i (sc_sleep s) \<and> \<not> now < fst (sc_sleep s ! i)")
  case True
  then have i: "i < length (sc_sleep s)" by (simp add: heap_front_def)
  have "snd (sc_sleep s ! i) \<in># coros s" using i by (auto simp: coros_def)
  then have "fst (snd (sc_sleep s ! i)) \<notin> sc_finished s" using assms by (auto simp: sched_ok_def)
  then show ?thesis
    using True mset_remove_at [OF i, of snd] by (simp add: timer_turn_def coros_def Let_def ac_simps)
qed (auto simp: timer_turn_def coros_def split: timer_state.split)

lemma step_coros:
  fixes s :: "'a sched"
  assumes "sched_ok s"
  shows "settled ended (snd (sched_step x s)) + coros (fst (sched_step x s)) = coros s + spawned (sc_next s) x"
proof (cases x)
  case (ScStart n)
  then show ?thesis by (auto simp: sched_start_def coros_def)
next
  case (ScSpawn fn)
  then show ?thesis by (simp add: spawn_def coros_def)
next
  case (ScWorker w)
  then show ?thesis using worker_turn_coros [of w s] by simp
next
  case (ScSleep w now ms)
  then show ?thesis using coSleep_park_coros [of w s now ms] by (auto simp: coSleep_park_def split: worker.split)
next
  case (ScSwitch w)
  then show ?thesis using coros_worker [of w s WTop] by (auto simp: coSleep_switch_def split: worker.split)
next
  case (ScFinish w)
  then show ?thesis using coros_worker [of w s WTop]
    by (auto simp: coroutine_finish_def coros_def split: worker.split)
next
  case (ScTimer i now)
  then show ?thesis using timer_turn_coros [OF assms, of i now] by (auto simp: timer_turn_def Let_def split: timer_state.split)
next
  case ScStop
  then show ?thesis by (simp add: sched_stop_def) (simp add: coros_def)
next
  case ScReap
  have "sum_list (map running_on ws) = {#}" if "\<forall>w \<in> set ws. w = WExit" for ws :: "'a worker list"
    using that by (induction ws) auto
  then show ?thesis
    using ScReap settled_reaped [of "map snd (sc_sleep s)"]
    by (auto simp: sched_reap_def joined_def coros_def settled_reaped o_def)
qed

lemma step_counters:
  "sc_next s \<le> sc_next (fst (sched_step x s))"
  "sc_finished (fst (sched_step x s)) \<subseteq> sc_finished s \<union> fst ` set_mset (settled ended (snd (sched_step x s)))"
  "spawned (sc_next s) x \<noteq> {#} \<Longrightarrow> sc_next (fst (sched_step x s)) = sc_next s + 1"
proof -
  show "sc_next s \<le> sc_next (fst (sched_step x s))"
    by (cases x) (auto simp: sched_start_def spawn_def worker_turn_coros coSleep_park_def coSleep_switch_def coroutine_finish_def
        timer_turn_def sched_stop_def sched_reap_def Let_def split: worker.split timer_state.split)
  show "sc_finished (fst (sched_step x s)) \<subseteq> sc_finished s \<union> fst ` set_mset (settled ended (snd (sched_step x s)))"
    by (cases x) (auto simp: sched_start_def spawn_def worker_turn_coros coSleep_park_def coSleep_switch_def coroutine_finish_def
        timer_turn_def sched_stop_def sched_reap_def Let_def split: worker.splits timer_state.splits)
  show "spawned (sc_next s) x \<noteq> {#} \<Longrightarrow> sc_next (fst (sched_step x s)) = sc_next s + 1"
    by (cases x) (simp_all add: spawn_def)
qed

lemma sched_ok_step:
  assumes ok: "sched_ok s"
  shows "sched_ok (fst (sched_step x s))"
proof -
  let ?s = "fst (sched_step x s)" and ?E = "settled ended (snd (sched_step x s))" and ?N = "spawned (sc_next s) x"
  note bal = step_coros [OF ok, of x]
  have new: "\<forall>k \<in># ?N. fst k = sc_next s" "size ?N \<le> 1" by (cases x; simp)+
  have old: "\<forall>k \<in># coros s. fst k < sc_next s \<and> fst k \<notin> sc_finished s" "\<forall>i \<in> sc_finished s. i < sc_next s"
    using ok by (simp_all add: sched_ok_def)
  have total: "count (image_mset fst (coros s + ?N)) i \<le> 1" for i
  proof -
    have le: "count (image_mset fst (coros s)) i \<le> 1" using ok by (simp add: sched_ok_def)
    have "count (image_mset fst (coros s)) i = 0" if "i = sc_next s"
      using old(1) that by (auto simp: count_eq_zero_iff)
    moreover have "count (image_mset fst ?N) i \<le> (if i = sc_next s then 1 else 0)" by (cases x) simp_all
    ultimately show ?thesis using le by (auto split: if_splits)
  qed
  have split: "count (image_mset fst ?E) i + count (image_mset fst (coros ?s)) i \<le> 1" for i
    using total [of i] by (simp add: flip: bal)
  have sub: "\<forall>k \<in># coros ?s + ?E. k \<in># coros s + ?N" unfolding add.commute [of "coros ?s"] bal by blast
  have "fst k \<notin> sc_finished ?s" if k: "k \<in># coros ?s" for k
  proof
    assume "fst k \<in> sc_finished ?s"
    then consider "fst k \<in> sc_finished s" | "fst k \<in> fst ` set_mset ?E" using step_counters(2) [where x = x and s = s] by blast
    then show False
    proof cases
      case 1
      then show False using sub k new(1) old by fastforce
    next
      case 2
      then have "count (image_mset fst ?E) (fst k) \<ge> 1" "count (image_mset fst (coros ?s)) (fst k) \<ge> 1"
        using k by (auto simp: Suc_le_eq)
      with split [of "fst k"] show False by linarith
    qed
  qed
  moreover have lt: "fst k < sc_next ?s" if "k \<in># coros s + ?N" for k
    using that old(1) new(1) step_counters(1) [where x = x and s = s] step_counters(3) [where x = x and s = s]
    by (cases "?N = {#}") fastforce+
  moreover have "i < sc_next ?s" if "i \<in> sc_finished ?s" for i
    using that step_counters(2) [where x = x and s = s] step_counters(1) [where x = x and s = s] old(2) lt sub by fastforce
  ultimately show ?thesis using split sub unfolding sched_ok_def by (meson add_leE union_iff)
qed

fun spawned_fn :: "'f sched_op \<Rightarrow> 'f multiset" where
  "spawned_fn (ScSpawn fn) = {#fn#}"
| "spawned_fn _ = {#}"

definition fns :: "'f sched \<Rightarrow> 'f multiset" where
  "fns s = image_mset snd (coros s)"

definition ended_fn :: "'f sched_effect \<Rightarrow> 'f multiset" where
  "ended_fn e = image_mset snd (ended e)"

lemma settled_fns: "settled ended_fn effs = image_mset snd (settled ended effs)"
  by (induction effs) (simp_all add: ended_fn_def)

lemma spawned_fns: "image_mset snd (spawned n x) = spawned_fn x"
  by (cases x) simp_all

interpretation coroutines: accounting sched_step sched_ok fns ended_fn spawned_fn
proof
  fix s :: "'a sched" and x
  assume ok: "sched_ok s"
  show "sched_ok (fst (sched_step x s))" by (rule sched_ok_step [OF ok])
  show "settled ended_fn (snd (sched_step x s)) + fns (fst (sched_step x s)) = fns s + spawned_fn x"
    using arg_cong [OF step_coros [OF ok, of x], of "image_mset snd"] by (simp add: settled_fns spawned_fns fns_def)
qed

lemma new_sched_ok: "sched_ok new_sched"
  by (simp add: sched_ok_def new_sched_def coros_def)

section \<open>One worker at a time\<close>

text \<open>The coroutines that workers execute, parked or not.\<close>

fun on_cpu :: "'f worker \<Rightarrow> nat list" where
  "on_cpu (WRun k) = [fst k]"
| "on_cpu (WParked k) = [fst k]"
| "on_cpu _ = []"

definition executing :: "'f sched \<Rightarrow> nat list" where
  "executing s = concat (map on_cpu (sc_workers s))"

text \<open>Every parked coroutine switches away before anything else happens.\<close>

fun atomic_sleeps :: "'f sched_op list \<Rightarrow> bool" where
  "atomic_sleeps (ScSleep w now ms # ScSwitch w' # xs) \<longleftrightarrow> w = w' \<and> atomic_sleeps xs"
| "atomic_sleeps (ScSleep w now ms # xs) \<longleftrightarrow> False"
| "atomic_sleeps (x # xs) \<longleftrightarrow> atomic_sleeps xs"
| "atomic_sleeps [] \<longleftrightarrow> True"

definition nobody_parked :: "'f sched \<Rightarrow> bool" where
  "nobody_parked s \<longleftrightarrow> (\<forall>x \<in> set (sc_workers s). \<forall>k. x \<noteq> WParked k)"

lemma executing_distinct:
  assumes "sched_ok s" and "nobody_parked s"
  shows "distinct (executing s)"
proof -
  have eq: "mset (concat (map on_cpu ws)) = image_mset fst (sum_list (map running_on ws))"
    if "\<forall>x \<in> set ws. \<forall>k. x \<noteq> WParked k" for ws :: "'a worker list"
    using that
  proof (induction ws)
    case (Cons x ws)
    then show ?case by (cases x) auto
  qed simp
  have "count (mset (executing s)) i \<le> 1" for i
  proof -
    have "count (image_mset fst (sum_list (map running_on (sc_workers s)))) i \<le> count (image_mset fst (coros s)) i"
      by (simp add: coros_def)
    also have "\<dots> \<le> 1" using assms(1) by (simp add: sched_ok_def)
    finally show ?thesis using eq [of "sc_workers s"] assms(2) by (simp add: executing_def nobody_parked_def)
  qed
  then show ?thesis
    by (simp add: distinct_count_atmost_1) (metis One_nat_def count_mset_0_iff le_0_eq le_Suc_eq)
qed

lemma nobody_parked_step:
  "nobody_parked s \<Longrightarrow> \<forall>w now ms. x \<noteq> ScSleep w now ms \<Longrightarrow> nobody_parked (fst (sched_step x s))"
  by (cases x) (auto simp: nobody_parked_def sched_start_def spawn_def worker_turn_def coSleep_switch_def coroutine_finish_def
      timer_turn_def sched_stop_def sched_reap_def Let_def split: worker.split timer_state.split list.split
      dest!: set_update_subset_insert [THEN subsetD])

lemma nobody_parked_sleep:
  assumes "nobody_parked s"
  shows "nobody_parked (fst (sched_step (ScSwitch w) (fst (sched_step (ScSleep w now ms) s))))"
  using assms
  by (auto simp: nobody_parked_def coSleep_park_def coSleep_switch_def split: worker.split
      dest!: set_update_subset_insert [THEN subsetD])

lemma nobody_parked_run:
  "atomic_sleeps xs \<Longrightarrow> nobody_parked s \<Longrightarrow> nobody_parked (fst (run_ops sched_step xs s))"
proof (induction xs arbitrary: s rule: atomic_sleeps.induct)
  case (1 w now ms w' xs)
  then show ?case
    using nobody_parked_sleep [of s w now ms] by (simp add: split_beta Let_def del: sched_step.simps)
qed (simp_all add: split_beta Let_def nobody_parked_step del: sched_step.simps)

section \<open>Properties\<close>


text \<open>One worker at a time. In every execution in which a coroutine that goes to sleep has switched away before
  another thread takes a step, no coroutine is ever executed by two workers.\<close>

theorem scheduler_exclusive:
  assumes "atomic_sleeps xs"
  shows "distinct (executing (fst (run_ops sched_step xs new_sched)))"
proof (rule executing_distinct)
  show "sched_ok (fst (run_ops sched_step xs new_sched))" by (rule coroutines.run_ok [OF new_sched_ok])
  show "nobody_parked (fst (run_ops sched_step xs new_sched))"
    by (rule nobody_parked_run [OF assms]) (simp add: nobody_parked_def new_sched_def)
qed

theorem scheduler_exclusive_witness:
  "let xs = [ScStart 2, ScSpawn (7 :: nat), ScSpawn 8, ScWorker 0, ScWorker 0, ScWorker 1, ScWorker 1, ScSleep 0 0 5, ScSwitch 0,
       ScTimer 0 5, ScWorker 0, ScWorker 0]
   in atomic_sleeps xs \<and> executing (fst (run_ops sched_step xs new_sched)) = [0, 1] \<and>
      distinct (executing (fst (run_ops sched_step xs new_sched)))"
proof -
  define xs where "xs = [ScStart 2, ScSpawn (7 :: nat), ScSpawn 8, ScWorker 0, ScWorker 0, ScWorker 1, ScWorker 1, ScSleep 0 0 5, ScSwitch 0,
    ScTimer 0 5, ScWorker 0, ScWorker 0]"
  have "atomic_sleeps xs" by (simp add: xs_def)
  moreover have "executing (fst (run_ops sched_step xs new_sched)) = [0, 1]" unfolding xs_def by code_simp
  ultimately show ?thesis using scheduler_exclusive [of xs] unfolding xs_def [symmetric] by (simp add: Let_def)
qed

text \<open>Without that assumption it fails: \<^verbatim>\<open>coSleep\<close> puts the coroutine on the heap before it saves its context. If the timer
  thread moves it to the ready queue in between, a second worker resumes it from its old context while
  the first still executes it.\<close>

theorem coroutine_on_two_workers:
  "executing (fst (run_ops sched_step
     [ScStart 2, ScSpawn (7 :: nat), ScWorker 0, ScWorker 0, ScSleep 0 0 0, ScTimer 0 0, ScWorker 1, ScWorker 1] new_sched)) = [0, 0]"
  by code_simp

text \<open>A lost wake-up: \<^verbatim>\<open>stop\<close> notifies the timer thread without holding the lock of the heap. If the thread has just found
  the scheduler running and the heap empty, it goes to sleep after the notification, and from then on no
  step of any thread ends it, so \<^verbatim>\<open>stop\<close> never returns from joining it.\<close>

definition stop_race :: "nat sched" where
  "stop_race = fst (run_ops sched_step [ScStart 1, ScTimer 0 0, ScStop, ScTimer 0 0, ScWorker 0] new_sched)"

theorem stop_never_joins:
  assumes "list_all (\<lambda>x. case x of ScStart n \<Rightarrow> False | _ \<Rightarrow> True) xs"
  shows "\<not> joined (fst (run_ops sched_step xs stop_race))"
proof -
  define bad :: "nat sched \<Rightarrow> bool" where
    "bad s \<longleftrightarrow> \<not> sc_running s \<and> sc_workers s = [WExit] \<and> sc_timer s = TSleeping" for s
  have start: "bad stop_race" unfolding bad_def stop_race_def by code_simp
  have step: "bad (fst (sched_step x s))" if "bad s" "case x of ScStart n \<Rightarrow> False | _ \<Rightarrow> True" for x s
    using that by (cases x) (auto simp: bad_def spawn_def worker_turn_def coSleep_park_def coSleep_switch_def
        coroutine_finish_def timer_turn_def sched_stop_def sched_reap_def joined_def)
  have "bad (fst (run_ops sched_step xs s))" if "bad s" for s
    using assms that by (induction xs arbitrary: s) (simp_all add: split_beta Let_def step del: sched_step.simps)
  from this [OF start] show ?thesis by (simp add: bad_def joined_def)
qed

end
