(* ===== verification/MemoryPool.thy ===== *)
theory MemoryPool
  imports Buffer Accounting
begin

text \<open>
  \<^verbatim>\<open>include/MemoryPool.h\<close>: a pool of objects with a free list. Objects live in a store and are identified by the order of
  their creation; the shared pointers that \<^verbatim>\<open>acquire\<close> hands out are the list of objects in use, and the deleter
  is the release. The theorems give the connections what they rely on: the buffer they acquire is nobody
  else's, and empty.
\<close>

section \<open>The pool\<close>

record 't pool =
  mp_storage :: nat                 \<comment> \<open>the size of \<^verbatim>\<open>storage_\<close>\<close>
  mp_freeList :: "nat list"
  mp_object :: "nat \<Rightarrow> 't"

definition new_pool :: "'t \<Rightarrow> nat \<Rightarrow> 't pool" where
  "new_pool fresh initialSize = \<lparr>mp_storage = initialSize, mp_freeList = [0..<initialSize], mp_object = \<lambda>_. fresh\<rparr>"

definition pool_acquire :: "'t \<Rightarrow> 't pool \<Rightarrow> nat \<times> 't pool" where
  "pool_acquire fresh p =
     (if mp_freeList p = []
      then (mp_storage p, p\<lparr>mp_storage := mp_storage p + 1, mp_object := (mp_object p)(mp_storage p := fresh)\<rparr>)
      else (last (mp_freeList p), p\<lparr>mp_freeList := butlast (mp_freeList p)\<rparr>))"

definition pool_release :: "('t \<Rightarrow> 't) \<Rightarrow> nat \<Rightarrow> 't pool \<Rightarrow> 't pool" where
  "pool_release reset_obj i p =
     p\<lparr>mp_object := (mp_object p)(i := reset_obj (mp_object p i)), mp_freeList := mp_freeList p @ [i]\<rparr>"

definition pool_available :: "'t pool \<Rightarrow> nat" where
  "pool_available p = length (mp_freeList p)"

text \<open>\<^verbatim>\<open>BufferMemoryPool\<close>: 4096 buffers of the default size.\<close>

definition buffer_pool :: "buffer pool" where
  "buffer_pool = new_pool (new_buffer 1024) 4096"

section \<open>Executions\<close>

text \<open>The pool with the objects in use; a user may change an object it holds in any way.\<close>

datatype 't pool_op =
    PoAcquire
  | PoUse nat "'t \<Rightarrow> 't"
  | PoRelease nat

fun pool_step :: "'t \<Rightarrow> ('t \<Rightarrow> 't) \<Rightarrow> 't pool_op \<Rightarrow> 't pool \<times> nat list \<Rightarrow> ('t pool \<times> nat list) \<times> unit list" where
  "pool_step fresh reset_obj PoAcquire (p, held) = (let (i, p1) = pool_acquire fresh p in ((p1, held @ [i]), []))"
| "pool_step fresh reset_obj (PoUse j f) (p, held) =
     (if j < length held then ((p\<lparr>mp_object := (mp_object p)(held ! j := f (mp_object p (held ! j)))\<rparr>, held), []) else ((p, held), []))"
| "pool_step fresh reset_obj (PoRelease j) (p, held) =
     (if j < length held then ((pool_release reset_obj (held ! j) p, remove_at j held), []) else ((p, held), []))"

text \<open>Every object is in use or free, not both; a free object is in a state that \<open>Q\<close> describes.\<close>

definition pool_ok :: "('t \<Rightarrow> bool) \<Rightarrow> 't pool \<times> nat list \<Rightarrow> bool" where
  "pool_ok Q st \<longleftrightarrow> (case st of (p, held) \<Rightarrow>
     distinct (held @ mp_freeList p) \<and> set (held @ mp_freeList p) = {..<mp_storage p} \<and> (\<forall>i \<in> set (mp_freeList p). Q (mp_object p i)))"

lemma remove_at_distinct:
  assumes "j < length xs" and "distinct xs"
  shows "distinct (remove_at j xs)" "set (remove_at j xs) = set xs - {xs ! j}"
proof -
  have eq: "xs = take j xs @ xs ! j # drop (Suc j) xs" using assms(1) by (rule id_take_nth_drop)
  have d: "distinct (take j xs @ xs ! j # drop (Suc j) xs)" using assms(2) eq by simp
  show "distinct (remove_at j xs)" using d by (simp add: remove_at_def)
  have "set xs = set (take j xs @ xs ! j # drop (Suc j) xs)" using eq by simp
  then show "set (remove_at j xs) = set xs - {xs ! j}" using d by (auto simp: remove_at_def)
qed

lemma pool_acquire_ok:
  assumes ok: "pool_ok Q (p, held)" and fresh: "Q fresh" and acq: "pool_acquire fresh p = (i, p1)"
  shows "pool_ok Q (p1, held @ [i])" "i \<notin> set held" "Q (mp_object p1 i)"
proof -
  have d: "distinct (held @ mp_freeList p)" and elems: "set (held @ mp_freeList p) = {..<mp_storage p}"
    and Q: "\<forall>i \<in> set (mp_freeList p). Q (mp_object p i)"
    using ok by (simp_all add: pool_ok_def)
  have "pool_ok Q (p1, held @ [i]) \<and> i \<notin> set held \<and> Q (mp_object p1 i)"
  proof (cases "mp_freeList p" rule: rev_cases)
    case Nil
    then have p1: "i = mp_storage p" "p1 = p\<lparr>mp_storage := mp_storage p + 1, mp_object := (mp_object p)(mp_storage p := fresh)\<rparr>"
      using acq by (auto simp: pool_acquire_def)
    have "set held = {..<mp_storage p}" using elems Nil by simp
    then show ?thesis using d Nil fresh by (simp add: p1 pool_ok_def lessThan_Suc)
  next
    case (snoc fs f)
    then have p1: "i = f" "p1 = p\<lparr>mp_freeList := fs\<rparr>" using acq by (simp_all add: pool_acquire_def)
    have "set ((held @ [f]) @ fs) = {..<mp_storage p}" unfolding elems [symmetric] snoc by auto
    then show ?thesis using d Q snoc unfolding p1 pool_ok_def by simp
  qed
  then show "pool_ok Q (p1, held @ [i])" "i \<notin> set held" "Q (mp_object p1 i)" by blast+
qed

lemma pool_step_ok:
  assumes ok: "pool_ok Q st" and fresh: "Q fresh" and res: "\<And>x. Q (reset_obj x)"
  shows "pool_ok Q (fst (pool_step fresh reset_obj x st))"
proof (cases st)
  case (Pair p held)
  show ?thesis
  proof (cases x)
    case PoAcquire
    then show ?thesis using pool_acquire_ok(1) [OF ok [unfolded Pair] fresh] Pair by (simp add: split_beta)
  next
    case (PoUse j f)
    have "held ! j \<notin> set (mp_freeList p)" if "j < length held"
    proof -
      have "set held \<inter> set (mp_freeList p) = {}" using ok by (simp add: Pair pool_ok_def)
      with nth_mem [OF that] show ?thesis by blast
    qed
    then show ?thesis using ok Pair PoUse by (auto simp: pool_ok_def)
  next
    case (PoRelease j)
    show ?thesis
    proof (cases "j < length held")
      case True
      have d: "distinct (held @ mp_freeList p)" and elems: "set (held @ mp_freeList p) = {..<mp_storage p}"
        and Q: "\<forall>i \<in> set (mp_freeList p). Q (mp_object p i)" and mem: "held ! j \<in> set held"
        using ok True by (simp_all add: Pair pool_ok_def)
      have dh: "distinct held" using d by simp
      note rem = remove_at_distinct [OF True dh]
      have "set (remove_at j held @ mp_freeList p @ [held ! j]) = {..<mp_storage p}"
        unfolding elems [symmetric] using rem(2) mem by auto
      moreover have "distinct (remove_at j held @ mp_freeList p @ [held ! j])" using d rem mem by auto
      ultimately show ?thesis using True Q res by (simp add: Pair PoRelease pool_ok_def pool_release_def)
    qed (use ok Pair PoRelease in simp)
  qed
qed

lemma pool_run_ok:
  assumes "pool_ok Q st" and "Q fresh" and "\<And>x. Q (reset_obj x)"
  shows "pool_ok Q (fst (run_ops (pool_step fresh reset_obj) xs st))"
  using assms(1)
proof (induction xs arbitrary: st)
  case (Cons x xs)
  have "pool_ok Q (fst (pool_step fresh reset_obj x st))" by (rule pool_step_ok [OF Cons.prems assms(2)]) (rule assms(3))
  with Cons.IH show ?case by (simp add: split_beta Let_def)
qed simp

section \<open>Properties\<close>

text \<open>C37: Buffers are not shared. After any sequence of acquisitions, uses and releases of buffers, every buffer of the pool is in use or
  free and no buffer is twice in use; the next buffer that is acquired is not in use, is well formed and
  contains no byte of its previous user.\<close>

theorem pool_no_sharing:
  "let (p, held) = fst (run_ops (pool_step (new_buffer 1024) reset) xs (new_pool (new_buffer 1024) n, []));
       (i, p') = pool_acquire (new_buffer 1024) p
   in distinct (held @ mp_freeList p) \<and> set (held @ mp_freeList p) = {..<mp_storage p} \<and>
      i \<notin> set held \<and> buffer_ok (mp_object p' i) \<and> contents (mp_object p' i) = []"
proof -
  define Q where "Q b \<longleftrightarrow> buffer_ok b \<and> contents b = []" for b
  have fresh: "Q (new_buffer 1024)" and res: "\<And>b. Q (reset b)" by (simp_all add: Q_def reset_def)
  have "pool_ok Q (new_pool (new_buffer 1024) n, [])" using fresh by (auto simp: pool_ok_def new_pool_def)
  from pool_run_ok [where reset_obj = reset and xs = xs, OF this fresh] res
  have ok: "pool_ok Q (fst (run_ops (pool_step (new_buffer 1024) reset) xs (new_pool (new_buffer 1024) n, [])))" by blast
  obtain p held where st: "fst (run_ops (pool_step (new_buffer 1024) reset) xs (new_pool (new_buffer 1024) n, [])) = (p, held)"
    by fastforce
  obtain i p' where acq: "pool_acquire (new_buffer 1024) p = (i, p')" by fastforce
  show ?thesis
    using ok pool_acquire_ok(2,3) [OF ok [unfolded st] fresh acq] by (simp add: st acq pool_ok_def Q_def)
qed

end
