(* ===== verification/AIService.thy ===== *)
theory AIService
  imports Accounting
begin

text \<open>
  \<^verbatim>\<open>src/AIService.cpp\<close> and \<^verbatim>\<open>src/TaskCoordinator.cpp\<close>: a queue of prompts and a fixed number of worker threads, each of which takes
  a task, computes the result and hands it to the callback, an element of the type parameter. The steps are
  the sections under the mutex and the computation; an execution is an interleaving of callers and workers.
  The theorems say that every accepted task gets its result once, also across a stop.
\<close>

section \<open>The coordinator\<close>

definition runSubTaskA :: "bytes \<Rightarrow> bytes" where
  "runSubTaskA prompt = lit ''Intent('' @ prompt @ lit '')''"

definition runSubTaskB :: "bytes \<Rightarrow> bytes" where
  "runSubTaskB prompt = lit ''Reasoning('' @ prompt @ lit '')''"

definition execute :: "bytes \<Rightarrow> bytes" where
  "execute prompt = lit ''AI: '' @ runSubTaskA prompt @ lit '' | '' @ runSubTaskB prompt"

section \<open>The service\<close>

type_synonym 'd ai_task = "bytes \<times> 'd option"

datatype 'd ai_worker = AiIdle | AiBusy "'d ai_task" | AiExited

record 'd ai_service =
  ai_running :: bool
  ai_tasks :: "'d ai_task list"
  ai_workers :: "'d ai_worker list"

datatype 'd ai_effect =
    AiDone 'd bytes
  | AiIgnored 'd           \<comment> \<open>\<^verbatim>\<open>inferAsync\<close> after \<^verbatim>\<open>stop\<close>\<close>

type_synonym 'd ai_result = "'d ai_service \<times> 'd ai_effect list"

definition new_ai_service :: "nat \<Rightarrow> 'd ai_service" where
  "new_ai_service workerCount =
     \<lparr>ai_running = True, ai_tasks = [], ai_workers = replicate (if workerCount = 0 then 1 else workerCount) AiIdle\<rparr>"

definition inferAsync :: "bytes \<Rightarrow> 'd option \<Rightarrow> 'd ai_service \<Rightarrow> 'd ai_result" where
  "inferAsync prompt cb s =
     (if \<not> ai_running s then (s, case cb of None \<Rightarrow> [] | Some d \<Rightarrow> [AiIgnored d])
      else (s\<lparr>ai_tasks := ai_tasks s @ [(prompt, cb)]\<rparr>, []))"

text \<open>\<^verbatim>\<open>stop\<close> sets the flag and then joins the workers; the joins return when every worker has left.\<close>

definition ai_stop :: "'d ai_service \<Rightarrow> 'd ai_result" where
  "ai_stop s = (s\<lparr>ai_running := False\<rparr>, [])"

definition ai_joined :: "'d ai_service \<Rightarrow> bool" where
  "ai_joined s \<longleftrightarrow> list_all (\<lambda>w. case w of AiExited \<Rightarrow> True | _ \<Rightarrow> False) (ai_workers s)"

text \<open>A worker at the lock: it takes a task, leaves if there is none and the service stops, or keeps waiting.\<close>

definition workerLoop_take :: "nat \<Rightarrow> 'd ai_service \<Rightarrow> 'd ai_result" where
  "workerLoop_take w s =
     (case ai_workers s ! w of
        AiIdle \<Rightarrow>
          (case ai_tasks s of
             t # ts \<Rightarrow> (s\<lparr>ai_tasks := ts, ai_workers := (ai_workers s)[w := AiBusy t]\<rparr>, [])
           | [] \<Rightarrow> if ai_running s then (s, []) else (s\<lparr>ai_workers := (ai_workers s)[w := AiExited]\<rparr>, []))
      | _ \<Rightarrow> (s, []))"

text \<open>A worker outside the lock: the result goes to the callback, if there is one.\<close>

definition workerLoop_run :: "nat \<Rightarrow> 'd ai_service \<Rightarrow> 'd ai_result" where
  "workerLoop_run w s =
     (case ai_workers s ! w of
        AiBusy (prompt, cb) \<Rightarrow>
          (s\<lparr>ai_workers := (ai_workers s)[w := AiIdle]\<rparr>, case cb of None \<Rightarrow> [] | Some d \<Rightarrow> [AiDone d (execute prompt)])
      | _ \<Rightarrow> (s, []))"

section \<open>Executions\<close>

datatype 'd ai_op =
    AiInfer bytes "'d option"
  | AiTake nat
  | AiRun nat
  | AiStop

fun ai_step :: "'d ai_op \<Rightarrow> 'd ai_service \<Rightarrow> 'd ai_result" where
  "ai_step (AiInfer prompt cb) s = inferAsync prompt cb s"
| "ai_step (AiTake w) s = (if w < length (ai_workers s) then workerLoop_take w s else (s, []))"
| "ai_step (AiRun w) s = (if w < length (ai_workers s) then workerLoop_run w s else (s, []))"
| "ai_step AiStop s = ai_stop s"

text \<open>A callback together with the result it is owed.\<close>

fun owed_result :: "'d ai_task \<Rightarrow> ('d \<times> bytes) multiset" where
  "owed_result (prompt, cb) = (case cb of None \<Rightarrow> {#} | Some d \<Rightarrow> {#(d, execute prompt)#})"

fun busy_with :: "'d ai_worker \<Rightarrow> ('d \<times> bytes) multiset" where
  "busy_with (AiBusy t) = owed_result t"
| "busy_with _ = {#}"

definition ai_owed :: "'d ai_service \<Rightarrow> ('d \<times> bytes) multiset" where
  "ai_owed s = sum_list (map owed_result (ai_tasks s)) + sum_list (map busy_with (ai_workers s))"

fun given :: "'d ai_effect \<Rightarrow> ('d \<times> bytes) multiset" where
  "given (AiDone d result) = {#(d, result)#}"
| "given (AiIgnored d) = {#}"

text \<open>The tasks that the service accepts: those submitted before the first stop.\<close>

fun accepted :: "'d ai_op list \<Rightarrow> ('d \<times> bytes) multiset" where
  "accepted [] = {#}"
| "accepted (AiInfer prompt cb # xs) = owed_result (prompt, cb) + accepted xs"
| "accepted (AiStop # xs) = {#}"
| "accepted (x # xs) = accepted xs"

text \<open>A worker has left only if the service stops and no task is queued.\<close>

definition ai_ok :: "'d ai_service \<Rightarrow> bool" where
  "ai_ok s \<longleftrightarrow> (AiExited \<in> set (ai_workers s) \<longrightarrow> \<not> ai_running s \<and> ai_tasks s = [])"

lemma workers_update:
  assumes "w < length (ai_workers s)"
  shows "sum_list (map busy_with ((ai_workers s)[w := x])) + busy_with (ai_workers s ! w) =
    sum_list (map busy_with (ai_workers s)) + busy_with x"
  by (rule sum_list_update [OF assms])

lemma ai_step_balance:
  assumes "ai_running s \<or> (\<forall>prompt cb. x \<noteq> AiInfer prompt cb)"
  shows "settled given (snd (ai_step x s)) + ai_owed (fst (ai_step x s)) =
    ai_owed s + (case x of AiInfer prompt cb \<Rightarrow> owed_result (prompt, cb) | _ \<Rightarrow> {#})"
proof (cases x)
  case (AiInfer prompt cb)
  then show ?thesis using assms by (simp add: inferAsync_def ai_owed_def ac_simps)
next
  case (AiTake w)
  then show ?thesis
    using workers_update [of w s "AiBusy (hd (ai_tasks s))"] workers_update [of w s AiExited]
    by (auto simp: workerLoop_take_def ai_owed_def ac_simps split: ai_worker.split list.split)
next
  case (AiRun w)
  then show ?thesis
    using workers_update [of w s AiIdle]
    by (auto simp: workerLoop_run_def ai_owed_def ac_simps split: ai_worker.split option.split)
next
  case AiStop
  then show ?thesis by (simp add: ai_stop_def ai_owed_def)
qed

lemma ai_ok_step: "ai_ok s \<Longrightarrow> ai_ok (fst (ai_step x s))"
  by (cases x) (auto simp: ai_ok_def inferAsync_def workerLoop_take_def workerLoop_run_def ai_stop_def
      split: ai_worker.split list.split dest!: set_update_subset_insert [THEN subsetD])

lemma ai_running_step: "ai_running (fst (ai_step x s)) \<longleftrightarrow> ai_running s \<and> x \<noteq> AiStop"
  by (cases x) (auto simp: inferAsync_def workerLoop_take_def workerLoop_run_def ai_stop_def split: ai_worker.split list.split)

lemma ai_stopped_infer: "\<not> ai_running s \<Longrightarrow> settled given (snd (inferAsync prompt cb s)) = {#} \<and> fst (inferAsync prompt cb s) = s"
  by (simp add: inferAsync_def split: option.split)

lemma ai_run:
  "settled given (snd (run_ops ai_step xs s)) + ai_owed (fst (run_ops ai_step xs s)) =
    ai_owed s + (if ai_running s then accepted xs else {#})"
proof (induction xs arbitrary: s)
  case (Cons x xs)
  show ?case
  proof (cases "ai_running s \<or> (\<forall>prompt cb. x \<noteq> AiInfer prompt cb)")
    case True
    show ?thesis
      using ai_step_balance [OF True] Cons.IH [of "fst (ai_step x s)"] ai_running_step [of x s] True
      by (cases x) (simp_all add: split_beta Let_def ac_simps del: ai_step.simps owed_result.simps)
  next
    case False
    then obtain prompt cb where "x = AiInfer prompt cb" "\<not> ai_running s" by blast
    then show ?thesis using Cons.IH [of s] ai_stopped_infer [of s prompt cb] by (simp add: split_beta Let_def)
  qed
qed simp

lemma ai_run_ok: "ai_ok s \<Longrightarrow> ai_ok (fst (run_ops ai_step xs s))"
  by (induction xs arbitrary: s) (simp_all add: split_beta Let_def ai_ok_step del: ai_step.simps)

lemma ai_workers_step: "length (ai_workers (fst (ai_step x s))) = length (ai_workers s)"
  by (cases x) (auto simp: inferAsync_def workerLoop_take_def workerLoop_run_def ai_stop_def split: ai_worker.split list.split)

lemma ai_run_workers: "length (ai_workers (fst (run_ops ai_step xs s))) = length (ai_workers s)"
  by (induction xs arbitrary: s) (simp_all add: split_beta Let_def ai_workers_step del: ai_step.simps)

lemma sum_list_all_empty: "(\<And>x. x \<in> set xs \<Longrightarrow> f x = {#}) \<Longrightarrow> sum_list (map f xs) = {#}"
  by (induction xs) simp_all

lemma ai_joined_drained:
  assumes "ai_ok s" and "ai_workers s \<noteq> []" and "ai_joined s"
  shows "ai_owed s = {#}"
proof -
  have exited: "\<forall>w \<in> set (ai_workers s). w = AiExited"
    using assms(3) unfolding ai_joined_def list_all_iff by (metis ai_worker.exhaust ai_worker.simps(8,9))
  then have "AiExited \<in> set (ai_workers s)" using assms(2) by (cases "ai_workers s") auto
  then have "ai_tasks s = []" using assms(1) by (simp add: ai_ok_def)
  moreover have "sum_list (map busy_with (ai_workers s)) = {#}"
    using exited by (intro sum_list_all_empty) auto
  ultimately show ?thesis by (simp add: ai_owed_def)
qed

lemma new_ai_service_ok:
  "ai_ok (new_ai_service n)" "ai_running (new_ai_service n)" "ai_owed (new_ai_service n) = {#}"
  "ai_workers (new_ai_service n) \<noteq> []"
  by (auto simp: new_ai_service_def ai_ok_def ai_owed_def simp del: map_replicate intro!: sum_list_all_empty)

section \<open>Properties\<close>

text \<open>C35: In every interleaving of callers, workers and stops, no callback of the AI service is called more often
  than its prompt was submitted before the stop, and only with the coordinator's result for that prompt; and
  when \<^verbatim>\<open>stop\<close> has joined the workers, every task accepted before it has had its callback, once.
\<close>

theorem ai_answers_once:
  fixes xs :: "'d ai_op list" and workerCount :: nat
  defines "run \<equiv> \<lambda>n. run_ops ai_step xs (new_ai_service n)"
  shows "settled given (snd (run workerCount)) \<subseteq># accepted xs \<and>
    (ai_joined (fst (run workerCount)) \<longrightarrow> settled given (snd (run workerCount)) = accepted xs)"
proof -
  have all: "settled given (snd (run workerCount)) + ai_owed (fst (run workerCount)) = accepted xs"
    using ai_run [of xs "new_ai_service workerCount"] by (simp add: run_def new_ai_service_ok)
  have some: "ai_workers (fst (run workerCount)) \<noteq> []"
    using ai_run_workers [of xs "new_ai_service workerCount"] new_ai_service_ok(4) [of workerCount]
    by (auto simp: run_def)
  have "ai_joined (fst (run workerCount)) \<longrightarrow> ai_owed (fst (run workerCount)) = {#}"
    using ai_joined_drained [OF ai_run_ok [OF new_ai_service_ok(1)] some [unfolded run_def]] by (simp add: run_def)
  moreover have "settled given (snd (run workerCount)) \<subseteq># accepted xs"
    using all by (metis mset_subset_eq_add_left)
  ultimately show ?thesis using all by auto
qed

text \<open>Two prompts, the second taken after the stop, and a third that comes too late.\<close>

definition ai_example :: "nat ai_op list" where
  "ai_example = [AiInfer (lit ''p'') (Some 1), AiTake 0, AiInfer (lit ''q'') (Some 2), AiStop, AiInfer (lit ''r'') (Some 3),
     AiRun 0, AiTake 0, AiRun 0, AiTake 0]"

theorem ai_answers_once_witness:
  "settled given (snd (run_ops ai_step ai_example (new_ai_service 0))) =
     {#(1, lit ''AI: Intent(p) | Reasoning(p)''), (2, lit ''AI: Intent(q) | Reasoning(q)'')#}"
proof -
  have "ai_joined (fst (run_ops ai_step ai_example (new_ai_service 0)))" by code_simp
  moreover have "accepted ai_example =
      {#(1, lit ''AI: Intent(p) | Reasoning(p)''), (2, lit ''AI: Intent(q) | Reasoning(q)'')#}"
    by (simp add: ai_example_def execute_def runSubTaskA_def runSubTaskB_def lit_def)
  ultimately show ?thesis using ai_answers_once [of ai_example 0] by simp
qed

text \<open>A prompt submitted after the stop is ignored: its callback is never called.\<close>

lemma infer_after_stop:
  assumes "\<not> ai_running s"
  shows "inferAsync prompt (Some d) s = (s, [AiIgnored d])"
  using assms by (simp add: inferAsync_def)

end
