(* ===== verification/Acceptor.thy ===== *)
theory Acceptor
  imports TcpConnection "HOL-Library.Multiset"
begin

text \<open>
  \<^verbatim>\<open>src/Acceptor.cpp\<close> (the Linux branch of \<^verbatim>\<open>handleRead\<close> and the one for other platforms): the listening socket. The results of the system calls are arguments;
  what the acceptor does to descriptors and to its callback is a list of effects. The property is that every
  accepted descriptor has exactly one owner afterwards.
\<close>

record acceptor =
  ac_listenFd :: int
  ac_channel :: channel
  ac_hasCallback :: bool
  ac_listening :: bool

datatype acceptor_error = CreateSocketFailed | InvalidIp | BindFailed | ListenFailed

datatype acceptor_effect =
    AcNewConnection int     \<comment> \<open>the callback gets the descriptor\<close>
  | AcCloseFd int
  | AcErrorLogged

text \<open>The constructor, with the results of \<^verbatim>\<open>socket\<close>, \<^verbatim>\<open>inet_pton\<close> and \<^verbatim>\<open>bind\<close>: on an error the socket is closed.\<close>

definition new_acceptor :: "int \<Rightarrow> int \<Rightarrow> int \<Rightarrow> (acceptor_error + acceptor) \<times> acceptor_effect list" where
  "new_acceptor sock pton bound =
     (if sock < 0 then (Inl CreateSocketFailed, [])
      else if pton \<le> 0 then (Inl InvalidIp, [AcCloseFd sock])
      else if bound < 0 then (Inl BindFailed, [AcCloseFd sock])
      else (Inr \<lparr>ac_listenFd = sock, ac_channel = setCallback ErrorCallback (setCallback ReadCallback (new_channel sock)),
                 ac_hasCallback = False, ac_listening = False\<rparr>, []))"

definition destroy_acceptor :: "acceptor \<Rightarrow> acceptor \<times> acceptor_effect list" where
  "destroy_acceptor a =
     (a\<lparr>ac_channel := disableAll (ac_channel a), ac_listenFd := -1\<rparr>,
      if ac_listenFd a \<ge> 0 then [AcCloseFd (ac_listenFd a)] else [])"

definition setNewConnectionCallback :: "bool \<Rightarrow> acceptor \<Rightarrow> acceptor" where
  "setNewConnectionCallback cb a = a\<lparr>ac_hasCallback := cb\<rparr>"

definition acceptor_listen :: "int \<Rightarrow> acceptor \<Rightarrow> acceptor_error + acceptor" where
  "acceptor_listen result a =
     (if ac_listening a then Inr a
      else if result < 0 then Inl ListenFailed
      else Inr (a\<lparr>ac_listening := True, ac_channel := enableReading (ac_channel a)\<rparr>))"

definition acceptor_stop :: "acceptor \<Rightarrow> acceptor" where
  "acceptor_stop a =
     (if \<not> ac_listening a then a else a\<lparr>ac_listening := False, ac_channel := disableAll (ac_channel a)\<rparr>)"

text \<open>\<^verbatim>\<open>accept\<close>: a descriptor or an error.\<close>

datatype accept_result = Accepted int | AcceptFailed errno

text \<open>The loop of \<^verbatim>\<open>handleRead\<close>: its effects and the results of \<^verbatim>\<open>accept\<close> it has not asked for.\<close>

fun accept_loop :: "accept_result list \<Rightarrow> acceptor \<Rightarrow> acceptor_effect list \<times> accept_result list" where
  "accept_loop [] a = ([], [])"
| "accept_loop (Accepted connfd # rs) a =
     (let (effs, rest) = accept_loop rs a
      in ((if ac_hasCallback a then AcNewConnection connfd else AcCloseFd connfd) # effs, rest))"
| "accept_loop (AcceptFailed EINTR # rs) a = accept_loop rs a"
| "accept_loop (AcceptFailed EAGAIN # rs) a = ([], rs)"
| "accept_loop (AcceptFailed EOTHER # rs) a = ([AcErrorLogged], rs)"

definition acceptor_handleRead :: "accept_result list \<Rightarrow> acceptor \<Rightarrow> acceptor_effect list" where
  "acceptor_handleRead rs a = fst (accept_loop rs a)"

text \<open>On other platforms one \<^verbatim>\<open>accept\<close> per event.\<close>

definition accept_once :: "accept_result \<Rightarrow> acceptor \<Rightarrow> acceptor_effect list" where
  "accept_once r a =
     (case r of
        Accepted connfd \<Rightarrow> [if ac_hasCallback a then AcNewConnection connfd else AcCloseFd connfd]
      | AcceptFailed err \<Rightarrow> if err \<noteq> EAGAIN then [AcErrorLogged] else [])"

lemma accept_once_eq: "r \<noteq> AcceptFailed EINTR \<Longrightarrow> accept_once r a = acceptor_handleRead [r] a"
proof (cases r)
  case (AcceptFailed err)
  then show "r \<noteq> AcceptFailed EINTR \<Longrightarrow> ?thesis" by (cases err) (simp_all add: accept_once_def acceptor_handleRead_def)
qed (simp add: accept_once_def acceptor_handleRead_def)

text \<open>The descriptors the loop took, and those it gave away.\<close>

fun accepted_fd :: "accept_result \<Rightarrow> int multiset" where
  "accepted_fd (Accepted connfd) = {#connfd#}"
| "accepted_fd _ = {#}"

fun released_fd :: "acceptor_effect \<Rightarrow> int multiset" where
  "released_fd (AcNewConnection connfd) = {#connfd#}"
| "released_fd (AcCloseFd fd) = {#fd#}"
| "released_fd AcErrorLogged = {#}"

lemma accept_loop_owners:
  "sum_list (map released_fd (fst (accept_loop rs a))) + sum_list (map accepted_fd (snd (accept_loop rs a))) =
     sum_list (map accepted_fd rs)"
  by (induction rs a rule: accept_loop.induct) (simp_all add: split_beta)

text \<open>A server listens again after a stop.\<close>

lemma listen_after_stop:
  "\<exists>a'. acceptor_listen 0 (acceptor_stop a) = Inr a' \<and> ac_listening a' \<and> isReading (ac_channel a')"
  by (auto simp: acceptor_listen_def acceptor_stop_def isReading_def enableReading_def POLLIN_def)

end
