(* ===== verification/ThreadPool.thy ===== *)
theory ThreadPool
  imports RpcPrelude "HOL-Library.Multiset"
begin

text \<open>
  \<^verbatim>\<open>src/ThreadPool.cpp\<close>: the pool of event loops among which a server distributes its connections. A loop is an
  element of the type parameter; a null pointer is \<open>None\<close>. \<^verbatim>\<open>start\<close> is its first part, one \<open>threadFunc\<close> per thread and
  the condition under which its waiting loop ends. The main lemma is that consecutive calls of
  \<^verbatim>\<open>getNextLoop\<close> go round the loops.
\<close>

record 'l thread_pool =
  tp_baseLoop :: 'l
  tp_numThreads :: nat
  tp_started :: bool
  tp_next :: u64
  tp_readyCount :: nat
  tp_threads :: nat
  tp_loops :: "'l option list"

datatype pool_error = NumThreadsNegative | BaseLoopNull

definition new_thread_pool :: "'l option \<Rightarrow> int \<Rightarrow> pool_error + 'l thread_pool" where
  "new_thread_pool baseLoop numThreads =
     (if numThreads < 0 then Inl NumThreadsNegative
      else case baseLoop of None \<Rightarrow> Inl BaseLoopNull
        | Some l \<Rightarrow> Inr \<lparr>tp_baseLoop = l, tp_numThreads = nat numThreads, tp_started = False, tp_next = 0,
                         tp_readyCount = 0, tp_threads = 0, tp_loops = []\<rparr>)"

definition pool_start :: "'l thread_pool \<Rightarrow> 'l thread_pool" where
  "pool_start p =
     (if tp_started p then p
      else if tp_numThreads p = 0 then p\<lparr>tp_started := True\<rparr>
      else p\<lparr>tp_started := True, tp_loops := replicate (tp_numThreads p) None, tp_threads := tp_threads p + tp_numThreads p\<rparr>)"

definition threadFunc :: "nat \<Rightarrow> 'l \<Rightarrow> 'l thread_pool \<Rightarrow> 'l thread_pool" where
  "threadFunc index l p = p\<lparr>tp_loops := (tp_loops p)[index := Some l], tp_readyCount := tp_readyCount p + 1\<rparr>"

definition start_returns :: "'l thread_pool \<Rightarrow> bool" where
  "start_returns p \<longleftrightarrow> \<not> tp_readyCount p < tp_numThreads p"

text \<open>The loops that \<^verbatim>\<open>stop\<close> tells to quit, and the pool once the threads are joined.\<close>

definition pool_quit_loops :: "'l thread_pool \<Rightarrow> 'l list" where
  "pool_quit_loops p = (if tp_started p then concat (map (\<lambda>l. case l of None \<Rightarrow> [] | Some x \<Rightarrow> [x]) (tp_loops p)) else [])"

definition pool_stop :: "'l thread_pool \<Rightarrow> 'l thread_pool" where
  "pool_stop p =
     (if \<not> tp_started p then p
      else p\<lparr>tp_started := False, tp_loops := [], tp_threads := 0, tp_next := 0, tp_readyCount := 0\<rparr>)"

definition getNextLoop :: "'l thread_pool \<Rightarrow> 'l option \<times> 'l thread_pool" where
  "getNextLoop p =
     (if tp_numThreads p = 0 then (Some (tp_baseLoop p), p)
      else if tp_loops p = [] then (Some (tp_baseLoop p), p)
      else (tp_loops p ! (unat (tp_next p) mod length (tp_loops p)), p\<lparr>tp_next := tp_next p + 1\<rparr>))"

text \<open>\<^verbatim>\<open>submit\<close>: the functor for the base loop, unless the task is empty.\<close>

definition submit :: "'t option \<Rightarrow> 't list" where
  "submit task = (case task of None \<Rightarrow> [] | Some t \<Rightarrow> [t])"

definition pendingTaskSize :: "('l \<Rightarrow> nat) \<Rightarrow> 'l thread_pool \<Rightarrow> nat" where
  "pendingTaskSize pendingSize p = pendingSize (tp_baseLoop p)"

text \<open>All threads of a starting pool, in any order \<open>is\<close>, with the loop that each makes.\<close>

definition run_threads :: "(nat \<Rightarrow> 'l) \<Rightarrow> nat list \<Rightarrow> 'l thread_pool \<Rightarrow> 'l thread_pool" where
  "run_threads made is p = fold (\<lambda>i. threadFunc i (made i)) is p"

lemma run_threads_simps:
  "tp_readyCount (run_threads made is p) = tp_readyCount p + length is"
  "tp_numThreads (run_threads made is p) = tp_numThreads p" "tp_started (run_threads made is p) = tp_started p"
  "tp_next (run_threads made is p) = tp_next p" "tp_baseLoop (run_threads made is p) = tp_baseLoop p"
  "length (tp_loops (run_threads made is p)) = length (tp_loops p)"
  by (induction "is" arbitrary: p) (simp_all add: run_threads_def threadFunc_def)

lemma run_threads_loops:
  "distinct is \<Longrightarrow> i < length (tp_loops p) \<Longrightarrow>
    tp_loops (run_threads made is p) ! i = (if i \<in> set is then Some (made i) else tp_loops p ! i)"
  by (induction "is" arbitrary: p) (auto simp: run_threads_def threadFunc_def nth_list_update)

lemma pool_started:
  assumes "\<not> tp_started p" and "distinct is" and "set is = {..<tp_numThreads p}" and "tp_numThreads p > 0" and "tp_readyCount p = 0"
  shows "tp_loops (run_threads made is (pool_start p)) = map (\<lambda>i. Some (made i)) [0..<tp_numThreads p]"
    and "start_returns (run_threads made is (pool_start p))"
proof -
  have len: "length is = tp_numThreads p" using assms(2,3) distinct_card by fastforce
  have start: "tp_loops (pool_start p) = replicate (tp_numThreads p) None" "tp_numThreads (pool_start p) = tp_numThreads p"
      "tp_readyCount (pool_start p) = 0"
    using assms by (simp_all add: pool_start_def)
  show "tp_loops (run_threads made is (pool_start p)) = map (\<lambda>i. Some (made i)) [0..<tp_numThreads p]"
  proof (rule nth_equalityI)
    fix i assume "i < length (tp_loops (run_threads made is (pool_start p)))"
    then have i: "i < tp_numThreads p" by (simp add: run_threads_simps start)
    then have "i \<in> set is" unfolding assms(3) by simp
    then show "tp_loops (run_threads made is (pool_start p)) ! i = map (\<lambda>i. Some (made i)) [0..<tp_numThreads p] ! i"
      using run_threads_loops [OF assms(2), of i "pool_start p" made] i by (simp add: start)
  qed (simp add: run_threads_simps start)
  show "start_returns (run_threads made is (pool_start p))" by (simp add: start_returns_def run_threads_simps start len)
qed

text \<open>Consecutive calls of \<^verbatim>\<open>getNextLoop\<close>.\<close>

fun next_loops :: "nat \<Rightarrow> 'l thread_pool \<Rightarrow> 'l option list" where
  "next_loops 0 p = []"
| "next_loops (Suc k) p = (let (l, p') = getNextLoop p in l # next_loops k p')"

lemma next_loops_nth:
  assumes "tp_numThreads p > 0" and "tp_loops p \<noteq> []" and "unat (tp_next p) + k \<le> 2 ^ 64"
  shows "next_loops k p = map (\<lambda>j. tp_loops p ! ((unat (tp_next p) + j) mod length (tp_loops p))) [0..<k]"
  using assms
proof (induction k arbitrary: p)
  case (Suc k)
  let ?p = "p\<lparr>tp_next := tp_next p + 1\<rparr>"
  have eq: "next_loops (Suc k) p = tp_loops p ! (unat (tp_next p) mod length (tp_loops p)) # next_loops k ?p"
    using Suc.prems by (simp add: getNextLoop_def)
  show ?case
  proof (cases "k = 0")
    case False
    then have "unat (tp_next ?p) = Suc (unat (tp_next p))"
      using Suc.prems(3) by (simp add: unat_word_ariths)
    then show ?thesis using Suc.IH [of ?p] Suc.prems unfolding eq map_upt_Suc by simp
  next
    case True
    then show ?thesis using eq by simp
  qed
qed simp

lemma mset_rotate: "mset (rotate m xs) = mset xs"
  by (metis append_take_drop_id mset_append rotate_drop_take union_commute)

lemma next_loops_rotate:
  assumes "tp_numThreads p > 0" and "tp_loops p \<noteq> []" and "unat (tp_next p) + length (tp_loops p) \<le> 2 ^ 64"
  shows "next_loops (length (tp_loops p)) p = rotate (unat (tp_next p)) (tp_loops p)"
  unfolding next_loops_nth [OF assms] by (rule nth_equalityI) (simp_all add: nth_rotate add.commute)

section \<open>Properties\<close>

text \<open>Once the threads of the pool have come up, in whatever order, \<^verbatim>\<open>start\<close> returns; and from then on any \<open>n\<close>
  consecutive calls of \<^verbatim>\<open>getNextLoop\<close>, for \<open>n\<close> threads and before the counter wraps around, give each of the loops
  exactly once.
\<close>

theorem pool_round_robin:
  assumes "new_thread_pool (Some base) n = Inr p" and "n > 0"
    and "distinct is" and "set is = {..<nat n}" and "unat c + nat n \<le> 2 ^ 64"
  shows "start_returns (run_threads made is (pool_start p)) \<and>
    mset (next_loops (nat n) ((run_threads made is (pool_start p))\<lparr>tp_next := c\<rparr>)) = mset (map (Some \<circ> made) [0..<nat n])"
proof -
  have p: "\<not> tp_started p" "tp_numThreads p = nat n" "tp_readyCount p = 0"
    using assms(1,2) by (auto simp: new_thread_pool_def)
  note started = pool_started [where made = made, OF p(1) assms(3), unfolded p(2,3), OF assms(4) _ refl]
  let ?s = "(run_threads made is (pool_start p))\<lparr>tp_next := c\<rparr>"
  have loops: "tp_loops ?s = map (Some \<circ> made) [0..<nat n]" using started(1) assms(2) by (simp add: comp_def)
  have "tp_numThreads ?s > 0" using assms(2) p by (simp add: run_threads_simps pool_start_def)
  then have "next_loops (nat n) ?s = rotate (unat c) (map (Some \<circ> made) [0..<nat n])"
    using next_loops_rotate [of ?s] loops assms(2,5) by simp
  then show ?thesis using started(2) assms(2) by (simp add: mset_rotate del: mset_map)
qed

theorem pool_round_robin_witness:
  "mset (next_loops 3 ((run_threads (\<lambda>i. i) [2, 0, 1] (pool_start (projr (new_thread_pool (Some 9) 3))))\<lparr>tp_next := 5\<rparr>)) =
     {#Some 0, Some 1, Some (2 :: nat)#}"
proof -
  let ?p = "projr (new_thread_pool (Some (9 :: nat)) 3)"
  have p: "new_thread_pool (Some (9 :: nat)) 3 = Inr ?p" by (simp add: new_thread_pool_def)
  have "set [2, 0, 1] = {..<nat 3}" by (auto simp: numeral_3_eq_3)
  then show ?thesis
    using pool_round_robin [OF p, of "[2, 0, 1]" 5 "\<lambda>i. i"] by (simp add: upt_conv_Cons add_mset_commute)
qed

end
