(* ===== verification/TcpServer.thy ===== *)
theory TcpServer
  imports Acceptor ThreadPool Accounting "HOL-Library.Monad_Syntax"
begin

text \<open>
  \<^verbatim>\<open>src/TcpServer.cpp\<close> with the connections, loops and callbacks it ties together. The event loops are numbered,
  0 is the base loop; every loop has its queue of functors. A connection object is its position in \<open>ts_objects\<close>
  and keeps its state after the server has dropped it from \<^verbatim>\<open>connections_\<close>, whose entries are listed in iteration
  order. \<^verbatim>\<open>runInLoop\<close> runs its functor at once on the thread of that loop and queues it otherwise. What the source must
  not do, to queue on a destroyed loop, to use an erased iterator or a null loop, gives \<open>None\<close>.
  An execution is an interleaving of the threads, each step a functor or an event of one loop.
\<close>

section \<open>State\<close>

datatype srv_task =
    Establish nat           \<comment> \<open>\<^verbatim>\<open>connectEstablished\<close> of the connection\<close>
  | ForceClose nat          \<comment> \<open>\<^verbatim>\<open>forceCloseInLoop\<close>\<close>
  | RemoveConn nat          \<comment> \<open>\<^verbatim>\<open>removeConnectionInLoop\<close>\<close>
  | Destroy nat             \<comment> \<open>\<^verbatim>\<open>connectDestroyed\<close>\<close>
  | StopTask                \<comment> \<open>\<^verbatim>\<open>stopInLoop\<close> for a caller on another thread\<close>
  | StopAccept
  | Quit

text \<open>Where a call of \<^verbatim>\<open>stop\<close> stands: before the pool, or in the joins, possibly on the thread of the base loop.\<close>

datatype stop_phase = NoStop | PoolNext | Joining bool

record srv_conn =
  sc_name :: bytes
  sc_loop :: nat
  sc_conn :: tcp_conn

record tcp_server =
  ts_acceptor :: acceptor
  ts_threadPool :: "nat thread_pool"
  ts_connections :: "(bytes \<times> nat) list"
  ts_started :: bool
  ts_nextConnId :: u64
  ts_hasConnectionCb :: bool
  ts_hasMessageCb :: bool
  ts_idleCheckTimerId :: u64
  ts_stopping :: bool
  ts_highWaterMark :: nat
  ts_slowConsumerTimeout :: int
  ts_activeConnections :: nat         \<comment> \<open>the gauge in \<^verbatim>\<open>Metrics\<close>\<close>
  ts_objects :: "srv_conn list"
  ts_queues :: "nat \<Rightarrow> srv_task list"
  ts_exited :: "nat list"             \<comment> \<open>loops that have run \<^verbatim>\<open>quit\<close>\<close>
  ts_destroyed :: "nat list"
  ts_freshLoop :: nat
  ts_stopPhase :: stop_phase

definition idleTimeout :: int where
  "idleTimeout = 30"

definition new_tcp_server :: "acceptor \<Rightarrow> nat thread_pool \<Rightarrow> tcp_server" where
  "new_tcp_server a pool =
     \<lparr>ts_acceptor = setNewConnectionCallback True a, ts_threadPool = pool, ts_connections = [], ts_started = False, ts_nextConnId = 1,
      ts_hasConnectionCb = False, ts_hasMessageCb = False, ts_idleCheckTimerId = 0, ts_stopping = False,
      ts_highWaterMark = 4 * 1024 * 1024, ts_slowConsumerTimeout = 5000, ts_activeConnections = 0, ts_objects = [],
      ts_queues = (\<lambda>_. []), ts_exited = [], ts_destroyed = [], ts_freshLoop = 1, ts_stopPhase = NoStop\<rparr>"

definition ts_setWriteHighWaterMark :: "nat \<Rightarrow> tcp_server \<Rightarrow> tcp_server" where
  "ts_setWriteHighWaterMark n s = s\<lparr>ts_highWaterMark := n\<rparr>"

definition ts_setSlowConsumerTimeout :: "int \<Rightarrow> tcp_server \<Rightarrow> tcp_server" where
  "ts_setSlowConsumerTimeout t s = s\<lparr>ts_slowConsumerTimeout := t\<rparr>"

definition ts_setConnectionCallback :: "bool \<Rightarrow> tcp_server \<Rightarrow> tcp_server" where
  "ts_setConnectionCallback cb s = s\<lparr>ts_hasConnectionCb := cb\<rparr>"

definition ts_setMessageCallback :: "bool \<Rightarrow> tcp_server \<Rightarrow> tcp_server" where
  "ts_setMessageCallback cb s = s\<lparr>ts_hasMessageCb := cb\<rparr>"

section \<open>Functors\<close>

definition queue_task :: "nat \<Rightarrow> srv_task \<Rightarrow> tcp_server \<Rightarrow> tcp_server option" where
  "queue_task l t s =
     (if l \<in> set (ts_destroyed s) then None
      else Some (s\<lparr>ts_queues := (ts_queues s)(l := ts_queues s l @ [t])\<rparr>))"

definition erase_conn :: "bytes \<Rightarrow> tcp_server \<Rightarrow> tcp_server" where
  "erase_conn name s =
     (let cs = filter (\<lambda>(k, _). k \<noteq> name) (ts_connections s)
      in s\<lparr>ts_connections := cs, ts_activeConnections := length cs\<rparr>)"

definition removeConnectionInLoop :: "nat \<Rightarrow> tcp_server \<Rightarrow> tcp_server option" where
  "removeConnectionInLoop ob s =
     (let conn = ts_objects s ! ob in queue_task (sc_loop conn) (Destroy ob) (erase_conn (sc_name conn) s))"

definition removeConnection :: "nat \<Rightarrow> nat \<Rightarrow> tcp_server \<Rightarrow> tcp_server option" where
  "removeConnection thread ob s =
     (if ts_stopping s then Some s
      else if thread = 0 then removeConnectionInLoop ob s
      else queue_task 0 (RemoveConn ob) s)"

text \<open>What the effects of a method of the connection mean to the server: the close callback is \<^verbatim>\<open>removeConnection\<close>.\<close>

fun conn_effect :: "nat \<Rightarrow> nat \<Rightarrow> tcp_effect \<Rightarrow> tcp_server \<Rightarrow> tcp_server option" where
  "conn_effect thread ob TcpClose s = removeConnection thread ob s"
| "conn_effect thread ob TcpQueueForceClose s = queue_task (sc_loop (ts_objects s ! ob)) (ForceClose ob) s"
| "conn_effect thread ob _ s = Some s"

fun conn_effects :: "nat \<Rightarrow> nat \<Rightarrow> tcp_effect list \<Rightarrow> tcp_server \<Rightarrow> tcp_server option" where
  "conn_effects thread ob [] s = Some s"
| "conn_effects thread ob (e # es) s = Option.bind (conn_effect thread ob e s) (conn_effects thread ob es)"

definition on_conn :: "nat \<Rightarrow> nat \<Rightarrow> (tcp_conn \<Rightarrow> tcp_result) \<Rightarrow> tcp_server \<Rightarrow> tcp_server option" where
  "on_conn thread ob f s =
     (let conn = ts_objects s ! ob; (c, effs) = f (sc_conn conn)
      in conn_effects thread ob effs (s\<lparr>ts_objects := (ts_objects s)[ob := conn\<lparr>sc_conn := c\<rparr>]\<rparr>))"

definition force_close :: "nat \<Rightarrow> nat \<Rightarrow> tcp_server \<Rightarrow> tcp_server option" where
  "force_close thread ob s = on_conn thread ob (forceClose (thread = sc_loop (ts_objects s ! ob))) s"

section \<open>The server\<close>

definition newConnection :: "int \<Rightarrow> time \<Rightarrow> time \<Rightarrow> tcp_server \<Rightarrow> tcp_server option" where
  "newConnection sockfd now1 now2 s =
     (case getNextLoop (ts_threadPool s) of
        (None, _) \<Rightarrow> None
      | (Some ioLoop, pool) \<Rightarrow>
          let connName = lit ''conn-'' @ dec_string (unat (ts_nextConnId s));
              conn = (new_tcp_conn sockfd now1)\<lparr>tc_highWaterMark := ts_highWaterMark s,
                tc_slowConsumerTimeout := ts_slowConsumerTimeout s, tc_hasConnectionCb := True, tc_hasMessageCb := True,
                tc_hasCloseCb := True\<rparr>;
              ob = length (ts_objects s);
              cs = filter (\<lambda>(k, _). k \<noteq> connName) (ts_connections s) @ [(connName, ob)];
              s1 = s\<lparr>ts_threadPool := pool, ts_nextConnId := ts_nextConnId s + 1,
                ts_objects := ts_objects s @ [\<lparr>sc_name = connName, sc_loop = ioLoop, sc_conn = conn\<rparr>],
                ts_connections := cs, ts_activeConnections := length cs\<rparr>
          in if ioLoop = 0 then on_conn 0 ob (connectEstablished now2) s1 else queue_task ioLoop (Establish ob) s1)"

text \<open>The loop over the entries; the iterator must still point into the map when its entry is erased.\<close>

fun check_idle :: "(nat \<Rightarrow> time) \<Rightarrow> (bytes \<times> nat) list \<Rightarrow> tcp_server \<Rightarrow> tcp_server option" where
  "check_idle clock [] s = Some s"
| "check_idle clock ((name, ob) # rest) s =
     (if isIdleFor (clock ob) idleTimeout (sc_conn (ts_objects s ! ob))
      then do {
        s1 \<leftarrow> force_close 0 ob s;
        if name \<in> fst ` set (ts_connections s1) then check_idle clock rest (erase_conn name s1) else None
      }
      else check_idle clock rest s)"

definition checkIdleConnections :: "(nat \<Rightarrow> time) \<Rightarrow> tcp_server \<Rightarrow> tcp_server option" where
  "checkIdleConnections clock s = check_idle clock (ts_connections s) s"

fun close_all :: "(bytes \<times> nat) list \<Rightarrow> tcp_server \<Rightarrow> tcp_server option" where
  "close_all [] s = Some s"
| "close_all ((name, ob) # rest) s = Option.bind (force_close 0 ob s) (close_all rest)"

definition stopInLoop :: "tcp_server \<Rightarrow> tcp_server option" where
  "stopInLoop s =
     do {
       s1 \<leftarrow> close_all (ts_connections s)
         (s\<lparr>ts_stopping := True, ts_idleCheckTimerId := 0, ts_acceptor := acceptor_stop (ts_acceptor s)\<rparr>);
       Some (s1\<lparr>ts_connections := []\<rparr>)
     }"

text \<open>\<^verbatim>\<open>start\<close>, with the result of \<^verbatim>\<open>listen\<close> and the id of the timer; the pool makes its loops.\<close>

definition start_pool :: "tcp_server \<Rightarrow> tcp_server" where
  "start_pool s =
     (if tp_started (ts_threadPool s) then s
      else let n = tp_numThreads (ts_threadPool s)
           in s\<lparr>ts_threadPool := run_threads (\<lambda>i. ts_freshLoop s + i) [0..<n] (pool_start (ts_threadPool s)),
                ts_freshLoop := ts_freshLoop s + n\<rparr>)"

definition tcp_start :: "int \<Rightarrow> u64 \<Rightarrow> tcp_server \<Rightarrow> acceptor_error option \<times> tcp_server" where
  "tcp_start listened timerId s =
     (if ts_started s then (None, s)
      else let s1 = start_pool (s\<lparr>ts_started := True\<rparr>)
           in case acceptor_listen listened (ts_acceptor s1) of
                Inl e \<Rightarrow> (Some e, s1)
              | Inr a \<Rightarrow> (None, s1\<lparr>ts_acceptor := a, ts_idleCheckTimerId := timerId\<rparr>))"

text \<open>\<^verbatim>\<open>threadPool_->stop()\<close>: the loops are told to quit; the joins return when all have left.\<close>

definition quit_loops :: "tcp_server \<Rightarrow> tcp_server" where
  "quit_loops s =
     s\<lparr>ts_queues := (\<lambda>l. if l \<in> set (pool_quit_loops (ts_threadPool s)) then ts_queues s l @ [Quit] else ts_queues s l)\<rparr>"

definition join_pool :: "tcp_server \<Rightarrow> tcp_server" where
  "join_pool s =
     (let loops = pool_quit_loops (ts_threadPool s)
      in if list_all (\<lambda>l. l \<in> set (ts_exited s)) loops
         then s\<lparr>ts_threadPool := pool_stop (ts_threadPool s), ts_destroyed := ts_destroyed s @ loops, ts_stopPhase := NoStop\<rparr>
         else s)"

text \<open>\<^verbatim>\<open>stop\<close> on the thread of the base loop, and its first part on another thread.\<close>

definition stop_on_base :: "tcp_server \<Rightarrow> tcp_server option" where
  "stop_on_base s =
     (if \<not> ts_started s then Some s
      else do {
        s1 \<leftarrow> stopInLoop (s\<lparr>ts_started := False\<rparr>);
        Some (quit_loops (s1\<lparr>ts_stopPhase := Joining True\<rparr>))
      })"

definition stop_elsewhere :: "tcp_server \<Rightarrow> tcp_server option" where
  "stop_elsewhere s = (if \<not> ts_started s then Some s else queue_task 0 StopTask (s\<lparr>ts_started := False\<rparr>))"

definition stopAccepting :: "bool \<Rightarrow> tcp_server \<Rightarrow> tcp_server option" where
  "stopAccepting onBase s =
     (if onBase then Some (s\<lparr>ts_acceptor := acceptor_stop (ts_acceptor s)\<rparr>) else queue_task 0 StopAccept s)"

section \<open>Executions\<close>

fun run_task :: "nat \<Rightarrow> time \<Rightarrow> srv_task \<Rightarrow> tcp_server \<Rightarrow> tcp_server option" where
  "run_task l now (Establish ob) s = on_conn l ob (connectEstablished now) s"
| "run_task l now (ForceClose ob) s = on_conn l ob forceCloseInLoop s"
| "run_task l now (RemoveConn ob) s = removeConnectionInLoop ob s"
| "run_task l now (Destroy ob) s = on_conn l ob connectDestroyed s"
| "run_task l now StopTask s = map_option (\<lambda>s. s\<lparr>ts_stopPhase := PoolNext\<rparr>) (stopInLoop s)"
| "run_task l now StopAccept s = Some (s\<lparr>ts_acceptor := acceptor_stop (ts_acceptor s)\<rparr>)"
| "run_task l now Quit s = Some (s\<lparr>ts_exited := l # ts_exited s\<rparr>)"

definition can_run :: "nat \<Rightarrow> tcp_server \<Rightarrow> bool" where
  "can_run l s \<longleftrightarrow> l \<notin> set (ts_exited s) \<and> \<not> (l = 0 \<and> ts_stopPhase s = Joining True)"

datatype srv_op =
    SrvStart int u64
  | SrvAccept int time time          \<comment> \<open>the acceptor's callback\<close>
  | SrvIdle "nat \<Rightarrow> time"            \<comment> \<open>the timer, with the clock readings\<close>
  | SrvRun nat time                  \<comment> \<open>a loop runs its next functor\<close>
  | SrvClose nat                     \<comment> \<open>\<^verbatim>\<open>handleClose\<close> of a connection: the peer has closed, or it reads too slowly\<close>
  | SrvShutdown nat
  | SrvStop bool                     \<comment> \<open>\<^verbatim>\<open>stop\<close>, on the thread of the base loop or elsewhere\<close>
  | SrvQuit
  | SrvJoin
  | SrvStopAccepting bool

definition conn_runs :: "nat \<Rightarrow> tcp_server \<Rightarrow> bool" where
  "conn_runs ob s \<longleftrightarrow> ob < length (ts_objects s) \<and> can_run (sc_loop (ts_objects s ! ob)) s"

fun srv_step :: "srv_op \<Rightarrow> tcp_server \<Rightarrow> tcp_server option" where
  "srv_step (SrvStart listened timerId) s = Some (snd (tcp_start listened timerId s))"
| "srv_step (SrvAccept fd now1 now2) s =
     (if can_run 0 s \<and> ac_listening (ts_acceptor s) then newConnection fd now1 now2 s else Some s)"
| "srv_step (SrvIdle clock) s =
     (if can_run 0 s \<and> ts_idleCheckTimerId s \<noteq> 0 then checkIdleConnections clock s else Some s)"
| "srv_step (SrvRun l now) s =
     (if can_run l s
      then case ts_queues s l of [] \<Rightarrow> Some s
        | t # ts \<Rightarrow> run_task l now t (s\<lparr>ts_queues := (ts_queues s)(l := ts)\<rparr>)
      else Some s)"
| "srv_step (SrvClose ob) s =
     (if conn_runs ob s \<and> tc_state (sc_conn (ts_objects s ! ob)) \<noteq> TcpConnecting
      then on_conn (sc_loop (ts_objects s ! ob)) ob tcp_handleClose s else Some s)"
| "srv_step (SrvShutdown ob) s =
     (if conn_runs ob s then on_conn (sc_loop (ts_objects s ! ob)) ob (tcp_shutdown True) s else Some s)"
| "srv_step (SrvStop onBase) s =
     (if onBase then (if can_run 0 s then stop_on_base s else Some s) else stop_elsewhere s)"
| "srv_step SrvQuit s =
     Some (if ts_stopPhase s = PoolNext then quit_loops (s\<lparr>ts_stopPhase := Joining False\<rparr>) else s)"
| "srv_step SrvJoin s = Some (case ts_stopPhase s of Joining _ \<Rightarrow> join_pool s | _ \<Rightarrow> s)"
| "srv_step (SrvStopAccepting onBase) s = (if onBase \<and> \<not> can_run 0 s then Some s else stopAccepting onBase s)"

fun srv_run :: "srv_op list \<Rightarrow> tcp_server \<Rightarrow> tcp_server option" where
  "srv_run [] s = Some s"
| "srv_run (x # xs) s = Option.bind (srv_step x s) (srv_run xs)"

section \<open>The invariant\<close>

abbreviation conn_state :: "tcp_server \<Rightarrow> nat \<Rightarrow> tcp_state" where
  "conn_state s ob \<equiv> tc_state (sc_conn (ts_objects s ! ob))"

abbreviation conn_loop :: "tcp_server \<Rightarrow> nat \<Rightarrow> nat" where
  "conn_loop s ob \<equiv> sc_loop (ts_objects s ! ob)"

definition in_table :: "tcp_server \<Rightarrow> nat \<Rightarrow> bool" where
  "in_table s ob \<longleftrightarrow> ob \<in> snd ` set (ts_connections s)"

fun about :: "nat \<Rightarrow> srv_task \<Rightarrow> bool" where
  "about ob (Establish ob') \<longleftrightarrow> ob' = ob"
| "about ob (ForceClose ob') \<longleftrightarrow> ob' = ob"
| "about ob (Destroy ob') \<longleftrightarrow> ob' = ob"
| "about ob _ \<longleftrightarrow> False"

definition own_tasks :: "tcp_server \<Rightarrow> nat \<Rightarrow> srv_task list" where
  "own_tasks s ob = filter (about ob) (ts_queues s (conn_loop s ob))"

definition conn_name :: "nat \<Rightarrow> bytes" where
  "conn_name ob = lit ''conn-'' @ dec_string (Suc ob)"

fun task_ok :: "tcp_server \<Rightarrow> nat \<Rightarrow> srv_task \<Rightarrow> bool" where
  "task_ok s l (Establish ob) \<longleftrightarrow> ob < length (ts_objects s) \<and> conn_loop s ob = l"
| "task_ok s l (ForceClose ob) \<longleftrightarrow> ob < length (ts_objects s) \<and> conn_loop s ob = l"
| "task_ok s l (Destroy ob) \<longleftrightarrow> ob < length (ts_objects s) \<and> conn_loop s ob = l \<and> conn_state s ob = TcpDisconnected"
| "task_ok s l (RemoveConn ob) \<longleftrightarrow> ob < length (ts_objects s) \<and> l = 0 \<and> conn_state s ob = TcpDisconnected"
| "task_ok s l StopTask \<longleftrightarrow> l = 0"
| "task_ok s l StopAccept \<longleftrightarrow> l = 0"
| "task_ok s l Quit \<longleftrightarrow> True"

definition srv_ok :: "tcp_server \<Rightarrow> bool" where
  "srv_ok s \<longleftrightarrow>
     ts_nextConnId s = of_nat (Suc (length (ts_objects s))) \<and>
     (\<forall>ob < length (ts_objects s). sc_name (ts_objects s ! ob) = conn_name ob \<and> tc_hasCloseCb (sc_conn (ts_objects s ! ob))) \<and>
     distinct (map snd (ts_connections s)) \<and>
     (\<forall>(name, ob) \<in> set (ts_connections s). ob < length (ts_objects s) \<and> name = conn_name ob) \<and>
     (\<forall>l. \<forall>t \<in> set (ts_queues s l). task_ok s l t) \<and>
     (\<not> ts_stopping s \<longrightarrow> ts_activeConnections s = length (ts_connections s))"

text \<open>
  A connection that is not established yet has that task ahead of all others; a closed one is out of the table
  or about to be removed; one that is out of the table is closed or about to be.
\<close>

definition conn_ok :: "tcp_server \<Rightarrow> nat \<Rightarrow> bool" where
  "conn_ok s ob \<longleftrightarrow>
     (if conn_state s ob = TcpConnecting
      then conn_loop s ob \<noteq> 0 \<and> (\<exists>rest. own_tasks s ob = Establish ob # rest \<and> Establish ob \<notin> set rest)
      else Establish ob \<notin> set (own_tasks s ob)) \<and>
     (in_table s ob \<and> conn_state s ob = TcpDisconnected \<and> \<not> ts_stopping s \<longrightarrow> RemoveConn ob \<in> set (ts_queues s 0)) \<and>
     (\<not> in_table s ob \<and> conn_state s ob \<noteq> TcpDisconnected \<longrightarrow> ForceClose ob \<in> set (own_tasks s ob))"

text \<open>A step that leaves a connection and what is queued for it alone.\<close>

definition keeps :: "nat \<Rightarrow> tcp_server \<Rightarrow> tcp_server \<Rightarrow> bool" where
  "keeps ob s s' \<longleftrightarrow>
     conn_state s' ob = conn_state s ob \<and> conn_loop s' ob = conn_loop s ob \<and> (in_table s' ob \<longleftrightarrow> in_table s ob) \<and>
     (ts_stopping s \<longrightarrow> ts_stopping s') \<and> (RemoveConn ob \<in> set (ts_queues s 0) \<longrightarrow> RemoveConn ob \<in> set (ts_queues s' 0)) \<and>
     (\<exists>extra. own_tasks s' ob = own_tasks s ob @ extra \<and> Establish ob \<notin> set extra)"

lemma keeps_conn_ok: "keeps ob s s' \<Longrightarrow> conn_ok s ob \<Longrightarrow> conn_ok s' ob"
  unfolding keeps_def conn_ok_def by (elim conjE exE) (auto split: if_splits)

lemma keeps_refl: "keeps ob s s"
  by (simp add: keeps_def)

lemma keeps_trans: "keeps ob s s' \<Longrightarrow> keeps ob s' s'' \<Longrightarrow> keeps ob s s''"
  unfolding keeps_def by (elim conjE exE) auto

lemma conn_name_inj [simp]: "conn_name a = conn_name b \<longleftrightarrow> a = b"
  using dec_string_inj [of "Suc a" "Suc b"] by (auto simp: conn_name_def)

section \<open>The primitives keep it\<close>

lemma queue_task_ok:
  assumes "queue_task l t s = Some s'" and "srv_ok s" and "task_ok s l t"
  shows "srv_ok s'" "ts_objects s' = ts_objects s" "in_table s' = in_table s" "ts_stopping s' = ts_stopping s"
    "ts_connections s' = ts_connections s" "ts_queues s' = (ts_queues s)(l := ts_queues s l @ [t])"
    "\<And>ob. t \<noteq> Establish ob \<Longrightarrow> keeps ob s s'"
proof -
  have s': "s' = s\<lparr>ts_queues := (ts_queues s)(l := ts_queues s l @ [t])\<rparr>"
    using assms(1) by (simp add: queue_task_def split: if_splits)
  have task: "task_ok s' = task_ok s" by (intro ext, case_tac xa) (simp_all add: s')
  show "srv_ok s'" using assms(2,3) unfolding srv_ok_def task by (simp add: s')
  show "ts_objects s' = ts_objects s" "in_table s' = in_table s" "ts_stopping s' = ts_stopping s"
    "ts_connections s' = ts_connections s" "ts_queues s' = (ts_queues s)(l := ts_queues s l @ [t])"
    by (simp_all add: s' in_table_def fun_eq_iff)
  show "keeps ob s s'" if "t \<noteq> Establish ob" for ob
    using that by (auto simp: s' keeps_def own_tasks_def in_table_def)
qed

lemma srv_ok_entry:
  assumes "srv_ok s" and "(name, ob) \<in> set (ts_connections s)"
  shows "ob < length (ts_objects s)" "name = conn_name ob"
proof -
  have "\<forall>(name, ob) \<in> set (ts_connections s). ob < length (ts_objects s) \<and> name = conn_name ob"
    using assms(1) unfolding srv_ok_def by (elim conjE)
  from bspec [OF this assms(2)] show "ob < length (ts_objects s)" "name = conn_name ob" by simp_all
qed

lemma srv_ok_object:
  assumes "srv_ok s" and "ob < length (ts_objects s)"
  shows "sc_name (ts_objects s ! ob) = conn_name ob" "tc_hasCloseCb (sc_conn (ts_objects s ! ob))"
  using assms unfolding srv_ok_def by blast+

lemma srv_ok_task: "srv_ok s \<Longrightarrow> t \<in> set (ts_queues s l) \<Longrightarrow> task_ok s l t"
  unfolding srv_ok_def by blast

lemma table_entry:
  assumes "srv_ok s"
  shows "in_table s ob \<longleftrightarrow> (conn_name ob, ob) \<in> set (ts_connections s)"
proof
  assume "in_table s ob"
  then obtain name where mem: "(name, ob) \<in> set (ts_connections s)" unfolding in_table_def by auto
  then show "(conn_name ob, ob) \<in> set (ts_connections s)" using srv_ok_entry(2) [OF assms mem] by simp
next
  assume "(conn_name ob, ob) \<in> set (ts_connections s)"
  then show "in_table s ob" unfolding in_table_def by (rule rev_image_eqI) simp
qed

lemma erase_conn_ok:
  assumes "srv_ok s" and "ob < length (ts_objects s)"
  defines "s' \<equiv> erase_conn (sc_name (ts_objects s ! ob)) s"
  shows "srv_ok s'" "ts_objects s' = ts_objects s" "ts_stopping s' = ts_stopping s" "ts_queues s' = ts_queues s"
    "in_table s' ob' \<longleftrightarrow> in_table s ob' \<and> ob' \<noteq> ob" "ob' \<noteq> ob \<Longrightarrow> keeps ob' s s'"
proof -
  have name: "sc_name (ts_objects s ! ob) = conn_name ob" using assms(1,2) by (simp add: srv_ok_def)
  have s': "ts_objects s' = ts_objects s" "ts_stopping s' = ts_stopping s" "ts_queues s' = ts_queues s"
    "ts_connections s' = filter (\<lambda>(k, _). k \<noteq> conn_name ob) (ts_connections s)" "ts_nextConnId s' = ts_nextConnId s"
    "ts_activeConnections s' = length (ts_connections s')"
    by (simp_all add: s'_def erase_conn_def name Let_def)
  have task: "task_ok s' = task_ok s" by (intro ext, case_tac xa) (simp_all add: s')
  show ok: "srv_ok s'" using assms(1) unfolding srv_ok_def task by (auto simp: s' distinct_map_filter)
  show "ts_objects s' = ts_objects s" "ts_stopping s' = ts_stopping s" "ts_queues s' = ts_queues s" by (simp_all add: s')
  show tab: "in_table s' ob' \<longleftrightarrow> in_table s ob' \<and> ob' \<noteq> ob" for ob'
    unfolding table_entry [OF ok] table_entry [OF assms(1)] by (auto simp: s')
  show "ob' \<noteq> ob \<Longrightarrow> keeps ob' s s'" using tab by (simp add: keeps_def own_tasks_def s')
qed

text \<open>Writing a connection object back: its state may change, but not from closed to open.\<close>

definition set_conn :: "nat \<Rightarrow> tcp_conn \<Rightarrow> tcp_server \<Rightarrow> tcp_server" where
  "set_conn ob c s = s\<lparr>ts_objects := (ts_objects s)[ob := (ts_objects s ! ob)\<lparr>sc_conn := c\<rparr>]\<rparr>"

lemma set_conn_simps [simp]:
  "length (ts_objects (set_conn ob c s)) = length (ts_objects s)" "ts_connections (set_conn ob c s) = ts_connections s"
  "ts_queues (set_conn ob c s) = ts_queues s" "ts_stopping (set_conn ob c s) = ts_stopping s"
  "ts_destroyed (set_conn ob c s) = ts_destroyed s" "in_table (set_conn ob c s) = in_table s"
  by (simp_all add: set_conn_def in_table_def fun_eq_iff)

lemma set_conn_nth:
  "ob < length (ts_objects s) \<Longrightarrow> ts_objects (set_conn ob c s) ! ob' =
     (if ob' = ob then (ts_objects s ! ob)\<lparr>sc_conn := c\<rparr> else ts_objects s ! ob')"
  by (simp add: set_conn_def nth_list_update)

lemma set_conn_ok:
  assumes "srv_ok s" and "ob < length (ts_objects s)" and "tc_hasCloseCb c"
    and "conn_state s ob = TcpDisconnected \<Longrightarrow> tc_state c = TcpDisconnected"
  shows "srv_ok (set_conn ob c s)" "ob' \<noteq> ob \<Longrightarrow> keeps ob' s (set_conn ob c s)" "own_tasks (set_conn ob c s) ob' = own_tasks s ob'"
proof -
  have loop: "conn_loop (set_conn ob c s) ob' = conn_loop s ob'" for ob' using assms(2) by (simp add: set_conn_nth)
  have task: "task_ok s l t \<Longrightarrow> task_ok (set_conn ob c s) l t" for l t
    using assms(2,4) by (cases t) (auto simp: set_conn_nth)
  have same: "ts_nextConnId (set_conn ob c s) = ts_nextConnId s" "ts_activeConnections (set_conn ob c s) = ts_activeConnections s"
    by (simp_all add: set_conn_def)
  show "srv_ok (set_conn ob c s)"
    unfolding srv_ok_def same set_conn_simps
  proof (intro conjI allI ballI impI)
    show "sc_name (ts_objects (set_conn ob c s) ! ob') = conn_name ob'"
      "tc_hasCloseCb (sc_conn (ts_objects (set_conn ob c s) ! ob'))" if "ob' < length (ts_objects s)" for ob'
      using srv_ok_object [OF assms(1) that] srv_ok_object [OF assms(1,2)] assms(2,3) by (simp_all add: set_conn_nth)
    show "task_ok (set_conn ob c s) l t" if "t \<in> set (ts_queues s l)" for l t
      using task srv_ok_task [OF assms(1) that] by blast
  qed (use assms(1) in \<open>simp_all add: srv_ok_def\<close>)
  show own: "own_tasks (set_conn ob c s) ob' = own_tasks s ob'" for ob' by (simp add: own_tasks_def loop)
  show "ob' \<noteq> ob \<Longrightarrow> keeps ob' s (set_conn ob c s)"
    using assms(2) own by (simp add: keeps_def loop set_conn_nth)
qed

section \<open>The functors keep it\<close>

definition srv_inv :: "tcp_server \<Rightarrow> bool" where
  "srv_inv s \<longleftrightarrow> srv_ok s \<and> (\<forall>ob < length (ts_objects s). conn_ok s ob)"

text \<open>A step on one connection that leaves it in order and the others alone.\<close>

definition touches :: "nat \<Rightarrow> tcp_server \<Rightarrow> tcp_server \<Rightarrow> bool" where
  "touches ob s s' \<longleftrightarrow> srv_ok s' \<and> length (ts_objects s') = length (ts_objects s) \<and> (\<forall>ob'. ob' \<noteq> ob \<longrightarrow> keeps ob' s s') \<and> conn_ok s' ob"

lemma touches_inv:
  assumes "touches ob s s'" and "\<And>ob'. ob' < length (ts_objects s) \<Longrightarrow> ob' \<noteq> ob \<Longrightarrow> conn_ok s ob'"
  shows "srv_inv s'"
  unfolding srv_inv_def
proof (intro conjI allI impI)
  fix ob' assume "ob' < length (ts_objects s')"
  then show "conn_ok s' ob'"
    using assms keeps_conn_ok [of ob' s s'] by (cases "ob' = ob") (simp_all add: touches_def)
qed (use assms(1) in \<open>simp add: touches_def\<close>)

text \<open>The connection is closed or will be by a queued task.\<close>

definition closing :: "tcp_server \<Rightarrow> nat \<Rightarrow> bool" where
  "closing s ob \<longleftrightarrow> conn_state s ob = TcpDisconnected \<or> ForceClose ob \<in> set (own_tasks s ob)"

lemma keeps_closing: "keeps ob s s' \<Longrightarrow> closing s ob \<Longrightarrow> closing s' ob"
  by (auto simp: keeps_def closing_def)

lemma removeConnectionInLoop_ok:
  assumes "removeConnectionInLoop ob s = Some s'" and "srv_ok s" and "ob < length (ts_objects s)"
    and "conn_state s ob = TcpDisconnected" and "Establish ob \<notin> set (own_tasks s ob)"
  shows "touches ob s s'" "conn_state s' ob = TcpDisconnected"
proof -
  let ?e = "erase_conn (sc_name (ts_objects s ! ob)) s"
  note e = erase_conn_ok [OF assms(2,3)]
  have q: "queue_task (conn_loop s ob) (Destroy ob) ?e = Some s'" using assms(1) by (simp add: removeConnectionInLoop_def Let_def)
  have "task_ok ?e (conn_loop s ob) (Destroy ob)" using assms(3,4) e(2) by simp
  note q = queue_task_ok [OF q e(1) this]
  have "keeps ob' s s'" if "ob' \<noteq> ob" for ob' using keeps_trans [OF e(6) [OF that] q(7)] by simp
  moreover have "own_tasks s' ob = own_tasks s ob @ [Destroy ob]" by (simp add: own_tasks_def q e)
  ultimately show "touches ob s s'" "conn_state s' ob = TcpDisconnected"
    using q(1,2,3) e(2,5) assms(4,5) by (simp_all add: touches_def conn_ok_def)
qed

lemma removeConnection_ok:
  assumes "removeConnection thread ob s = Some s'" and "srv_ok s" and "ob < length (ts_objects s)"
    and "conn_state s ob = TcpDisconnected" and "Establish ob \<notin> set (own_tasks s ob)"
  shows "touches ob s s'" "conn_state s' ob = TcpDisconnected"
proof -
  have "touches ob s s' \<and> conn_state s' ob = TcpDisconnected"
  proof (cases "ts_stopping s \<or> thread = 0")
    case True
    then show ?thesis
      using removeConnectionInLoop_ok [OF _ assms(2-5)] assms
      by (cases "ts_stopping s") (auto simp: removeConnection_def touches_def conn_ok_def keeps_refl)
  next
    case False
    then have q: "queue_task 0 (RemoveConn ob) s = Some s'" using assms(1) by (simp add: removeConnection_def)
    note q = queue_task_ok [OF q assms(2)]
    have "own_tasks s' ob = own_tasks s ob" using q(2,6) assms(3,4) by (simp add: own_tasks_def)
    then show ?thesis using q assms(3-5) by (simp add: touches_def conn_ok_def)
  qed
  then show "touches ob s s'" "conn_state s' ob = TcpDisconnected" by blast+
qed

lemma on_conn_set: "on_conn thread ob f s = conn_effects thread ob (snd (f (sc_conn (ts_objects s ! ob)))) (set_conn ob (fst (f (sc_conn (ts_objects s ! ob)))) s)"
  by (simp add: on_conn_def set_conn_def Let_def split_beta)

lemma touches_trans: "(\<And>ob'. ob' \<noteq> ob \<Longrightarrow> keeps ob' s s') \<Longrightarrow> length (ts_objects s') = length (ts_objects s) \<Longrightarrow> touches ob s' s'' \<Longrightarrow> touches ob s s''"
  unfolding touches_def by (metis keeps_trans)

lemma handleClose_ok:
  assumes "on_conn thread ob tcp_handleClose s = Some s'" and "srv_ok s" and "ob < length (ts_objects s)"
    and "Establish ob \<notin> set (own_tasks s ob)"
  shows "touches ob s s'" "conn_state s' ob = TcpDisconnected"
proof -
  let ?c = "fst (tcp_handleClose (sc_conn (ts_objects s ! ob)))"
  have cb: "tc_hasCloseCb (sc_conn (ts_objects s ! ob))" by (rule srv_ok_object(2) [OF assms(2,3)])
  have rm: "removeConnection thread ob (set_conn ob ?c s) = Some s'"
    using assms(1) cb by (cases "removeConnection thread ob (set_conn ob ?c s)") (simp_all add: on_conn_set tcp_handleClose_def)
  have c: "tc_hasCloseCb ?c" "tc_state ?c = TcpDisconnected" using cb by (simp_all add: tcp_handleClose_def)
  note set = set_conn_ok [OF assms(2,3) c(1)]
  have "conn_state (set_conn ob ?c s) ob = TcpDisconnected" "ob < length (ts_objects (set_conn ob ?c s))"
    using assms(3) c(2) by (simp_all add: set_conn_nth)
  from removeConnection_ok [OF rm _ this(2,1)] set c(2) assms(4)
  show "touches ob s s'" "conn_state s' ob = TcpDisconnected"
    by (auto intro: touches_trans [of ob s "set_conn ob ?c s" s'])
qed

text \<open>A method of a connection whose effects do not concern the server and that does not reopen it.\<close>

lemma quiet_ok:
  assumes "on_conn thread ob f s = Some s'" and "\<And>t. conn_effects thread ob (snd (f (sc_conn (ts_objects s ! ob)))) t = Some t"
    and "srv_ok s" and "ob < length (ts_objects s)" and "tc_hasCloseCb (fst (f (sc_conn (ts_objects s ! ob))))"
    and "tc_state (fst (f (sc_conn (ts_objects s ! ob)))) \<noteq> TcpConnecting"
    and "tc_state (fst (f (sc_conn (ts_objects s ! ob)))) = TcpDisconnected \<longleftrightarrow> conn_state s ob = TcpDisconnected"
    and "Establish ob \<notin> set (own_tasks s ob)"
    and "in_table s ob \<and> conn_state s ob = TcpDisconnected \<and> \<not> ts_stopping s \<Longrightarrow> RemoveConn ob \<in> set (ts_queues s 0)"
    and "\<not> in_table s ob \<and> conn_state s ob \<noteq> TcpDisconnected \<Longrightarrow> ForceClose ob \<in> set (own_tasks s ob)"
  shows "touches ob s s'"
proof -
  let ?c = "fst (f (sc_conn (ts_objects s ! ob)))"
  have s': "s' = set_conn ob ?c s" using assms(1) unfolding on_conn_set assms(2) by simp
  note set = set_conn_ok [OF assms(3-5)]
  have "conn_state s' ob = tc_state ?c" using assms(4) by (simp add: s' set_conn_nth)
  moreover have "own_tasks s' ob = own_tasks s ob" using set(3) assms(7) by (simp add: s')
  ultimately have "conn_ok s' ob"
    using assms(6-10) unfolding conn_ok_def by (simp add: s')
  then show ?thesis using set(1,2) assms(7) by (simp add: touches_def s')
qed

lemma forceCloseInLoop_ok:
  assumes "on_conn thread ob forceCloseInLoop s = Some s'" and "srv_ok s" and "ob < length (ts_objects s)"
    and "Establish ob \<notin> set (own_tasks s ob)" and "conn_state s ob \<noteq> TcpConnecting"
    and "in_table s ob \<and> conn_state s ob = TcpDisconnected \<and> \<not> ts_stopping s \<Longrightarrow> RemoveConn ob \<in> set (ts_queues s 0)"
  shows "touches ob s s'" "conn_state s' ob = TcpDisconnected"
proof -
  let ?c = "sc_conn (ts_objects s ! ob)"
  have "touches ob s s' \<and> conn_state s' ob = TcpDisconnected"
  proof (cases "conn_state s ob = TcpDisconnected")
    case True
    then have f: "forceCloseInLoop ?c = (?c, [])" by (simp add: forceCloseInLoop_def)
    then have s': "s' = set_conn ob ?c s" using assms(1) by (simp add: on_conn_set)
    have "touches ob s s'"
      using assms True f srv_ok_object(2) [OF assms(2,3)] by (intro quiet_ok [OF assms(1)]) simp_all
    then show ?thesis using True assms(3) by (simp add: s' set_conn_nth)
  next
    case False
    then have "forceCloseInLoop ?c = tcp_handleClose ?c"
      using assms(5) by (cases "conn_state s ob") (simp_all add: forceCloseInLoop_def)
    then have "on_conn thread ob tcp_handleClose s = Some s'" using assms(1) by (simp add: on_conn_def)
    then show ?thesis using handleClose_ok assms(2-4) by blast
  qed
  then show "touches ob s s'" "conn_state s' ob = TcpDisconnected" by blast+
qed

lemma force_close_ok:
  assumes "force_close 0 ob s = Some s'" and "srv_inv s" and "ob < length (ts_objects s)"
  shows "touches ob s s'" "closing s' ob"
proof -
  have ok: "srv_ok s" "conn_ok s ob" using assms(2,3) by (simp_all add: srv_inv_def)
  have "touches ob s s' \<and> closing s' ob"
  proof (cases "conn_loop s ob = 0")
    case True
    then have "on_conn 0 ob forceCloseInLoop s = Some s'" using assms(1) by (simp add: force_close_def on_conn_def forceClose_def)
    moreover have "conn_state s ob \<noteq> TcpConnecting" using ok(2) True by (auto simp: conn_ok_def)
    ultimately show ?thesis
      using forceCloseInLoop_ok [of 0 ob s s'] ok assms(3) by (simp add: conn_ok_def closing_def)
  next
    case False
    let ?t = "set_conn ob (sc_conn (ts_objects s ! ob)) s"
    have t: "?t = s" by (simp add: set_conn_def)
    have "queue_task (conn_loop s ob) (ForceClose ob) s = Some s'"
      using assms(1) False
      by (cases "queue_task (conn_loop s ob) (ForceClose ob) s") (simp_all add: force_close_def on_conn_set forceClose_def t)
    note q = queue_task_ok [OF this ok(1)]
    have "task_ok s (conn_loop s ob) (ForceClose ob)" using assms(3) by simp
    note q = q [OF this]
    have "ForceClose ob \<in> set (own_tasks s' ob)" by (simp add: own_tasks_def q)
    moreover have "conn_ok s' ob" using keeps_conn_ok [OF q(7) ok(2)] by simp
    ultimately show ?thesis using q by (simp add: touches_def closing_def)
  qed
  then show "touches ob s s'" "closing s' ob" by blast+
qed

lemma force_close_stopping:
  assumes "force_close thread ob s = Some s'" and "ts_stopping s"
  shows "ts_connections s' = ts_connections s" "ts_stopping s'"
proof -
  have eff: "conn_effect thread ob e t = Some t' \<Longrightarrow> ts_stopping t \<Longrightarrow> ts_connections t' = ts_connections t \<and> ts_stopping t'" for e t t'
    by (cases e) (auto simp: removeConnection_def queue_task_def split: if_splits)
  have effs: "conn_effects thread ob es t = Some t' \<Longrightarrow> ts_stopping t \<Longrightarrow> ts_connections t' = ts_connections t \<and> ts_stopping t'" for es t t'
  proof (induction es arbitrary: t)
    case (Cons e es)
    then obtain u where "conn_effect thread ob e t = Some u" "conn_effects thread ob es u = Some t'" by (auto split: bind_splits)
    then show ?case using eff Cons by fastforce
  qed simp
  show "ts_connections s' = ts_connections s" "ts_stopping s'"
    using assms effs [of _ "set_conn ob _ s" s'] unfolding force_close_def on_conn_set by force+
qed

text \<open>Changes of the server's own fields.\<close>

lemma same_conns:
  assumes "ts_objects s' = ts_objects s" and "ts_connections s' = ts_connections s" and "ts_queues s' = ts_queues s"
    and "ts_nextConnId s' = ts_nextConnId s" and "ts_activeConnections s' = ts_activeConnections s" and "ts_stopping s \<longrightarrow> ts_stopping s'"
  shows "srv_ok s \<Longrightarrow> srv_ok s'" "keeps ob s s'" "srv_inv s \<Longrightarrow> srv_inv s'"
proof -
  have task: "task_ok s' = task_ok s" by (intro ext, case_tac xa) (simp_all add: assms)
  show ok: "srv_ok s \<Longrightarrow> srv_ok s'" unfolding srv_ok_def task assms(1-5) using assms(6) by (elim conjE, intro conjI; blast?)
  show keeps: "keeps ob s s'" for ob using assms by (simp add: keeps_def own_tasks_def in_table_def)
  show "srv_inv s \<Longrightarrow> srv_inv s'" using ok keeps_conn_ok [OF keeps] by (simp add: srv_inv_def assms(1))
qed

lemma close_all_ok:
  assumes "close_all es s = Some s'" and "srv_inv s" and "ts_stopping s" and "\<forall>e \<in> set es. snd e < length (ts_objects s)"
  shows "srv_inv s' \<and> ts_stopping s' \<and> ts_connections s' = ts_connections s \<and> length (ts_objects s') = length (ts_objects s) \<and>
    (\<forall>ob. closing s ob \<or> ob \<in> snd ` set es \<longrightarrow> closing s' ob)"
  using assms
proof (induction es arbitrary: s)
  case (Cons e es)
  obtain name ob where e: "e = (name, ob)" by fastforce
  obtain u where u: "force_close 0 ob s = Some u" "close_all es u = Some s'"
    using Cons.prems(1) by (auto simp: e split: bind_splits)
  have ob: "ob < length (ts_objects s)" using Cons.prems(4) by (simp add: e)
  note fc = force_close_ok [OF u(1) Cons.prems(2) ob] and st = force_close_stopping [OF u(1) Cons.prems(3)]
  have inv: "srv_inv u" using touches_inv [OF fc(1)] Cons.prems(2) by (simp add: srv_inv_def)
  have len: "length (ts_objects u) = length (ts_objects s)" using fc(1) by (simp add: touches_def)
  have "closing s ob' \<Longrightarrow> closing u ob'" for ob'
    using fc keeps_closing [of ob' s u] by (cases "ob' = ob") (simp_all add: touches_def)
  then show ?case using Cons.IH [OF u(2) inv st(2)] Cons.prems(4) st(1) fc(2) len by (auto simp: e)
qed simp

lemma stopInLoop_ok:
  assumes "stopInLoop s = Some s'" and "srv_inv s"
  shows "srv_inv s'" "ts_connections s' = []" "ts_stopping s'"
proof -
  let ?t = "s\<lparr>ts_stopping := True, ts_idleCheckTimerId := 0, ts_acceptor := acceptor_stop (ts_acceptor s)\<rparr>"
  have inv: "srv_inv ?t" by (rule same_conns(3) [OF _ _ _ _ _ _ assms(2)]) simp_all
  obtain u where u: "close_all (ts_connections s) ?t = Some u" "s' = u\<lparr>ts_connections := []\<rparr>"
    using assms(1) by (auto simp: stopInLoop_def split: bind_splits)
  have ok: "srv_ok s" using assms(2) by (simp add: srv_inv_def)
  have "\<forall>e \<in> set (ts_connections s). snd e < length (ts_objects ?t)" using srv_ok_entry(1) [OF ok] by auto
  from close_all_ok [OF u(1) inv _ this]
  have c: "srv_inv u" "ts_stopping u" "\<And>ob. closing ?t ob \<or> in_table s ob \<Longrightarrow> closing u ob" "length (ts_objects u) = length (ts_objects s)"
    by (auto simp: in_table_def)
  have all: "closing u ob" if "ob < length (ts_objects s)" for ob
    using c(3) [of ob] inv that by (auto simp: srv_inv_def conn_ok_def closing_def in_table_def)
  have task: "task_ok s' = task_ok u" by (intro ext, case_tac xa) (simp_all add: u(2))
  have ok: "srv_ok s'" using c(1,2) unfolding srv_inv_def srv_ok_def task by (simp add: u(2))
  have "conn_ok s' ob" if "ob < length (ts_objects s)" for ob
    using c all [OF that] that by (auto simp: u(2) srv_inv_def conn_ok_def closing_def own_tasks_def in_table_def)
  then show "srv_inv s'" using ok c(4) by (simp add: srv_inv_def u(2))
  show "ts_connections s' = []" "ts_stopping s'" using c(2) by (simp_all add: u(2))
qed

lemma check_idle_ok:
  assumes "check_idle clock es s = Some s'" and "srv_inv s" and "\<forall>(name, ob) \<in> set es. ob < length (ts_objects s) \<and> name = conn_name ob"
  shows "srv_inv s'"
  using assms
proof (induction es arbitrary: s)
  case (Cons e es)
  obtain name ob where e: "e = (name, ob)" by fastforce
  have ob: "ob < length (ts_objects s)" "name = conn_name ob" using Cons.prems(3) by (simp_all add: e)
  show ?case
  proof (cases "isIdleFor (clock ob) idleTimeout (sc_conn (ts_objects s ! ob))")
    case True
    then obtain u where u: "force_close 0 ob s = Some u" "check_idle clock es (erase_conn name u) = Some s'"
      using Cons.prems(1) by (auto simp: e split: bind_splits if_splits)
    note fc = force_close_ok [OF u(1) Cons.prems(2) ob(1)]
    have inv: "srv_inv u" using touches_inv [OF fc(1)] Cons.prems(2) by (simp add: srv_inv_def)
    have len: "length (ts_objects u) = length (ts_objects s)" using fc(1) by (simp add: touches_def)
    have ok: "srv_ok u" "ob < length (ts_objects u)" using inv ob len by (simp_all add: srv_inv_def)
    have name: "sc_name (ts_objects u ! ob) = name" using srv_ok_object(1) [OF ok] ob(2) by simp
    note er = erase_conn_ok [OF ok, unfolded name]
    have own: "own_tasks (erase_conn name u) ob = own_tasks u ob" by (simp add: own_tasks_def er)
    have "touches ob u (erase_conn name u)"
      using er fc inv ok own by (auto simp: touches_def conn_ok_def closing_def srv_inv_def)
    then have "srv_inv (erase_conn name u)" using touches_inv inv by (simp add: srv_inv_def)
    then show ?thesis using Cons.IH [OF u(2)] Cons.prems(3) er(2) len by (simp add: e)
  next
    case False
    then show ?thesis using Cons by (simp add: e)
  qed
qed simp

section \<open>Every step keeps it\<close>

lemma pop_ok:
  assumes "ts_queues s l = t # ts" and "srv_ok s"
  defines "s' \<equiv> s\<lparr>ts_queues := (ts_queues s)(l := ts)\<rparr>"
  shows "srv_ok s'" "\<not> about ob t \<Longrightarrow> t \<noteq> RemoveConn ob \<Longrightarrow> keeps ob s s'" "task_ok s' l t"
    "about ob t \<Longrightarrow> own_tasks s ob = t # own_tasks s' ob"
    "RemoveConn ob \<in> set (ts_queues s 0) \<Longrightarrow> t \<noteq> RemoveConn ob \<Longrightarrow> RemoveConn ob \<in> set (ts_queues s' 0)"
proof -
  have task: "task_ok s' = task_ok s" by (intro ext, case_tac xa) (simp_all add: s'_def)
  have sub: "set (ts_queues s' k) \<subseteq> set (ts_queues s k)" for k using assms(1) by (auto simp: s'_def)
  have tasks: "task_ok s' k u" if "u \<in> set (ts_queues s' k)" for k u
    using srv_ok_task [OF assms(2)] sub that unfolding task by blast
  show "srv_ok s'" using assms(2) tasks unfolding srv_ok_def by (simp add: s'_def)
  show "task_ok s' l t" using srv_ok_task [OF assms(2), of t l] assms(1) by (simp add: task)
  show remove: "RemoveConn ob \<in> set (ts_queues s 0) \<Longrightarrow> t \<noteq> RemoveConn ob \<Longrightarrow> RemoveConn ob \<in> set (ts_queues s' 0)" for ob
    using assms(1) by (auto simp: s'_def split: if_splits)
  show "keeps ob s s'" if "\<not> about ob t" "t \<noteq> RemoveConn ob"
  proof -
    have "own_tasks s' ob = own_tasks s ob" using assms(1) that(1) by (simp add: own_tasks_def s'_def)
    then show ?thesis using remove that(2) by (simp add: keeps_def in_table_def) (simp add: s'_def)
  qed
  assume a: "about ob t"
  have "task_ok s l t" using srv_ok_task [OF assms(2), of t l] assms(1) by simp
  then have "conn_loop s ob = l" using a by (cases t) simp_all
  then show "own_tasks s ob = t # own_tasks s' ob" using a assms(1) by (simp add: own_tasks_def s'_def)
qed

text \<open>Running a task that concerns one connection.\<close>

lemma conn_task_ok:
  assumes "ts_queues s l = t # ts" and "srv_inv s" and "about ob t \<or> t = RemoveConn ob"
    and "run_task l now t (s\<lparr>ts_queues := (ts_queues s)(l := ts)\<rparr>) = Some s'"
  shows "srv_inv s'"
proof -
  let ?u = "s\<lparr>ts_queues := (ts_queues s)(l := ts)\<rparr>"
  have ok: "srv_ok s" "\<And>ob. ob < length (ts_objects s) \<Longrightarrow> conn_ok s ob" using assms(2) by (simp_all add: srv_inv_def)
  note pop = pop_ok [OF assms(1) ok(1)]
  have ob: "ob < length (ts_objects s)" using pop(3) assms(3) by (cases t) auto
  have st: "conn_state ?u = conn_state s" "in_table ?u = in_table s" "ts_stopping ?u = ts_stopping s"
    by (simp_all add: in_table_def fun_eq_iff)
  have cb: "tc_hasCloseCb (sc_conn (ts_objects s ! ob))" by (rule srv_ok_object(2) [OF ok(1) ob])
  have "touches ob ?u s'"
  proof (cases t)
    case [simp]: (Establish ob')
    have own: "own_tasks s ob = Establish ob # own_tasks ?u ob" "ob' = ob" using pop(4) [of ob] assms(3) by auto
    have c: "conn_state s ob = TcpConnecting" "Establish ob \<notin> set (own_tasks ?u ob)" using ok(2) [OF ob] own by (auto simp: conn_ok_def split: if_splits)
    show ?thesis
      using assms(4) pop(1) ob own c ok(2) [OF ob] cb
      by (intro quiet_ok [of l ob "connectEstablished now"]) (auto simp: connectEstablished_def st conn_ok_def)
  next
    case [simp]: (ForceClose ob')
    have own: "own_tasks s ob = ForceClose ob # own_tasks ?u ob" "ob' = ob" using pop(4) [of ob] assms(3) by auto
    have c: "conn_state s ob \<noteq> TcpConnecting" "Establish ob \<notin> set (own_tasks ?u ob)" using ok(2) [OF ob] own by (auto simp: conn_ok_def split: if_splits)
    show ?thesis
      using assms(4) pop(1) ob own c ok(2) [OF ob] pop(5) [of ob]
      by (intro forceCloseInLoop_ok(1) [of l ob]) (auto simp: st conn_ok_def)
  next
    case [simp]: (Destroy ob')
    have own: "own_tasks s ob = Destroy ob # own_tasks ?u ob" "ob' = ob" using pop(4) [of ob] assms(3) by auto
    have c: "conn_state s ob = TcpDisconnected" using pop(3) own by simp
    then have "Establish ob \<notin> set (own_tasks ?u ob)" using ok(2) [OF ob] own by (auto simp: conn_ok_def split: if_splits)
    then show ?thesis
      using assms(4) pop(1) ob own c ok(2) [OF ob] pop(5) [of ob] cb
      by (intro quiet_ok [of l ob connectDestroyed]) (auto simp: connectDestroyed_def st conn_ok_def)
  next
    case [simp]: (RemoveConn ob')
    have c: "ob' = ob" "conn_state s ob = TcpDisconnected" using pop(3) assms(3) by auto
    have "Establish ob \<notin> set (own_tasks s ob)" using ok(2) [OF ob] c by (simp add: conn_ok_def)
    then have "Establish ob \<notin> set (own_tasks ?u ob)" using assms(1) by (auto simp: own_tasks_def split: if_splits)
    then show ?thesis using removeConnectionInLoop_ok(1) [of ob ?u s'] assms(4) pop(1) ob c by simp
  qed (use assms(3) in auto)
  moreover have "keeps ob' s ?u" if "ob' \<noteq> ob" for ob' using pop(2) [of ob'] that assms(3) by (cases t) auto
  ultimately show ?thesis
    using touches_inv [OF touches_trans [of ob s ?u s']] ok(2) by simp
qed

text \<open>A new connection: the table, the names and the queue of its loop.\<close>

lemma new_object_ok:
  assumes "srv_ok s" and "Suc (length (ts_objects s)) < 2 ^ 64" and "tc_hasCloseCb c"
    and "s' = s\<lparr>ts_threadPool := pool, ts_nextConnId := ts_nextConnId s + 1,
      ts_objects := ts_objects s @ [\<lparr>sc_name = name, sc_loop = l, sc_conn = c\<rparr>], ts_connections := cs, ts_activeConnections := length cs\<rparr>"
    and "name = lit ''conn-'' @ dec_string (unat (ts_nextConnId s))"
    and "cs = filter (\<lambda>(k, _). k \<noteq> name) (ts_connections s) @ [(name, length (ts_objects s))]"
  shows "srv_ok s'" "ob < length (ts_objects s) \<Longrightarrow> keeps ob s s'" "own_tasks s' (length (ts_objects s)) = []"
    "in_table s' (length (ts_objects s))"
proof -
  let ?n = "length (ts_objects s)"
  have id: "ts_nextConnId s = of_nat (Suc ?n)" using assms(1) by (simp add: srv_ok_def)
  have "unat (ts_nextConnId s) = Suc ?n" unfolding id using assms(2) by (simp add: unat_of_nat del: of_nat_Suc)
  then have name: "name = conn_name ?n" by (simp add: assms(5) conn_name_def)
  have lt: "snd e < ?n" "fst e = conn_name (snd e)" if "e \<in> set (ts_connections s)" for e
    using srv_ok_entry [OF assms(1), of "fst e" "snd e"] that by simp_all
  have "filter (\<lambda>(k, _). k \<noteq> name) (ts_connections s) = ts_connections s"
    using lt by (intro filter_True) (fastforce simp: name)
  then have cs: "cs = ts_connections s @ [(name, ?n)]" by (simp add: assms(6))
  have obj: "ts_objects s' ! ob = ts_objects s ! ob" if "ob < ?n" for ob using that by (simp add: assms(4) nth_append)
  have task: "task_ok s' k t" if "t \<in> set (ts_queues s k)" for k t
    using srv_ok_task [OF assms(1) that] by (cases t) (auto simp: obj, auto simp: assms(4))
  have dist: "distinct (map snd cs)" using assms(1) lt(1) by (auto simp: cs srv_ok_def)
  show "srv_ok s'"
    unfolding srv_ok_def
  proof (intro conjI allI impI ballI)
    show "ts_nextConnId s' = of_nat (Suc (length (ts_objects s')))" using id by (simp add: assms(4))
    show "sc_name (ts_objects s' ! ob) = conn_name ob" "tc_hasCloseCb (sc_conn (ts_objects s' ! ob))"
      if "ob < length (ts_objects s')" for ob
      using that srv_ok_object [OF assms(1), of ob] assms(3) name
      by (cases "ob < ?n"; auto simp: obj; auto simp: assms(4) nth_append less_Suc_eq)+
    show "distinct (map snd (ts_connections s'))" using dist by (simp add: assms(4))
    show "case e of (k, ob) \<Rightarrow> ob < length (ts_objects s') \<and> k = conn_name ob" if "e \<in> set (ts_connections s')" for e
      using that lt [of e] name by (auto simp: assms(4) cs)
    show "task_ok s' k t" if "t \<in> set (ts_queues s' k)" for k t using that task by (simp add: assms(4))
    show "ts_activeConnections s' = length (ts_connections s')" by (simp add: assms(4))
  qed
  have tab: "in_table s' ob \<longleftrightarrow> in_table s ob \<or> ob = ?n" for ob by (auto simp: in_table_def assms(4) cs)
  then show "in_table s' ?n" by simp
  show "keeps ob s s'" if "ob < ?n" using that by (simp add: keeps_def obj tab own_tasks_def) (simp add: assms(4))
  have "\<not> about ?n t" if "t \<in> set (ts_queues s k)" for t k using srv_ok_task [OF assms(1) that] by (cases t) auto
  then show "own_tasks s' ?n = []" by (simp add: own_tasks_def filter_empty_conv assms(4))
qed

lemma newConnection_ok:
  assumes "newConnection fd now1 now2 s = Some s'" and "srv_inv s" and "Suc (length (ts_objects s)) < 2 ^ 64"
  shows "srv_inv s' \<and> length (ts_objects s') \<le> Suc (length (ts_objects s))"
proof -
  let ?n = "length (ts_objects s)"
  define c where "c = (new_tcp_conn fd now1)\<lparr>tc_highWaterMark := ts_highWaterMark s,
    tc_slowConsumerTimeout := ts_slowConsumerTimeout s, tc_hasConnectionCb := True, tc_hasMessageCb := True, tc_hasCloseCb := True\<rparr>"
  define name where "name = lit ''conn-'' @ dec_string (unat (ts_nextConnId s))"
  define cs where "cs = filter (\<lambda>(k, _). k \<noteq> name) (ts_connections s) @ [(name, ?n)]"
  obtain l pool where l: "getNextLoop (ts_threadPool s) = (Some l, pool)"
    using assms(1) by (auto simp: newConnection_def split: prod.splits option.splits)
  define u where "u = s\<lparr>ts_threadPool := pool, ts_nextConnId := ts_nextConnId s + 1,
      ts_objects := ts_objects s @ [\<lparr>sc_name = name, sc_loop = l, sc_conn = c\<rparr>], ts_connections := cs, ts_activeConnections := length cs\<rparr>"
  have run: "(if l = 0 then on_conn 0 ?n (connectEstablished now2) u else queue_task l (Establish ?n) u) = Some s'"
    using assms(1) by (simp only: newConnection_def l Let_def u_def c_def name_def cs_def prod.case option.case)
  have ok: "srv_ok s" "tc_hasCloseCb c" "tc_state c = TcpConnecting" using assms(2) by (simp_all add: srv_inv_def c_def new_tcp_conn_def)
  note new = new_object_ok [OF ok(1) assms(3) ok(2) u_def name_def cs_def]
  have obj: "ts_objects u ! ?n = \<lparr>sc_name = name, sc_loop = l, sc_conn = c\<rparr>" "length (ts_objects u) = Suc ?n" by (simp_all add: u_def)
  have old: "conn_ok u ob" if "ob < ?n" for ob using keeps_conn_ok [OF new(2)] assms(2) that by (simp add: srv_inv_def)
  have "touches ?n u s'"
  proof (cases "l = 0")
    case True
    then have "on_conn 0 ?n (connectEstablished now2) u = Some s'" using run by simp
    moreover have "conn_effects 0 ?n (snd (connectEstablished now2 (sc_conn (ts_objects u ! ?n)))) t = Some t" for t
      by (simp add: connectEstablished_def)
    ultimately show ?thesis
      by (rule quiet_ok) (use new(1,3,4) obj ok in \<open>simp_all add: connectEstablished_def\<close>)
  next
    case False
    then have "queue_task l (Establish ?n) u = Some s'" using run by simp
    note q = queue_task_ok [OF this new(1)]
    have "task_ok u l (Establish ?n)" by (simp add: obj)
    note q = q [OF this]
    have "own_tasks s' ?n = [Establish ?n]" using new(3) by (simp add: own_tasks_def q obj)
    then show ?thesis using q new(4) obj False ok by (simp add: touches_def conn_ok_def)
  qed
  then show ?thesis using touches_inv [of ?n u s'] old obj(2) by (simp add: touches_def less_Suc_eq)
qed

text \<open>Only \<^verbatim>\<open>newConnection\<close> makes connection objects.\<close>

lemma queue_task_length: "queue_task l t s = Some s' \<Longrightarrow> length (ts_objects s') = length (ts_objects s)"
  by (auto simp: queue_task_def split: if_splits)

lemma conn_effects_length: "conn_effects thread ob es s = Some s' \<Longrightarrow> length (ts_objects s') = length (ts_objects s)"
proof (induction es arbitrary: s)
  case (Cons e es)
  then obtain u where u: "conn_effect thread ob e s = Some u" "conn_effects thread ob es u = Some s'" by (auto split: bind_splits)
  have "length (ts_objects u) = length (ts_objects s)"
    using u(1) queue_task_length
    by (cases e) (auto simp: removeConnection_def removeConnectionInLoop_def erase_conn_def Let_def split: if_splits dest!: queue_task_length)
  then show ?case using Cons.IH [OF u(2)] by simp
qed simp

lemma on_conn_length: "on_conn thread ob f s = Some s' \<Longrightarrow> length (ts_objects s') = length (ts_objects s)"
  unfolding on_conn_set by (drule conn_effects_length) simp

lemma check_idle_length: "check_idle clock es s = Some s' \<Longrightarrow> length (ts_objects s') = length (ts_objects s)"
proof (induction clock es s rule: check_idle.induct)
  case (2 clock name ob rest s)
  then show ?case
    by (auto simp: force_close_def erase_conn_def Let_def split: if_splits bind_splits dest!: on_conn_length)
qed simp

lemma close_all_length: "close_all es s = Some s' \<Longrightarrow> length (ts_objects s') = length (ts_objects s)"
  by (induction es s rule: close_all.induct) (auto simp: force_close_def split: bind_splits dest!: on_conn_length)

lemma stopInLoop_length: "stopInLoop s = Some s' \<Longrightarrow> length (ts_objects s') = length (ts_objects s)"
  by (auto simp: stopInLoop_def split: bind_splits dest!: close_all_length)

lemma run_task_length: "run_task l now t s = Some s' \<Longrightarrow> length (ts_objects s') = length (ts_objects s)"
  by (cases t) (auto simp: removeConnectionInLoop_def erase_conn_def Let_def
      dest!: on_conn_length queue_task_length stopInLoop_length)

text \<open>Tasks that concern no connection.\<close>

lemma quit_loops_inv: "srv_inv s \<Longrightarrow> srv_inv (quit_loops s)"
proof -
  assume inv: "srv_inv s"
  let ?s = "quit_loops s"
  have task: "task_ok ?s = task_ok s" by (intro ext, case_tac xa) (simp_all add: quit_loops_def)
  have "task_ok ?s l t" if "t \<in> set (ts_queues ?s l)" for l t
    using srv_ok_task [of s t l] inv that unfolding task by (auto simp: srv_inv_def quit_loops_def split: if_splits)
  then have "srv_ok ?s" using inv unfolding srv_inv_def srv_ok_def by (simp add: quit_loops_def)
  moreover have "keeps ob s ?s" for ob by (auto simp: keeps_def own_tasks_def in_table_def quit_loops_def)
  moreover have "length (ts_objects ?s) = length (ts_objects s)" by (simp add: quit_loops_def)
  ultimately show ?thesis using inv keeps_conn_ok unfolding srv_inv_def by metis
qed

lemma server_task_inv:
  assumes "srv_inv s" and "queue_task 0 t s = Some s'" and "t = StopTask \<or> t = StopAccept"
  shows "srv_inv s'"
proof -
  have "task_ok s 0 t" using assms(3) by auto
  note q = queue_task_ok [OF assms(2) _ this]
  then show ?thesis using assms(1,3) keeps_conn_ok [OF q(7)] by (auto simp: srv_inv_def)
qed

lemma srv_run_task_inv:
  assumes "ts_queues s l = t # ts" and "srv_inv s" and "run_task l now t (s\<lparr>ts_queues := (ts_queues s)(l := ts)\<rparr>) = Some s'"
  shows "srv_inv s'"
proof (cases "\<exists>ob. about ob t \<or> t = RemoveConn ob")
  case True
  then show ?thesis using conn_task_ok [OF assms(1,2) _ assms(3)] by blast
next
  case False
  let ?u = "s\<lparr>ts_queues := (ts_queues s)(l := ts)\<rparr>"
  have "srv_ok s" using assms(2) by (simp add: srv_inv_def)
  note pop = pop_ok [OF assms(1) this]
  have inv: "srv_inv ?u"
    using pop(1) keeps_conn_ok [OF pop(2)] False assms(2) by (auto simp: srv_inv_def)
  show ?thesis
  proof (cases t)
    case StopTask
    then obtain v where v: "stopInLoop ?u = Some v" "s' = v\<lparr>ts_stopPhase := PoolNext\<rparr>" using assms(3) by auto
    show ?thesis unfolding v(2) by (rule same_conns(3) [OF _ _ _ _ _ _ stopInLoop_ok(1) [OF v(1) inv]]) simp_all
  next
    case StopAccept
    then have "s' = ?u\<lparr>ts_acceptor := acceptor_stop (ts_acceptor ?u)\<rparr>" using assms(3) by simp
    then show ?thesis by (simp only:) (rule same_conns(3) [OF _ _ _ _ _ _ inv], simp_all)
  next
    case Quit
    then have "s' = ?u\<lparr>ts_exited := l # ts_exited ?u\<rparr>" using assms(3) by simp
    then show ?thesis by (simp only:) (rule same_conns(3) [OF _ _ _ _ _ _ inv], simp_all)
  qed (use False in auto)
qed

lemma tcp_start_same:
  "ts_objects (snd (tcp_start listened timerId s)) = ts_objects s" "ts_connections (snd (tcp_start listened timerId s)) = ts_connections s"
  "ts_queues (snd (tcp_start listened timerId s)) = ts_queues s" "ts_nextConnId (snd (tcp_start listened timerId s)) = ts_nextConnId s"
  "ts_activeConnections (snd (tcp_start listened timerId s)) = ts_activeConnections s"
  "ts_stopping (snd (tcp_start listened timerId s)) = ts_stopping s"
  by (simp_all add: tcp_start_def start_pool_def Let_def split: sum.split)

lemma conn_step_inv:
  assumes "srv_inv s" and "ob < length (ts_objects s)"
  shows "on_conn thread ob tcp_handleClose s = Some s' \<Longrightarrow> conn_state s ob \<noteq> TcpConnecting \<Longrightarrow> srv_inv s'"
    and "on_conn thread ob (tcp_shutdown True) s = Some s' \<Longrightarrow> srv_inv s'"
proof -
  have ok: "srv_ok s" "conn_ok s ob" using assms by (simp_all add: srv_inv_def)
  have others: "\<And>ob'. ob' < length (ts_objects s) \<Longrightarrow> ob' \<noteq> ob \<Longrightarrow> conn_ok s ob'" using assms(1) by (simp add: srv_inv_def)
  show "srv_inv s'" if "on_conn thread ob tcp_handleClose s = Some s'" "conn_state s ob \<noteq> TcpConnecting"
    using touches_inv [OF handleClose_ok(1) [OF that(1) ok(1) assms(2)]] ok(2) that(2) others by (simp add: conn_ok_def)
  assume sh: "on_conn thread ob (tcp_shutdown True) s = Some s'"
  let ?c = "sc_conn (ts_objects s ! ob)"
  have eff: "conn_effects thread ob (snd (tcp_shutdown True ?c)) t = Some t" for t
    by (simp add: tcp_shutdown_def shutdownInLoop_def Let_def)
  show "srv_inv s'"
  proof (cases "conn_state s ob = TcpConnected")
    case True
    then have "touches ob s s'"
      using ok assms(2) srv_ok_object(2) [OF ok(1) assms(2)]
      by (intro quiet_ok [OF sh eff]) (simp_all add: tcp_shutdown_def shutdownInLoop_def Let_def conn_ok_def)
    then show ?thesis using touches_inv others by blast
  next
    case False
    then have "s' = s" using sh unfolding on_conn_set eff by (simp add: tcp_shutdown_def set_conn_def)
    then show ?thesis using assms(1) by simp
  qed
qed

lemma stop_inv:
  assumes "srv_inv s"
  shows "stop_on_base s = Some s' \<Longrightarrow> srv_inv s'" "stop_elsewhere s = Some s' \<Longrightarrow> srv_inv s'"
    "stopAccepting onBase s = Some s' \<Longrightarrow> srv_inv s'" "srv_inv (join_pool s)"
proof -
  have stopped: "srv_inv (s\<lparr>ts_started := False\<rparr>)" by (rule same_conns(3) [OF _ _ _ _ _ _ assms]) simp_all
  show "srv_inv s'" if base: "stop_on_base s = Some s'"
  proof (cases "ts_started s")
    case True
    then obtain u where u: "stopInLoop (s\<lparr>ts_started := False\<rparr>) = Some u" "s' = quit_loops (u\<lparr>ts_stopPhase := Joining True\<rparr>)"
      using base by (auto simp: stop_on_base_def split: bind_splits)
    have "srv_inv (u\<lparr>ts_stopPhase := Joining True\<rparr>)"
      by (rule same_conns(3) [OF _ _ _ _ _ _ stopInLoop_ok(1) [OF u(1) stopped]]) simp_all
    then show ?thesis unfolding u(2) by (rule quit_loops_inv)
  qed (use base assms in \<open>simp add: stop_on_base_def\<close>)
  show "srv_inv s'" if "stop_elsewhere s = Some s'"
    using that assms server_task_inv [OF stopped, of StopTask s'] by (auto simp: stop_elsewhere_def split: if_splits)
  show "srv_inv s'" if "stopAccepting onBase s = Some s'"
  proof (cases onBase)
    case True
    then have "s' = s\<lparr>ts_acceptor := acceptor_stop (ts_acceptor s)\<rparr>" using that by (simp add: stopAccepting_def)
    then show ?thesis by (simp only:) (rule same_conns(3) [OF _ _ _ _ _ _ assms], simp_all)
  qed (use that server_task_inv [OF assms, of StopAccept s'] in \<open>simp add: stopAccepting_def\<close>)
  show "srv_inv (join_pool s)"
    by (rule same_conns(3) [OF _ _ _ _ _ _ assms]) (simp_all add: join_pool_def Let_def)
qed

lemma srv_step_inv:
  assumes "srv_step x s = Some s'" and "srv_inv s" and "Suc (length (ts_objects s)) < 2 ^ 64"
  shows "srv_inv s'"
proof (cases x)
  case (SrvStart listened timerId)
  then have "s' = snd (tcp_start listened timerId s)" using assms(1) by simp
  then show ?thesis by (simp only:) (rule same_conns(3) [OF tcp_start_same(1-5) _ assms(2)], simp add: tcp_start_same)
next
  case (SrvAccept fd now1 now2)
  then show ?thesis using assms newConnection_ok [of fd now1 now2 s s'] by (auto split: if_splits)
next
  case (SrvIdle clock)
  have "\<forall>(name, ob) \<in> set (ts_connections s). ob < length (ts_objects s) \<and> name = conn_name ob"
    using assms(2) by (simp add: srv_inv_def srv_ok_def)
  from check_idle_ok [OF _ assms(2) this, of clock s'] show ?thesis
    using SrvIdle assms(1,2) by (cases "can_run 0 s \<and> ts_idleCheckTimerId s \<noteq> 0") (auto simp: checkIdleConnections_def)
next
  case (SrvRun l now)
  show ?thesis
  proof (cases "can_run l s")
    case True
    then show ?thesis
      using SrvRun assms(1,2) srv_run_task_inv [OF _ assms(2), of l _ _ now s'] by (cases "ts_queues s l") simp_all
  qed (use SrvRun assms(1,2) in simp)
next
  case (SrvClose ob)
  then show ?thesis
    using assms(1,2) conn_step_inv(1) [OF assms(2), of ob _ s']
    by (cases "conn_runs ob s \<and> conn_state s ob \<noteq> TcpConnecting") (auto simp: conn_runs_def)
next
  case (SrvShutdown ob)
  then show ?thesis
    using assms(1,2) conn_step_inv(2) [OF assms(2), of ob _ s'] by (cases "conn_runs ob s") (auto simp: conn_runs_def)
next
  case (SrvStop onBase)
  then show ?thesis using assms(1,2) stop_inv(1,2) [OF assms(2), of s'] by (cases onBase; cases "can_run 0 s") simp_all
next
  case SrvQuit
  have "srv_inv (s\<lparr>ts_stopPhase := Joining False\<rparr>)" by (rule same_conns(3) [OF _ _ _ _ _ _ assms(2)]) simp_all
  from quit_loops_inv [OF this] show ?thesis using SrvQuit assms(1,2) by (auto split: if_splits)
next
  case SrvJoin
  then show ?thesis using assms(1,2) stop_inv(4) [OF assms(2)] by (auto split: stop_phase.splits)
next
  case (SrvStopAccepting onBase)
  then show ?thesis using assms(1,2) stop_inv(3) [OF assms(2), of onBase s'] by (auto split: if_splits)
qed

lemma srv_step_length: "srv_step x s = Some s' \<Longrightarrow> length (ts_objects s') \<le> Suc (length (ts_objects s))"
proof (cases x)
  case (SrvAccept fd now1 now2)
  moreover have "length (ts_objects s') \<le> Suc (length (ts_objects s))" if "newConnection fd now1 now2 s = Some s'"
    using that by (auto simp: newConnection_def Let_def split: prod.splits option.splits if_splits dest!: on_conn_length queue_task_length)
  moreover assume "srv_step x s = Some s'"
  ultimately show ?thesis by (auto split: if_splits)
next
  case (SrvStop onBase)
  moreover assume "srv_step x s = Some s'"
  ultimately show ?thesis
    by (auto simp: stop_on_base_def stop_elsewhere_def quit_loops_def split: if_splits bind_splits dest!: stopInLoop_length queue_task_length)
next
  case (SrvRun l now)
  moreover assume "srv_step x s = Some s'"
  ultimately show ?thesis by (auto split: if_splits list.splits dest!: run_task_length)
qed (auto simp: tcp_start_same checkIdleConnections_def quit_loops_def join_pool_def stopAccepting_def Let_def
    split: if_splits stop_phase.splits dest!: check_idle_length on_conn_length queue_task_length)

lemma srv_run_inv:
  "srv_run xs s = Some s' \<Longrightarrow> srv_inv s \<Longrightarrow> length (ts_objects s) + length xs < 2 ^ 64 - 1 \<Longrightarrow> srv_inv s'"
proof (induction xs arbitrary: s)
  case (Cons x xs)
  then obtain u where u: "srv_step x s = Some u" "srv_run xs u = Some s'" by (auto split: bind_splits)
  have "length (ts_objects u) \<le> Suc (length (ts_objects s))" by (rule srv_step_length [OF u(1)])
  moreover have "srv_inv u" using srv_step_inv [OF u(1) Cons.prems(2)] Cons.prems(3) by simp
  ultimately show ?case using Cons.IH [OF u(2)] Cons.prems(3) by simp
qed simp

lemma new_tcp_server_inv: "srv_inv (new_tcp_server a pool)"
  by (simp add: srv_inv_def srv_ok_def new_tcp_server_def)

section \<open>A server with loops of its own never uses what is gone\<close>

definition srv_env where
  "srv_env s = (ts_destroyed s, ts_stopPhase s, ts_stopping s, ts_threadPool s, ts_acceptor s, ts_freshLoop s,
     map sc_loop (ts_objects s), StopTask \<in> set (ts_queues s 0))"

lemma queue_task_total:
  assumes "ts_destroyed s = []"
  shows "\<exists>s'. queue_task l t s = Some s' \<and> (t \<noteq> StopTask \<longrightarrow> srv_env s' = srv_env s) \<and> ts_connections s' = ts_connections s"
  using assms by (simp add: queue_task_def srv_env_def)

lemma conn_effect_total:
  assumes "ts_destroyed s = []"
  shows "\<exists>s'. conn_effect thread ob e s = Some s' \<and> srv_env s' = srv_env s \<and>
    (thread \<noteq> 0 \<or> e \<noteq> TcpClose \<longrightarrow> ts_connections s' = ts_connections s)"
proof (cases e)
  case TcpClose
  have "ts_destroyed (erase_conn (sc_name (ts_objects s ! ob)) s) = []" "srv_env (erase_conn (sc_name (ts_objects s ! ob)) s) = srv_env s"
    using assms by (simp_all add: erase_conn_def srv_env_def Let_def)
  then show ?thesis
    using TcpClose queue_task_total [OF assms, of 0 "RemoveConn ob"]
      queue_task_total [of "erase_conn (sc_name (ts_objects s ! ob)) s" "conn_loop s ob" "Destroy ob"]
    by (auto simp: removeConnection_def removeConnectionInLoop_def Let_def)
next
  case TcpQueueForceClose
  then show ?thesis using queue_task_total [OF assms, of "conn_loop s ob" "ForceClose ob"] by auto
qed auto

lemma conn_effects_total:
  assumes "ts_destroyed s = []"
  shows "\<exists>s'. conn_effects thread ob es s = Some s' \<and> srv_env s' = srv_env s \<and>
    (thread \<noteq> 0 \<or> TcpClose \<notin> set es \<longrightarrow> ts_connections s' = ts_connections s)"
  using assms
proof (induction es arbitrary: s)
  case (Cons e es)
  obtain u where u: "conn_effect thread ob e s = Some u" "srv_env u = srv_env s"
    "thread \<noteq> 0 \<or> e \<noteq> TcpClose \<longrightarrow> ts_connections u = ts_connections s"
    using conn_effect_total [OF Cons.prems] by metis
  have "ts_destroyed u = []" using u(2) Cons.prems by (simp add: srv_env_def)
  from Cons.IH [OF this] u show ?case by auto
qed simp

lemma on_conn_total:
  assumes "ts_destroyed s = []"
  shows "\<exists>s'. on_conn thread ob f s = Some s' \<and> srv_env s' = srv_env s \<and>
    (thread \<noteq> 0 \<or> TcpClose \<notin> set (snd (f (sc_conn (ts_objects s ! ob)))) \<longrightarrow> ts_connections s' = ts_connections s)"
proof -
  have "srv_env (set_conn ob c s) = srv_env s" for c
    by (simp add: srv_env_def set_conn_def map_update)
      (metis list_update_id map_update not_le_imp_less list_update_beyond nth_map length_map)
  then show ?thesis
    using conn_effects_total [of "set_conn ob _ s" thread ob] assms unfolding on_conn_set by (metis set_conn_simps(2,5))
qed

text \<open>The server has loops besides the base loop and nobody has stopped it.\<close>

definition pooled :: "tcp_server \<Rightarrow> bool" where
  "pooled s \<longleftrightarrow>
     ts_destroyed s = [] \<and> ts_stopPhase s = NoStop \<and> \<not> ts_stopping s \<and> StopTask \<notin> set (ts_queues s 0) \<and>
     tp_numThreads (ts_threadPool s) > 0 \<and> ts_freshLoop s > 0 \<and>
     (\<forall>l \<in> set (tp_loops (ts_threadPool s)). \<exists>k. l = Some (Suc k)) \<and>
     (ac_listening (ts_acceptor s) \<or> tp_started (ts_threadPool s) \<longrightarrow> tp_loops (ts_threadPool s) \<noteq> []) \<and>
     (\<forall>l \<in> set (map sc_loop (ts_objects s)). l \<noteq> 0)"

lemma pooled_env: "srv_env s' = srv_env s \<Longrightarrow> pooled s \<Longrightarrow> pooled s'"
  unfolding pooled_def srv_env_def by (elim conjE Pair_inject) (simp only: simp_thms)

lemma check_idle_total:
  assumes "ts_destroyed s = []" and "\<forall>l \<in> set (map sc_loop (ts_objects s)). l \<noteq> 0" and "distinct (map fst es)"
    and "\<forall>e \<in> set es. e \<in> set (ts_connections s) \<and> snd e < length (ts_objects s)"
  shows "\<exists>s'. check_idle clock es s = Some s' \<and> srv_env s' = srv_env s"
  using assms
proof (induction es arbitrary: s)
  case (Cons e es)
  obtain name ob where e: "e = (name, ob)" by fastforce
  have "conn_loop s ob \<noteq> 0" using Cons.prems(2,4) by (simp add: e)
  then have noclose: "TcpClose \<notin> set (snd (forceClose (0 = conn_loop s ob) c))" for c by (simp add: forceClose_def)
  obtain u where u: "force_close 0 ob s = Some u" "srv_env u = srv_env s" "ts_connections u = ts_connections s"
    using on_conn_total [OF Cons.prems(1), of 0 ob "forceClose (0 = conn_loop s ob)"] noclose unfolding force_close_def by blast
  let ?v = "erase_conn name u"
  have v: "srv_env ?v = srv_env s" "ts_connections ?v = filter (\<lambda>(k, _). k \<noteq> name) (ts_connections s)"
    using u(2,3) by (simp_all add: erase_conn_def srv_env_def Let_def)
  have same: "ts_destroyed ?v = []" "map sc_loop (ts_objects ?v) = map sc_loop (ts_objects s)"
    using v(1) Cons.prems(1) by (simp_all add: srv_env_def)
  have "length (ts_objects ?v) = length (ts_objects s)" using arg_cong [OF same(2), of length] by simp
  then have "\<exists>s'. check_idle clock es ?v = Some s' \<and> srv_env s' = srv_env ?v"
    using Cons.prems(2-4) same v(2) by (intro Cons.IH) (force simp: e)+
  moreover have "name \<in> fst ` set (ts_connections u)" using Cons.prems(4) u(3) by (force simp: e)
  moreover have "\<exists>s'. check_idle clock es s = Some s' \<and> srv_env s' = srv_env s" using Cons by simp
  ultimately show ?case using u(1) v(1) by (simp add: e)
qed simp

lemma pooled_next_loop:
  assumes "pooled s" and "ac_listening (ts_acceptor s)"
  obtains k pool where "getNextLoop (ts_threadPool s) = (Some (Suc k), pool)" "tp_loops pool = tp_loops (ts_threadPool s)"
    "tp_numThreads pool = tp_numThreads (ts_threadPool s)" "tp_started pool = tp_started (ts_threadPool s)"
proof -
  let ?p = "ts_threadPool s"
  let ?i = "unat (tp_next ?p) mod length (tp_loops ?p)"
  have "tp_loops ?p ! ?i \<in> set (tp_loops ?p)" using assms by (intro nth_mem) (simp add: pooled_def)
  then obtain k where "tp_loops ?p ! ?i = Some (Suc k)" using assms(1) unfolding pooled_def by blast
  then show ?thesis using assms that [of k "?p\<lparr>tp_next := tp_next ?p + 1\<rparr>"] by (simp add: getNextLoop_def pooled_def)
qed

lemma newConnection_pooled:
  assumes "pooled s" and "ac_listening (ts_acceptor s)"
  shows "\<exists>s'. newConnection fd now1 now2 s = Some s' \<and> pooled s'"
proof -
  obtain k pool where l: "getNextLoop (ts_threadPool s) = (Some (Suc k), pool)" "tp_loops pool = tp_loops (ts_threadPool s)"
    "tp_numThreads pool = tp_numThreads (ts_threadPool s)" "tp_started pool = tp_started (ts_threadPool s)"
    by (rule pooled_next_loop [OF assms])
  have "\<exists>s'. queue_task (Suc k) (Establish ob) u = Some s' \<and> pooled s'" if "pooled u" for u ob
  proof -
    have "ts_destroyed u = []" using that by (simp add: pooled_def)
    from queue_task_total [OF this, of "Suc k" "Establish ob"] show ?thesis using pooled_env [OF _ that] by auto
  qed
  then show ?thesis
    unfolding newConnection_def l(1) prod.case option.case Let_def if_not_P [OF nat.distinct(2)]
    using assms(1) by (auto simp: pooled_def l(2-4))
qed

lemma run_threads_started:
  assumes "\<not> tp_started p" and "tp_numThreads p > 0"
  shows "tp_loops (run_threads made [0..<tp_numThreads p] (pool_start p)) = map (\<lambda>i. Some (made i)) [0..<tp_numThreads p]"
proof (rule nth_equalityI)
  have len: "length (tp_loops (pool_start p)) = tp_numThreads p" using assms by (simp add: pool_start_def)
  then show "length (tp_loops (run_threads made [0..<tp_numThreads p] (pool_start p))) = length (map (\<lambda>i. Some (made i)) [0..<tp_numThreads p])"
    by (simp add: run_threads_simps)
  fix i assume "i < length (tp_loops (run_threads made [0..<tp_numThreads p] (pool_start p)))"
  then show "tp_loops (run_threads made [0..<tp_numThreads p] (pool_start p)) ! i = map (\<lambda>i. Some (made i)) [0..<tp_numThreads p] ! i"
    using run_threads_loops [of "[0..<tp_numThreads p]" i "pool_start p" made] len by (simp add: run_threads_simps)
qed

lemma start_pooled: "pooled s \<Longrightarrow> pooled (snd (tcp_start listened timerId s))"
proof -
  assume p: "pooled s"
  have "pooled (start_pool (s\<lparr>ts_started := True\<rparr>)) \<and> tp_loops (ts_threadPool (start_pool (s\<lparr>ts_started := True\<rparr>))) \<noteq> []"
  proof (cases "tp_started (ts_threadPool s)")
    case False
    let ?p = "ts_threadPool s"
    have n: "tp_numThreads ?p > 0" "ts_freshLoop s > 0" using p by (simp_all add: pooled_def)
    have "tp_numThreads (pool_start ?p) = tp_numThreads ?p" by (simp add: pool_start_def)
    then show ?thesis
      using p False n run_threads_started [OF False n(1), of "\<lambda>i. ts_freshLoop s + i"]
      by (auto simp: start_pool_def pooled_def Let_def run_threads_simps gr0_conv_Suc)
  qed (use p in \<open>simp add: start_pool_def pooled_def\<close>)
  then show ?thesis
    using p by (auto simp: tcp_start_def Let_def pooled_def split: sum.split)
qed

fun stops :: "srv_op \<Rightarrow> bool" where
  "stops (SrvStop _) = True"
| "stops _ = False"

lemma run_task_pooled:
  assumes "pooled s" and "ts_queues s l = t # ts" and "srv_ok s"
  shows "\<exists>s'. run_task l now t (s\<lparr>ts_queues := (ts_queues s)(l := ts)\<rparr>) = Some s' \<and> pooled s'"
proof -
  let ?u = "s\<lparr>ts_queues := (ts_queues s)(l := ts)\<rparr>"
  have u: "pooled ?u" using assms(1,2) by (auto simp: pooled_def)
  have d: "ts_destroyed ?u = []" using u by (simp add: pooled_def)
  have conn: "\<exists>s'. on_conn l ob f ?u = Some s' \<and> pooled s'" for ob f
    using on_conn_total [OF d, of l ob f] pooled_env [OF _ u] by blast
  show ?thesis
  proof (cases t)
    case (RemoveConn ob)
    then show ?thesis
      using conn_effect_total [OF d, of 0 ob TcpClose] pooled_env [OF _ u] u by (auto simp: removeConnection_def pooled_def [of ?u])
  next
    case StopTask
    then have "l = 0" using srv_ok_task [OF assms(3), of t l] assms(2) by simp
    then show ?thesis using StopTask assms(1,2) by (simp add: pooled_def)
  next
    case StopAccept
    then show ?thesis using u by (auto simp: pooled_def acceptor_stop_def)
  next
    case Quit
    then show ?thesis using u by (simp add: pooled_def)
  qed (use conn in simp_all)
qed

lemma step_pooled:
  assumes "pooled s" and "\<not> stops x" and "srv_inv s"
  shows "\<exists>s'. srv_step x s = Some s' \<and> pooled s'"
proof -
  have d: "ts_destroyed s = []" using assms(1) by (simp add: pooled_def)
  have ok: "srv_ok s" using assms(3) by (simp add: srv_inv_def)
  have conn: "\<exists>s'. on_conn l ob f s = Some s' \<and> pooled s'" for l ob f
    using on_conn_total [OF d, of l ob f] pooled_env [OF _ assms(1)] by blast
  show ?thesis
  proof (cases x)
    case (SrvStart listened timerId)
    then show ?thesis using start_pooled [OF assms(1)] by simp
  next
    case (SrvAccept fd now1 now2)
    then show ?thesis using newConnection_pooled [OF assms(1)] assms(1) by simp
  next
    case (SrvIdle clock)
    have entries: "\<forall>e \<in> set (ts_connections s). e \<in> set (ts_connections s) \<and> snd e < length (ts_objects s)"
      using srv_ok_entry(1) [OF ok] by auto
    have "fst e = conn_name (snd e)" if "e \<in> set (ts_connections s)" for e
      using srv_ok_entry(2) [OF ok, of "fst e" "snd e"] that by simp
    then have "map fst (ts_connections s) = map conn_name (map snd (ts_connections s))" by simp
    then have "distinct (map fst (ts_connections s))"
      using ok by (simp add: srv_ok_def distinct_map inj_on_def del: map_map)
    from check_idle_total [OF d _ this entries, of clock] show ?thesis
      using SrvIdle assms(1) pooled_env [OF _ assms(1)] by (auto simp: pooled_def [of s] checkIdleConnections_def)
  next
    case (SrvRun l now)
    then show ?thesis using run_task_pooled [OF assms(1) _ ok] assms(1) by (cases "ts_queues s l") simp_all
  next
    case (SrvStopAccepting onBase)
    then show ?thesis
      using assms(1) queue_task_total [OF d, of 0 StopAccept] pooled_env [OF _ assms(1)]
      by (auto simp: stopAccepting_def pooled_def [of "_\<lparr>ts_acceptor := _\<rparr>"] acceptor_stop_def) (auto simp: pooled_def)
  qed (use conn assms in \<open>auto simp: pooled_def [of s]\<close>)
qed

section \<open>Properties\<close>

text \<open>The base loop and the loops of the connections have no functor left to run.\<close>

definition quiet :: "tcp_server \<Rightarrow> bool" where
  "quiet s \<longleftrightarrow> ts_queues s 0 = [] \<and> list_all (\<lambda>c. ts_queues s (sc_loop c) = []) (ts_objects s)"

definition live_conns :: "tcp_server \<Rightarrow> nat list" where
  "live_conns s = filter (\<lambda>ob. conn_state s ob \<noteq> TcpDisconnected) [0..<length (ts_objects s)]"

text \<open>C12: In every interleaving of the loops of a server with accepts, closes by peers, idle checks, shutdowns, starts and
  stops that performs no undefined operation: when the loops have run their functors, no connection that is still open is
  missing from the server's table; and unless the server was stopped, the table holds exactly the open
  connections, each once, and the gauge of active connections is their number.
\<close>

theorem tcp_server_table:
  assumes "srv_run xs (new_tcp_server a pool) = Some s" and "length xs < 2 ^ 64 - 1" and "quiet s"
  shows "set (live_conns s) \<subseteq> set (map snd (ts_connections s)) \<and>
    (\<not> ts_stopping s \<longrightarrow>
       mset (map snd (ts_connections s)) = mset (live_conns s) \<and> ts_activeConnections s = length (live_conns s))"
proof -
  have "srv_inv s" using srv_run_inv [OF assms(1) new_tcp_server_inv] assms(2) by (simp add: new_tcp_server_def)
  then have ok: "srv_ok s" "\<And>ob. ob < length (ts_objects s) \<Longrightarrow> conn_ok s ob" by (simp_all add: srv_inv_def)
  have q: "ts_queues s 0 = []" "\<And>ob. ob < length (ts_objects s) \<Longrightarrow> own_tasks s ob = []"
    using assms(3) by (simp_all add: quiet_def own_tasks_def list_all_length)
  have open_in: "in_table s ob" if "ob < length (ts_objects s)" "conn_state s ob \<noteq> TcpDisconnected" for ob
    using ok(2) [OF that(1)] q(2) [OF that(1)] that(2) by (auto simp: conn_ok_def)
  have sub: "set (live_conns s) \<subseteq> set (map snd (ts_connections s))"
    using open_in by (auto simp: live_conns_def in_table_def)
  moreover have "mset (map snd (ts_connections s)) = mset (live_conns s)" if "\<not> ts_stopping s"
  proof -
    have "ob \<in> set (live_conns s)" if "ob \<in> set (map snd (ts_connections s))" for ob
    proof -
      have lt: "ob < length (ts_objects s)" using that srv_ok_entry(1) [OF ok(1)] by fastforce
      have "in_table s ob" using that by (simp add: in_table_def)
      then show ?thesis using ok(2) [OF lt] q(1) lt \<open>\<not> ts_stopping s\<close> by (auto simp: conn_ok_def live_conns_def)
    qed
    then have "set (map snd (ts_connections s)) = set (live_conns s)" using sub by blast
    moreover have "distinct (map snd (ts_connections s))" "distinct (live_conns s)" using ok(1) by (simp_all add: srv_ok_def live_conns_def)
    ultimately show ?thesis using set_eq_iff_mset_eq_distinct by blast
  qed
  moreover have "ts_activeConnections s = length (live_conns s)" if "\<not> ts_stopping s"
    using ok(1) that calculation(2) [OF that] mset_eq_length [of "map snd (ts_connections s)" "live_conns s"] by (simp add: srv_ok_def)
  ultimately show ?thesis by blast
qed

text \<open>A server with \<open>n\<close> threads of its own.\<close>

definition example_server :: "int \<Rightarrow> tcp_server" where
  "example_server n = new_tcp_server (projr (fst (new_acceptor 3 1 0))) (projr (new_thread_pool (Some 0) n))"

text \<open>The definitions that evaluate an execution.\<close>

lemmas srv_eval = example_server_def new_acceptor_def new_thread_pool_def new_tcp_server_def setNewConnectionCallback_def tcp_start_def
  start_pool_def pool_start_def run_threads_def threadFunc_def acceptor_listen_def newConnection_def getNextLoop_def queue_task_def
  on_conn_def connectEstablished_def can_run_def conn_runs_def new_tcp_conn_def tcp_handleClose_def removeConnection_def
  removeConnectionInLoop_def erase_conn_def checkIdleConnections_def force_close_def forceClose_def forceCloseInLoop_def
  isIdleFor_def idleTimeout_def connectDestroyed_def stop_on_base_def stopInLoop_def acceptor_stop_def quit_loops_def
  pool_quit_loops_def join_pool_def pool_stop_def quiet_def live_conns_def dec_string_step msec_def Let_def lit_def
  numeral_2_eq_2

definition table_example :: "srv_op list" where
  "table_example = [SrvStart 0 1, SrvAccept 7 0 0, SrvAccept 8 0 0, SrvRun 1 0, SrvRun 2 0, SrvClose 0, SrvRun 0 0, SrvRun 1 0]"

theorem tcp_server_table_witness:
  "case srv_run table_example (example_server 2) of None \<Rightarrow> False
   | Some s \<Rightarrow> map snd (ts_connections s) = [1] \<and> ts_activeConnections s = 1"
proof -
  have run: "case srv_run table_example (example_server 2) of None \<Rightarrow> False
      | Some s \<Rightarrow> quiet s \<and> \<not> ts_stopping s \<and> live_conns s = [1]"
    by (simp add: table_example_def srv_eval)
  then obtain s where s: "srv_run table_example (example_server 2) = Some s" "quiet s" "\<not> ts_stopping s" "live_conns s = [1]"
    by (auto split: option.splits)
  have "length table_example < 2 ^ 64 - 1" by (simp add: table_example_def)
  from tcp_server_table [OF s(1) [unfolded example_server_def] this s(2)] show ?thesis
    using s by (simp del: mset_map)
qed

text \<open>C23: A server whose pool has threads of its own and that nobody stops performs no undefined operation in any
  interleaving: it never uses an erased entry of its table, a missing loop or a destroyed loop.
\<close>

theorem tcp_server_safe:
  assumes "new_acceptor sock pton bound = (Inr a, effs)" and "new_thread_pool (Some 0) n = Inr pool" and "n > 0"
    and "list_all (\<lambda>x. \<not> stops x) xs" and "length xs < 2 ^ 64 - 1"
  shows "srv_run xs (new_tcp_server a pool) \<noteq> None"
proof -
  have "\<not> ac_listening a" using assms(1) by (auto simp: new_acceptor_def split: if_splits)
  moreover have "tp_numThreads pool > 0" "\<not> tp_started pool" "tp_loops pool = []"
    using assms(2,3) by (auto simp: new_thread_pool_def)
  ultimately have new: "pooled (new_tcp_server a pool)"
    by (simp add: pooled_def new_tcp_server_def setNewConnectionCallback_def)
  have "\<exists>s'. srv_run xs s = Some s'"
    if "pooled s" "srv_inv s" "length (ts_objects s) + length xs < 2 ^ 64 - 1" "list_all (\<lambda>x. \<not> stops x) xs" for s
    using that
  proof (induction xs arbitrary: s)
    case (Cons x xs)
    obtain u where u: "srv_step x s = Some u" "pooled u" using step_pooled [of s x] Cons.prems by auto
    have "srv_inv u" using srv_step_inv [OF u(1) Cons.prems(2)] Cons.prems(3) by simp
    moreover have "length (ts_objects u) \<le> Suc (length (ts_objects s))" by (rule srv_step_length [OF u(1)])
    ultimately show ?case using Cons.IH [OF u(2)] Cons.prems(3,4) u(1) by simp
  qed simp
  from this [OF new new_tcp_server_inv] show ?thesis using assms(4,5) by (auto simp: new_tcp_server_def)
qed

theorem tcp_server_safe_witness: "srv_run table_example (example_server 2) \<noteq> None"
proof -
  have a: "new_acceptor 3 1 0 = (Inr (projr (fst (new_acceptor 3 1 0))), [])" by (simp add: new_acceptor_def)
  have p: "new_thread_pool (Some (0 :: nat)) 2 = Inr (projr (new_thread_pool (Some 0) 2))" by (simp add: new_thread_pool_def)
  show ?thesis
    unfolding example_server_def by (rule tcp_server_safe [OF a p]) (simp_all add: table_example_def)
qed

section \<open>Where it fails\<close>

text \<open>
  With no thread of its own the idle check erases the entry of an idle connection inside \<^verbatim>\<open>forceClose\<close> and then uses the
  iterator to it.
\<close>

lemma idle_check_single_loop:
  "srv_run [SrvStart 0 1, SrvAccept 7 0 0, SrvIdle (\<lambda>_. msec 30000)] (example_server 0) = None"
  by (simp add: srv_eval)

text \<open>A peer closes and, before the base loop has removed that connection, the server is stopped on it.\<close>

lemma stop_uses_destroyed_loop:
  "srv_run [SrvStart 0 1, SrvAccept 7 0 0, SrvRun 1 0, SrvClose 0, SrvStop True, SrvRun 1 0, SrvRun 1 0, SrvJoin, SrvRun 0 0]
     (example_server 1) = None"
  by (simp add: srv_eval)

text \<open>After a stop the flag \<^verbatim>\<open>stopping_\<close> stays set: a server that is started again never removes a closed connection.\<close>

lemma restart_keeps_closed:
  "map_option (\<lambda>s. (quiet s, map snd (ts_connections s), live_conns s))
     (srv_run [SrvStart 0 1, SrvStop True, SrvRun 1 0, SrvJoin, SrvStart 0 1, SrvAccept 7 0 0, SrvRun 2 0, SrvClose 0] (example_server 1)) =
     Some (True, [0], [])"
  by (simp add: srv_eval)

text \<open>After a stop the gauge still shows the connections there were.\<close>

lemma stop_leaves_gauge:
  "map_option (\<lambda>s. (ts_connections s, ts_activeConnections s))
     (srv_run [SrvStart 0 1, SrvAccept 7 0 0, SrvStop True] (example_server 1)) = Some ([], 1)"
  by (simp add: srv_eval)

end
