(* ===== verification/Logger.thy ===== *)
theory Logger
  imports Accounting "HOL-Library.Sublist"
begin

text \<open>
  \<^verbatim>\<open>src/Logger.cpp\<close>: \<^verbatim>\<open>log\<close> formats a line and appends it to a queue under the mutex, a worker thread swaps the
  queue into a local one and writes the lines to \<^verbatim>\<open>rpc.log\<close>. The text of the clock (\<^verbatim>\<open>localtime_r\<close> and
  \<^verbatim>\<open>put_time\<close>) and whether the file could be opened are arguments. An execution is an interleaving of
  loggers, the worker and the destructor; a worker step is a section under the mutex or the writing of one line.
\<close>

section \<open>Lines\<close>

datatype level = Info | Error

definition levelToString :: "level \<Rightarrow> bytes" where
  "levelToString l = (case l of Info \<Rightarrow> lit ''INFO'' | Error \<Rightarrow> lit ''ERROR'')"

definition log_line :: "bytes \<Rightarrow> level \<Rightarrow> bytes \<Rightarrow> nat \<Rightarrow> bytes \<Rightarrow> bytes" where
  "log_line timestamp level file line message =
     timestamp @ lit '' ['' @ levelToString level @ lit ''] '' @ file @ lit '':'' @ dec_string line @ lit '' - '' @ message"

section \<open>The logger\<close>

datatype log_worker =
    LogLoop                    \<comment> \<open>at the lock of the loop\<close>
  | LogWriting "bytes list"    \<comment> \<open>\<^verbatim>\<open>localQueue\<close>, the lines still to write\<close>
  | LogLeaving                 \<comment> \<open>out of the loop, before the last swap\<close>
  | LogRemaining "bytes list"
  | LogExited

record logger =
  lg_running :: bool
  lg_queue :: "bytes list"
  lg_open :: bool
  lg_file :: "bytes list"      \<comment> \<open>the lines appended to \<^verbatim>\<open>rpc.log\<close>\<close>
  lg_worker :: log_worker

definition new_logger :: "bool \<Rightarrow> logger" where
  "new_logger opened = \<lparr>lg_running = True, lg_queue = [], lg_open = opened, lg_file = [], lg_worker = LogLoop\<rparr>"

definition log_message :: "bytes \<Rightarrow> level \<Rightarrow> bytes \<Rightarrow> nat \<Rightarrow> bytes \<Rightarrow> logger \<Rightarrow> logger" where
  "log_message timestamp level file line message g =
     g\<lparr>lg_queue := lg_queue g @ [log_line timestamp level file line message]\<rparr>"

definition logger_stop :: "logger \<Rightarrow> logger" where
  "logger_stop g = g\<lparr>lg_running := False\<rparr>"

definition write_line :: "bytes \<Rightarrow> logger \<Rightarrow> logger" where
  "write_line l g = (if lg_open g then g\<lparr>lg_file := lg_file g @ [l]\<rparr> else g)"

definition workerLoop_step :: "logger \<Rightarrow> logger" where
  "workerLoop_step g =
     (case lg_worker g of
        LogLoop \<Rightarrow>
          if lg_queue g = [] then (if lg_running g then g else g\<lparr>lg_worker := LogLeaving\<rparr>)
          else g\<lparr>lg_queue := [], lg_worker := LogWriting (lg_queue g)\<rparr>
      | LogWriting [] \<Rightarrow> g\<lparr>lg_worker := LogLoop\<rparr>
      | LogWriting (l # ls) \<Rightarrow> (write_line l g)\<lparr>lg_worker := LogWriting ls\<rparr>
      | LogLeaving \<Rightarrow> g\<lparr>lg_queue := [], lg_worker := LogRemaining (lg_queue g)\<rparr>
      | LogRemaining [] \<Rightarrow> g\<lparr>lg_worker := LogExited\<rparr>
      | LogRemaining (l # ls) \<Rightarrow> (write_line l g)\<lparr>lg_worker := LogRemaining ls\<rparr>
      | LogExited \<Rightarrow> g)"

section \<open>Executions\<close>

datatype log_op =
    Log bytes level bytes nat bytes
  | LogWork
  | LogStop

fun log_step :: "log_op \<Rightarrow> logger \<Rightarrow> logger" where
  "log_step (Log timestamp level file line message) g = log_message timestamp level file line message g"
| "log_step LogWork g = workerLoop_step g"
| "log_step LogStop g = logger_stop g"

fun logged_line :: "log_op \<Rightarrow> bytes list" where
  "logged_line (Log timestamp level file line message) = [log_line timestamp level file line message]"
| "logged_line _ = []"

definition logged :: "log_op list \<Rightarrow> bytes list" where
  "logged xs = concat (map logged_line xs)"

text \<open>The lines logged before the destructor runs.\<close>

fun before_stop :: "log_op list \<Rightarrow> bytes list" where
  "before_stop [] = []"
| "before_stop (LogStop # xs) = []"
| "before_stop (x # xs) = logged_line x @ before_stop xs"

fun in_hand :: "log_worker \<Rightarrow> bytes list" where
  "in_hand (LogWriting ls) = ls"
| "in_hand (LogRemaining ls) = ls"
| "in_hand _ = []"

fun past_last_swap :: "log_worker \<Rightarrow> bool" where
  "past_last_swap (LogRemaining _) = True"
| "past_last_swap LogExited = True"
| "past_last_swap _ = False"

definition taken :: "logger \<Rightarrow> bytes list" where
  "taken g = lg_file g @ in_hand (lg_worker g)"

lemma logged_simps [simp]: "logged [] = []" "logged (x # xs) = logged_line x @ logged xs"
  by (simp_all add: logged_def)

lemma log_step_stream:
  assumes "lg_open g"
  shows "lg_open (log_step x g) \<and>
    taken (log_step x g) @ lg_queue (log_step x g) = taken g @ lg_queue g @ logged_line x"
  using assms
  by (cases x) (auto simp: taken_def log_message_def logger_stop_def workerLoop_step_def write_line_def
      split: log_worker.split list.split)

lemma log_run_stream:
  "lg_open g \<Longrightarrow> taken (fold log_step xs g) @ lg_queue (fold log_step xs g) = taken g @ lg_queue g @ logged xs"
proof (induction xs arbitrary: g)
  case (Cons x xs)
  then show ?case using log_step_stream [OF Cons.prems, of x] Cons.IH [of "log_step x g"] by simp
qed simp

text \<open>The worker leaves the loop only after the destructor has begun.\<close>

definition log_ok :: "logger \<Rightarrow> bool" where
  "log_ok g \<longleftrightarrow> lg_open g \<and> (lg_running g \<longrightarrow> lg_worker g \<noteq> LogLeaving \<and> \<not> past_last_swap (lg_worker g))"

lemma log_ok_step: "log_ok g \<Longrightarrow> log_ok (log_step x g)"
  by (cases x) (auto simp: log_ok_def log_message_def logger_stop_def workerLoop_step_def write_line_def
      split: log_worker.split list.split)

lemma log_run_ok: "log_ok g \<Longrightarrow> log_ok (fold log_step xs g)"
  by (induction xs arbitrary: g) (simp_all add: log_ok_step)

text \<open>Once the destructor has begun, the last swap takes every line that was queued then.\<close>

definition covers :: "bytes list \<Rightarrow> logger \<Rightarrow> bool" where
  "covers ls g \<longleftrightarrow> lg_open g \<and> prefix ls (taken g @ lg_queue g) \<and> (past_last_swap (lg_worker g) \<longrightarrow> prefix ls (taken g))"

lemma covers_step:
  assumes "covers ls g"
  shows "covers ls (log_step x g)"
proof -
  have "prefix ls (taken (log_step x g) @ lg_queue (log_step x g))"
    using assms log_step_stream [of g x] prefix_prefix [of ls "taken g @ lg_queue g" "logged_line x"]
    by (simp add: covers_def)
  moreover have "past_last_swap (lg_worker (log_step x g)) \<longrightarrow> prefix ls (taken (log_step x g))"
    using assms
    by (cases x) (auto simp: covers_def taken_def log_message_def logger_stop_def workerLoop_step_def write_line_def
        split: log_worker.splits list.splits)
  ultimately show ?thesis using assms log_step_stream [of g x] by (simp add: covers_def)
qed

lemma covers_run: "covers ls g \<Longrightarrow> covers ls (fold log_step xs g)"
  by (induction xs arbitrary: g) (simp_all add: covers_step)

lemma stop_covers: "log_ok g \<Longrightarrow> lg_running g \<Longrightarrow> covers (taken g @ lg_queue g) (logger_stop g)"
  by (simp add: log_ok_def covers_def logger_stop_def taken_def)

lemma log_running_step: "lg_running (log_step x g) \<longleftrightarrow> lg_running g \<and> x \<noteq> LogStop"
  by (cases x) (auto simp: log_message_def logger_stop_def workerLoop_step_def write_line_def
      split: log_worker.split list.split)

lemma exited_covers:
  "log_ok g \<Longrightarrow> lg_running g \<Longrightarrow> \<not> lg_running (fold log_step xs g) \<Longrightarrow>
    covers (taken g @ lg_queue g @ before_stop xs) (fold log_step xs g)"
proof (induction xs arbitrary: g)
  case (Cons x xs)
  show ?case
  proof (cases "x = LogStop")
    case True
    then show ?thesis using covers_run [OF stop_covers [OF Cons.prems(1,2)], of xs] by simp
  next
    case False
    then have "before_stop (x # xs) = logged_line x @ before_stop xs" by (cases x) simp_all
    then show ?thesis
      using Cons.IH [OF log_ok_step [OF Cons.prems(1)], of x] Cons.prems log_running_step [of x g]
        log_step_stream [of g x] False
      by (simp add: log_ok_def) (metis append.assoc)
  qed
qed simp

section \<open>Properties\<close>

text \<open>C38: With the log file open, in every interleaving of loggers, worker and destructor the file holds a prefix of
  the logged lines, in the order in which they were logged; and when the worker has ended, the file holds at
  least every line that was logged before the destructor began.
\<close>

theorem logger_in_order:
  "prefix (lg_file (fold log_step xs (new_logger True))) (logged xs) \<and>
   (lg_worker (fold log_step xs (new_logger True)) = LogExited \<longrightarrow>
      prefix (before_stop xs) (lg_file (fold log_step xs (new_logger True))))"
proof -
  let ?g = "fold log_step xs (new_logger True)"
  have new: "log_ok (new_logger True)" "lg_open (new_logger True)" "lg_running (new_logger True)"
    "taken (new_logger True) @ lg_queue (new_logger True) = []"
    by (simp_all add: new_logger_def log_ok_def taken_def)
  have "taken ?g @ lg_queue ?g = logged xs"
    using log_run_stream [OF new(2), of xs] new(4) by simp
  then have "prefix (lg_file ?g) (logged xs)" by (metis taken_def append.assoc prefixI)
  moreover have "prefix (before_stop xs) (lg_file ?g)" if "lg_worker ?g = LogExited"
  proof -
    have "log_ok ?g" using new(1) by (rule log_run_ok)
    then have "\<not> lg_running ?g" using that by (auto simp: log_ok_def)
    then have "covers (before_stop xs) ?g" using exited_covers [OF new(1,3)] new(4) by simp
    then show ?thesis using that by (simp add: covers_def taken_def)
  qed
  ultimately show ?thesis by simp
qed

definition log_example :: "log_op list" where
  "log_example = [Log (lit ''t0'') Info (lit ''a.cpp'') 12 (lit ''up''), LogWork, Log (lit ''t1'') Error (lit ''a.cpp'') 7 (lit ''down''),
     LogStop, LogWork, LogWork, LogWork, LogWork, LogWork, LogWork, LogWork, LogWork, LogWork]"

theorem logger_in_order_witness:
  "lg_file (fold log_step log_example (new_logger True)) = [lit ''t0 [INFO] a.cpp:12 - up'', lit ''t1 [ERROR] a.cpp:7 - down'']
   \<and> prefix (before_stop log_example) (lg_file (fold log_step log_example (new_logger True)))"
proof -
  have "lg_worker (fold log_step log_example (new_logger True)) = LogExited" by code_simp
  then show ?thesis
    using logger_in_order [of log_example] by (auto intro: conjI) code_simp
qed

end
