(* ===== verification/Tracing.thy ===== *)
theory Tracing
  imports Logger
begin

text \<open>
  \<^verbatim>\<open>src/Tracing.cpp\<close>: trace ids and the log line of a span. The random number that becomes a new trace id is an
  argument wherever the sources call \<^verbatim>\<open>generateTraceId\<close>.
\<close>

record span_record =
  sp_traceId :: u64
  sp_methodId :: u32
  sp_methodName :: "bytes option"     \<comment> \<open>\<^verbatim>\<open>const char*\<close>, possibly null\<close>
  sp_status :: u16
  sp_latencyMs :: int
  sp_side :: bytes

definition shouldSample :: "u64 \<Rightarrow> bool" where
  "shouldSample traceId = True"

definition hex_digit :: "nat \<Rightarrow> byte" where
  "hex_digit d = (if d < 10 then 0x30 + of_nat d else 0x61 + of_nat (d - 10))"

text \<open>\<^verbatim>\<open>snprintf("%016llx")\<close>: sixteen lower-case hexadecimal digits, the most significant first.\<close>

definition formatTraceId :: "u64 \<Rightarrow> bytes" where
  "formatTraceId traceId = map (\<lambda>i. hex_digit (unat (drop_bit (4 * (15 - i)) traceId AND 0xF))) [0..<16]"

definition int_string :: "int \<Rightarrow> bytes" where
  "int_string n = (if n < 0 then lit ''-'' @ dec_string (nat (- n)) else dec_string (nat n))"

definition span_message :: "span_record \<Rightarrow> bytes" where
  "span_message sp =
     lit ''[trace] span trace='' @ formatTraceId (sp_traceId sp) @ lit '' side='' @ sp_side sp @
     lit '' method='' @ (case sp_methodName sp of None \<Rightarrow> [] | Some name \<Rightarrow> name) @
     lit '' status='' @ dec_string (unat (sp_status sp)) @ lit '' latency_ms='' @ int_string (sp_latencyMs sp)"

definition recordSpan :: "bytes \<Rightarrow> bytes \<Rightarrow> nat \<Rightarrow> span_record \<Rightarrow> logger \<Rightarrow> logger" where
  "recordSpan timestamp file line sp g = log_message timestamp Info file line (span_message sp) g"

section \<open>Reading a trace id back\<close>

definition of_hex_digit :: "byte \<Rightarrow> nat" where
  "of_hex_digit b = (if b < 0x3A then unat b - 0x30 else unat b - 0x57)"

definition of_hex :: "bytes \<Rightarrow> u64" where
  "of_hex bs = foldl (\<lambda>w b. push_bit 4 w OR of_nat (of_hex_digit b)) 0 bs"

lemma of_hex_digit_hex_digit: "d < 16 \<Longrightarrow> of_hex_digit (hex_digit d) = d"
proof -
  have "\<forall>d \<in> {0..<16}. of_hex_digit (hex_digit d) = d" by code_simp
  then show "d < 16 \<Longrightarrow> of_hex_digit (hex_digit d) = d" by simp
qed

lemma nibble: "unat (w AND 0xF :: u64) < 16"
proof -
  have "w AND 0xF = take_bit 4 w" by (simp add: take_bit_eq_mask mask_numeral)
  then show ?thesis using take_bit_nat_less_exp [of 4 "unat w"] by (simp add: unsigned_take_bit_eq)
qed

text \<open>The digits read so far are the high part of the id.\<close>

lemma of_hex_prefix:
  "n \<le> 16 \<Longrightarrow> of_hex (map (\<lambda>i. hex_digit (unat (drop_bit (4 * (15 - i)) t AND 0xF))) [0..<n]) = drop_bit (4 * (16 - n)) t"
proof (induction n)
  case 0
  show ?case by (rule bit_word_eqI) (auto simp: of_hex_def bit_drop_bit_eq dest: bit_imp_le_length)
next
  case (Suc n)
  have "push_bit 4 (drop_bit (4 * (16 - n)) t) OR (drop_bit (4 * (15 - n)) t AND 0xF) = drop_bit (4 * (15 - n)) t"
  proof (rule bit_word_eqI)
    fix k assume k: "k < LENGTH(64)"
    have mask: "drop_bit (4 * (15 - n)) t AND 0xF = take_bit 4 (drop_bit (4 * (15 - n)) t)" by (simp add: take_bit_eq_mask mask_numeral)
    have "4 * (16 - n) + (k - 4) = 4 * (15 - n) + k" if "4 \<le> k" using Suc.prems that by simp
    then show "bit (push_bit 4 (drop_bit (4 * (16 - n)) t) OR (drop_bit (4 * (15 - n)) t AND 0xF)) k = bit (drop_bit (4 * (15 - n)) t) k"
      using k unfolding mask by (auto simp: bit_or_iff bit_push_bit_iff bit_drop_bit_eq bit_take_bit_iff)
  qed
  then show ?case
    using Suc by (simp add: of_hex_def of_hex_digit_hex_digit [OF nibble])
qed

section \<open>Properties\<close>

text \<open>A trace id is printed as exactly sixteen characters, each a lower-case hexadecimal digit, and the printed form reads
  back as the id, so that different traces never share a name in the log.
\<close>

theorem trace_id_roundtrip:
  "of_hex (formatTraceId t) = t \<and> length (formatTraceId t) = 16 \<and>
   set (formatTraceId t) \<subseteq> set (lit ''0123456789abcdef'')"
proof -
  have "\<forall>d \<in> {0..<16}. hex_digit d \<in> set (lit ''0123456789abcdef'')" by code_simp
  then have "set (formatTraceId t) \<subseteq> set (lit ''0123456789abcdef'')"
    unfolding formatTraceId_def set_map using nibble by force
  then show ?thesis using of_hex_prefix [of 16 t] by (simp add: formatTraceId_def)
qed

end
