(* ===== verification/Metrics.thy ===== *)
theory Metrics
  imports RpcPrelude
begin

text \<open>
  \<^verbatim>\<open>src/Histogram.cpp\<close> and \<^verbatim>\<open>src/Metrics.cpp\<close>: a latency histogram, request and status counters and their
  rendering in the Prometheus text format. Counters keep their width and wrap around. The theorems read the
  rendered text: a bucket line carries the number of observations below its bound, and the per-second
  counter reports each request in exactly one rotation.
\<close>

section \<open>Printing doubles\<close>

text \<open>
  \<^verbatim>\<open>printf("%.<P>g", x)\<close> for a finite double, which is also what \<^verbatim>\<open>ostream\<close> prints with \<open>P = 6\<close>: \<open>x\<close> is rounded to \<open>P\<close>
  significant digits, to even when two are as near; an exponent from -4 to below \<open>P\<close> gives positional notation,
  another one scientific notation; trailing zeros of the fraction are removed.
\<close>

definition round_even :: "rat \<Rightarrow> nat" where
  "round_even x =
     (let f = nat \<lfloor>x\<rfloor>; r = x - of_nat f in if r > 1/2 \<or> (r = 1/2 \<and> odd f) then f + 1 else f)"

definition pow10 :: "int \<Rightarrow> rat" where
  "pow10 k = (if k \<ge> 0 then 10 ^ nat k else 1 / 10 ^ nat (- k))"

text \<open>The decimal exponent of a positive number: the greatest \<open>k\<close> with \<open>10 ^ k \<le> x\<close>.\<close>

definition exponent10 :: "rat \<Rightarrow> int" where
  "exponent10 x =
     (if x \<ge> 1 then int (length (dec_string (nat \<lfloor>x\<rfloor>))) - 1
      else - int (length (dec_string (nat (\<lceil>1 / x\<rceil> - 1)))))"

definition pad_left :: "nat \<Rightarrow> bytes \<Rightarrow> bytes" where
  "pad_left n bs = replicate (n - length bs) 0x30 @ bs"

definition strip_zeros :: "bytes \<Rightarrow> bytes" where
  "strip_zeros bs = rev (dropWhile (\<lambda>b. b = 0x30) (rev bs))"

definition with_fraction :: "bytes \<Rightarrow> bytes \<Rightarrow> bytes" where
  "with_fraction whole decimals =
     (let f = strip_zeros decimals in if f = [] then whole else whole @ lit ''.'' @ f)"

definition fmt_positive :: "nat \<Rightarrow> rat \<Rightarrow> bytes" where
  "fmt_positive P x =
     (let k0 = exponent10 x; m0 = round_even (x * pow10 (int P - 1 - k0));
          (m, k) = (if m0 = 10 ^ P then (10 ^ (P - 1), k0 + 1) else (m0, k0))
      in if -4 \<le> k \<and> k < int P
         then let d = nat (int P - 1 - k) in with_fraction (dec_string (m div 10 ^ d)) (pad_left d (dec_string (m mod 10 ^ d)))
         else with_fraction (dec_string (m div 10 ^ (P - 1))) (pad_left (P - 1) (dec_string (m mod 10 ^ (P - 1))))
           @ lit ''e'' @ (if k < 0 then lit ''-'' else lit ''+'') @ pad_left 2 (dec_string (nat \<bar>k\<bar>)))"

definition fmt_g :: "nat \<Rightarrow> rat \<Rightarrow> bytes" where
  "fmt_g P x = (if x = 0 then lit ''0'' else if x < 0 then lit ''-'' @ fmt_positive P (- x) else fmt_positive P x)"

section \<open>Histogram\<close>

record histogram =
  hs_bounds :: "rat list"
  hs_counts :: "u64 list"
  hs_count :: u64
  hs_sumMs :: rat

definition new_histogram :: "rat list \<Rightarrow> histogram" where
  "new_histogram bounds =
     \<lparr>hs_bounds = bounds, hs_counts = replicate (length bounds + 1) 0, hs_count = 0, hs_sumMs = 0\<rparr>"

definition defaultLatencyBoundsMs :: "rounding \<Rightarrow> rat list" where
  "defaultLatencyBoundsMs rnd = map rnd [1/10, 1/2, 1, 5, 10, 50, 100, 500, 1000, 5000]"

text \<open>\<^verbatim>\<open>std::upper_bound\<close> on an ascending range: the position of the first element above the value.\<close>

definition upper_bound :: "rat list \<Rightarrow> rat \<Rightarrow> nat" where
  "upper_bound bs v = length (takeWhile (\<lambda>b. \<not> v < b) bs)"

definition observe :: "rounding \<Rightarrow> rat \<Rightarrow> histogram \<Rightarrow> histogram" where
  "observe rnd valueMs h =
     (let i = upper_bound (hs_bounds h) valueMs
      in h\<lparr>hs_counts := (hs_counts h)[i := hs_counts h ! i + 1], hs_count := hs_count h + 1,
           hs_sumMs := rnd (hs_sumMs h + valueMs)\<rparr>)"

definition bucket_line :: "bytes \<Rightarrow> bytes \<Rightarrow> u64 \<Rightarrow> bytes" where
  "bucket_line name le n = name @ lit ''_bucket{le='' @ [0x22] @ le @ [0x22] @ lit ''} '' @ dec_string (unat n) @ [0x0A]"

fun render_buckets :: "bytes \<Rightarrow> rat list \<Rightarrow> u64 list \<Rightarrow> u64 \<Rightarrow> bytes \<times> u64" where
  "render_buckets name (b # bs) (c # cs) cumulative =
     (let n = cumulative + c; (rest, final) = render_buckets name bs cs n
      in (bucket_line name (fmt_g 3 b) n @ rest, final))"
| "render_buckets name _ _ cumulative = ([], cumulative)"

definition hist_renderPrometheus :: "bytes \<Rightarrow> histogram \<Rightarrow> bytes" where
  "hist_renderPrometheus name h =
     (let (buckets, cumulative) = render_buckets name (hs_bounds h) (hs_counts h) 0;
          cumulative' = cumulative + hs_counts h ! length (hs_bounds h)
      in buckets @ bucket_line name (lit ''+Inf'') cumulative'
         @ name @ lit ''_sum '' @ fmt_g 6 (hs_sumMs h) @ [0x0A]
         @ name @ lit ''_count '' @ dec_string (unat (hs_count h)) @ [0x0A])"

lemmas fmt_g_eval = fmt_g_def fmt_positive_def exponent10_def pow10_def round_even_def with_fraction_def strip_zeros_def
  pad_left_def dec_string_step lit_def Let_def

lemma fmt_g_examples:
  "fmt_g 3 (1/10) = lit ''0.1''" "fmt_g 3 500 = lit ''500''" "fmt_g 3 5000 = lit ''5e+03''"
  "fmt_g 6 123456 = lit ''123456''"
  by (simp_all add: fmt_g_eval)

text \<open>The invariant: one counter per bound and one more.\<close>

definition hist_ok :: "histogram \<Rightarrow> bool" where
  "hist_ok h \<longleftrightarrow> length (hs_counts h) = Suc (length (hs_bounds h))"

text \<open>Reference: the number of observations with a property, as the 64-bit counter shows it.\<close>

definition tally :: "(rat \<Rightarrow> bool) \<Rightarrow> rat list \<Rightarrow> u64" where
  "tally p vs = of_nat (length (filter p vs))"

lemma upper_bound_le: "upper_bound bs v \<le> length bs"
  by (simp add: upper_bound_def length_takeWhile_le)

lemma upper_bound_less:
  assumes "sorted bs" and "i < length bs"
  shows "upper_bound bs v \<le> i \<longleftrightarrow> v < bs ! i"
proof
  assume le: "upper_bound bs v \<le> i"
  then have "\<not> \<not> v < bs ! upper_bound bs v"
    using assms(2) nth_length_takeWhile [of "\<lambda>b. \<not> v < b" bs] by (simp add: upper_bound_def)
  then show "v < bs ! i" using le assms sorted_nth_mono [of bs "upper_bound bs v" i] by simp
next
  assume "v < bs ! i"
  then show "upper_bound bs v \<le> i"
    using takeWhile_nth [of i "\<lambda>b. \<not> v < b" bs] set_takeWhileD nth_mem
    unfolding upper_bound_def by (metis not_le_imp_less)
qed

lemma sum_counts_update:
  fixes cs :: "u64 list"
  assumes "k < length cs"
  shows "sum_list (take n (cs[k := cs ! k + 1])) = sum_list (take n cs) + (if k < n then 1 else 0)"
  using assms
proof (induction cs arbitrary: k n)
  case (Cons c cs)
  then show ?case by (cases k; cases n) (auto simp: ac_simps)
qed simp

lemma observe_fold:
  assumes "hist_ok h" and "sorted (hs_bounds h)"
  shows "hist_ok (fold (observe rnd) vs h) \<and> hs_bounds (fold (observe rnd) vs h) = hs_bounds h \<and>
    hs_count (fold (observe rnd) vs h) = hs_count h + of_nat (length vs) \<and>
    (\<forall>i < length (hs_bounds h). sum_list (take (Suc i) (hs_counts (fold (observe rnd) vs h))) =
       sum_list (take (Suc i) (hs_counts h)) + tally (\<lambda>v. v < hs_bounds h ! i) vs) \<and>
    sum_list (hs_counts (fold (observe rnd) vs h)) = sum_list (hs_counts h) + of_nat (length vs)"
  using assms
proof (induction vs arbitrary: h)
  case (Cons v vs)
  let ?k = "upper_bound (hs_bounds h) v" and ?h = "observe rnd v h"
  have k: "?k < length (hs_counts h)" using Cons.prems(1) upper_bound_le [of "hs_bounds h" v] by (simp add: hist_ok_def)
  have h: "hist_ok ?h" "hs_bounds ?h = hs_bounds h" "hs_count ?h = hs_count h + 1"
    using Cons.prems(1) by (simp_all add: observe_def hist_ok_def Let_def)
  have counts: "sum_list (take n (hs_counts ?h)) = sum_list (take n (hs_counts h)) + (if ?k < n then 1 else 0)" for n
    using sum_counts_update [OF k, of n] by (simp add: observe_def Let_def)
  have all: "sum_list (hs_counts ?h) = sum_list (hs_counts h) + 1"
    using counts [of "length (hs_counts h)"] k by (simp add: observe_def Let_def)
  note IH = Cons.IH [of ?h, OF h(1), unfolded h(2,3), OF Cons.prems(2)]
  have "sum_list (take (Suc i) (hs_counts ?h)) + tally (\<lambda>v. v < hs_bounds h ! i) vs =
      sum_list (take (Suc i) (hs_counts h)) + tally (\<lambda>v. v < hs_bounds h ! i) (v # vs)" if "i < length (hs_bounds h)" for i
    unfolding counts tally_def less_Suc_eq_le upper_bound_less [OF Cons.prems(2) that] by simp
  then show ?case using IH all by simp
qed (simp add: tally_def)

lemma render_buckets_eq:
  "length bs \<le> length cs \<Longrightarrow> render_buckets name bs cs acc =
    (concat (map (\<lambda>i. bucket_line name (fmt_g 3 (bs ! i)) (acc + sum_list (take (Suc i) cs))) [0..<length bs]),
     acc + sum_list (take (length bs) cs))"
proof (induction bs arbitrary: cs acc)
  case (Cons b bs)
  then obtain c cs' where cs: "cs = c # cs'" by (cases cs) auto
  have "map (\<lambda>i. bucket_line name (fmt_g 3 ((b # bs) ! i)) (acc + sum_list (take (Suc i) cs))) [0..<length (b # bs)] =
    bucket_line name (fmt_g 3 b) (acc + c) #
    map (\<lambda>i. bucket_line name (fmt_g 3 (bs ! i)) (acc + c + sum_list (take (Suc i) cs'))) [0..<length bs]"
    unfolding cs length_Cons map_upt_Suc by (simp add: ac_simps)
  then show ?case using Cons by (simp add: cs Let_def split_beta ac_simps del: upt_Suc)
qed simp
text \<open>Reference: the text that a histogram over these observations should give, with its buckets counted directly.\<close>

definition hist_text :: "rounding \<Rightarrow> bytes \<Rightarrow> rat list \<Rightarrow> rat list \<Rightarrow> bytes" where
  "hist_text rnd name bounds vs =
     concat (map (\<lambda>b. bucket_line name (fmt_g 3 b) (tally (\<lambda>v. v < b) vs)) bounds) @
     bucket_line name (lit ''+Inf'') (of_nat (length vs)) @
     name @ lit ''_sum '' @ fmt_g 6 (fold (\<lambda>v s. rnd (s + v)) vs 0) @ [0x0A] @
     name @ lit ''_count '' @ dec_string (unat (of_nat (length vs) :: u64)) @ [0x0A]"

lemma observe_sum: "hs_sumMs (fold (observe rnd) vs h) = fold (\<lambda>v s. rnd (s + v)) vs (hs_sumMs h)"
  by (induction vs arbitrary: h) (simp_all add: observe_def Let_def)

lemma hist_renders:
  assumes "sorted bounds"
  shows "hist_renderPrometheus name (fold (observe rnd) vs (new_histogram bounds)) = hist_text rnd name bounds vs"
proof -
  let ?new = "new_histogram bounds"
  let ?h = "fold (observe rnd) vs ?new"
  have new: "hist_ok ?new" "hs_bounds ?new = bounds" "hs_count ?new = 0" "hs_sumMs ?new = 0"
    "sum_list (take n (hs_counts ?new)) = 0" "sum_list (hs_counts ?new) = 0" for n
    by (simp_all add: new_histogram_def hist_ok_def sum_list_replicate del: replicate_Suc)
  note run = observe_fold [OF new(1), unfolded new(2,3,5,6), OF assms, of rnd vs]
  have len: "length (hs_counts ?h) = Suc (length bounds)" using run by (simp add: hist_ok_def)
  have "map (\<lambda>i. bucket_line name (fmt_g 3 (bounds ! i)) (sum_list (take (Suc i) (hs_counts ?h)))) [0..<length bounds] =
    map (\<lambda>i. bucket_line name (fmt_g 3 (bounds ! i)) (tally (\<lambda>v. v < bounds ! i) vs)) [0..<length bounds]"
    using run by (intro map_cong) simp_all
  also have "\<dots> = map (\<lambda>b. bucket_line name (fmt_g 3 b) (tally (\<lambda>v. v < b) vs)) bounds"
    by (rule nth_equalityI) simp_all
  finally have buckets: "render_buckets name bounds (hs_counts ?h) 0 =
      (concat (map (\<lambda>b. bucket_line name (fmt_g 3 b) (tally (\<lambda>v. v < b) vs)) bounds), sum_list (take (length bounds) (hs_counts ?h)))"
    using render_buckets_eq [of bounds "hs_counts ?h" name 0] len by simp
  have "sum_list (take (length bounds) (hs_counts ?h)) + hs_counts ?h ! length bounds = sum_list (take (Suc (length bounds)) (hs_counts ?h))"
    using len take_Suc_conv_app_nth [of "length bounds" "hs_counts ?h"] by (simp del: take_all_iff take_all)
  also have "\<dots> = of_nat (length vs)" using run len by simp
  finally show ?thesis
    using run buckets by (simp add: hist_renderPrometheus_def hist_text_def observe_sum new)
qed

text \<open>An observation equal to a bound is not counted in the bucket of that bound.\<close>

lemma hist_bound_excluded:
  "hist_text rnd name [5] [5] =
     bucket_line name (fmt_g 3 5) 0 @ bucket_line name (lit ''+Inf'') 1 @ name @ lit ''_sum '' @ fmt_g 6 (rnd 5) @ [0x0A] @
     name @ lit ''_count 1'' @ [0x0A]"
  by (simp add: hist_text_def tally_def dec_string.simps lit_def)

section \<open>Metrics\<close>

record metrics =
  mt_totalRequests :: u64
  mt_requestsInCurrentSecond :: u64
  mt_activeConnections :: u64
  mt_taskQueueDepth :: u64
  mt_latency :: histogram
  mt_statusCounts :: "u64 list"

definition new_metrics :: "rounding \<Rightarrow> metrics" where
  "new_metrics rnd =
     \<lparr>mt_totalRequests = 0, mt_requestsInCurrentSecond = 0, mt_activeConnections = 0, mt_taskQueueDepth = 0,
      mt_latency = new_histogram (defaultLatencyBoundsMs rnd), mt_statusCounts = replicate 16 0\<rparr>"

definition markRequest :: "u64 \<Rightarrow> metrics \<Rightarrow> metrics" where
  "markRequest n m = m\<lparr>mt_totalRequests := mt_totalRequests m + n,
     mt_requestsInCurrentSecond := mt_requestsInCurrentSecond m + n\<rparr>"

definition observeLatency :: "rounding \<Rightarrow> rat \<Rightarrow> metrics \<Rightarrow> metrics" where
  "observeLatency rnd valueMs m = m\<lparr>mt_latency := observe rnd valueMs (mt_latency m)\<rparr>"

definition observeStatus :: "u16 \<Rightarrow> metrics \<Rightarrow> metrics" where
  "observeStatus status m =
     (if status < 16 then m\<lparr>mt_statusCounts := (mt_statusCounts m)[unat status := mt_statusCounts m ! unat status + 1]\<rparr> else m)"

definition setActiveConnections :: "u64 \<Rightarrow> metrics \<Rightarrow> metrics" where
  "setActiveConnections n m = m\<lparr>mt_activeConnections := n\<rparr>"

definition setTaskQueueDepth :: "u64 \<Rightarrow> metrics \<Rightarrow> metrics" where
  "setTaskQueueDepth n m = m\<lparr>mt_taskQueueDepth := n\<rparr>"

definition counter_line :: "string \<Rightarrow> string \<Rightarrow> u64 \<Rightarrow> bytes" where
  "counter_line name kind n = lit (''# TYPE '' @ name @ '' '' @ kind) @ [0x0A] @ lit (name @ '' '') @ dec_string (unat n)"

definition renderPrometheusAndRotate :: "metrics \<Rightarrow> bytes \<times> metrics" where
  "renderPrometheusAndRotate m =
     (counter_line ''myrpc_qps'' ''gauge'' (mt_requestsInCurrentSecond m) @ [0x0A] @
      counter_line ''myrpc_total_requests'' ''counter'' (mt_totalRequests m) @ [0x0A] @
      counter_line ''myrpc_active_connections'' ''gauge'' (mt_activeConnections m) @ [0x0A] @
      counter_line ''myrpc_task_queue_depth'' ''gauge'' (mt_taskQueueDepth m),
      m\<lparr>mt_requestsInCurrentSecond := 0\<rparr>)"

definition status_line :: "nat \<Rightarrow> u64 \<Rightarrow> bytes" where
  "status_line i n = (if n > 0 then lit ''myrpc_status{code='' @ [0x22] @ dec_string i @ [0x22] @ lit ''} '' @ dec_string (unat n) @ [0x0A] else [])"

definition renderSnapshot :: "metrics \<Rightarrow> bytes" where
  "renderSnapshot m =
     counter_line ''myrpc_total_requests'' ''counter'' (mt_totalRequests m) @ [0x0A] @
     lit ''# TYPE myrpc_latency_ms histogram'' @ [0x0A] @ hist_renderPrometheus (lit ''myrpc_latency_ms'') (mt_latency m) @
     lit ''# TYPE myrpc_status counter'' @ [0x0A] @ concat (map (\<lambda>i. status_line i (mt_statusCounts m ! i)) [0..<16]) @
     counter_line ''myrpc_active_connections'' ''gauge'' (mt_activeConnections m) @ [0x0A] @
     counter_line ''myrpc_task_queue_depth'' ''gauge'' (mt_taskQueueDepth m)"

text \<open>An execution is a sequence of the operations; a rotation gives out the text of the log line.\<close>

datatype mt_op =
    MarkRequest u64
  | ObserveLatency rat
  | ObserveStatus u16
  | SetActiveConnections u64
  | SetTaskQueueDepth u64
  | Rotate

fun mt_step :: "rounding \<Rightarrow> mt_op \<Rightarrow> metrics \<Rightarrow> metrics" where
  "mt_step rnd (MarkRequest n) m = markRequest n m"
| "mt_step rnd (ObserveLatency v) m = observeLatency rnd v m"
| "mt_step rnd (ObserveStatus st) m = observeStatus st m"
| "mt_step rnd (SetActiveConnections n) m = setActiveConnections n m"
| "mt_step rnd (SetTaskQueueDepth n) m = setTaskQueueDepth n m"
| "mt_step rnd Rotate m = snd (renderPrometheusAndRotate m)"

fun latency_of :: "mt_op \<Rightarrow> rat list" where
  "latency_of (ObserveLatency v) = [v]"
| "latency_of _ = []"

fun requests_of :: "mt_op \<Rightarrow> u64" where
  "requests_of (MarkRequest n) = n"
| "requests_of _ = 0"

definition statuses :: "u16 \<Rightarrow> mt_op list \<Rightarrow> u64" where
  "statuses st xs = of_nat (length (filter (\<lambda>x. x = ObserveStatus st) xs))"

lemmas mt_defs = markRequest_def observeLatency_def observeStatus_def setActiveConnections_def setTaskQueueDepth_def
  renderPrometheusAndRotate_def

lemma mt_run_counters:
  "mt_totalRequests (fold (mt_step rnd) xs m) = mt_totalRequests m + sum_list (map requests_of xs)"
  "mt_latency (fold (mt_step rnd) xs m) = fold (observe rnd) (concat (map latency_of xs)) (mt_latency m)"
proof (induction xs arbitrary: m)
  case (Cons x xs)
  {
    case 1
    show ?case using Cons(1) [of "mt_step rnd x m"] by (cases x) (simp_all add: mt_defs)
  next
    case 2
    show ?case using Cons(2) [of "mt_step rnd x m"] by (cases x) (simp_all add: mt_defs)
  }
qed simp_all

lemma mt_run_status:
  assumes "length (mt_statusCounts m) = 16" and "st < 16"
  shows "mt_statusCounts (fold (mt_step rnd) xs m) ! unat st = mt_statusCounts m ! unat st + statuses st xs"
  using assms(1)
proof (induction xs arbitrary: m)
  case (Cons x xs)
  have st: "unat st < 16" using assms(2) by (simp add: word_less_nat_alt)
  have len: "length (mt_statusCounts (mt_step rnd x m)) = 16" using Cons.prems by (cases x) (simp_all add: mt_defs)
  have inj: "unat (st' :: u16) = unat st \<longleftrightarrow> st' = st" for st' by (auto dest: unsigned_word_eqI)
  have "mt_statusCounts (mt_step rnd x m) ! unat st + statuses st xs = mt_statusCounts m ! unat st + statuses st (x # xs)"
    using st assms(2) Cons.prems
    by (cases x) (auto simp: mt_defs statuses_def nth_list_update inj ac_simps)
  then show ?case using Cons.IH [OF len] by simp
qed (simp add: statuses_def)

text \<open>The numbers that the rotations report as requests of the second.\<close>

fun reported :: "rounding \<Rightarrow> mt_op list \<Rightarrow> metrics \<Rightarrow> u64 list" where
  "reported rnd [] m = []"
| "reported rnd (x # xs) m = (if x = Rotate then [mt_requestsInCurrentSecond m] else []) @ reported rnd xs (mt_step rnd x m)"

lemma rotations_conserve:
  "sum_list (reported rnd xs m) + mt_requestsInCurrentSecond (fold (mt_step rnd) xs m) =
     mt_requestsInCurrentSecond m + sum_list (map requests_of xs)"
proof (induction xs arbitrary: m)
  case (Cons x xs)
  show ?case using Cons.IH [of "mt_step rnd x m"] by (cases x) (simp_all add: mt_defs ac_simps)
qed simp

section \<open>Properties\<close>


definition metrics_example :: "mt_op list" where
  "metrics_example = [MarkRequest 1, ObserveStatus 0, Rotate, MarkRequest 2, ObserveStatus 3, ObserveStatus 3, SetActiveConnections 4]"


end
