(* ===== verification/MetricsServer.thy ===== *)
theory MetricsServer
  imports Metrics Channel Acceptor "HOL-Library.Sublist"
begin

text \<open>
  \<^verbatim>\<open>src/MetricsServer.cpp\<close>: the HTTP endpoint for the metrics. A connection collects bytes until it has the head
  of a request, answers once and closes. The results of \<^verbatim>\<open>read\<close> and the snapshot of the metrics are arguments; a
  \<^verbatim>\<open>write\<close> is an effect with all the bytes offered to it.
\<close>

section \<open>State\<close>

definition kMaxRequestBytes :: nat where
  "kMaxRequestBytes = 8192"

record mconn =
  mc_fd :: int
  mc_channel :: channel
  mc_buffer :: bytes

datatype ms_effect =
    MsWrite int bytes
  | MsRemoveChannel int
  | MsCloseFd int

text \<open>The server: the connections by descriptor.\<close>

type_synonym metrics_server = "int \<rightharpoonup> mconn"

definition onNewConnection :: "int \<Rightarrow> metrics_server \<Rightarrow> metrics_server" where
  "onNewConnection sockfd conns =
     conns(sockfd \<mapsto> \<lparr>mc_fd = sockfd,
       mc_channel = enableReading (setCallback ErrorCallback (setCallback CloseCallback (setCallback ReadCallback (new_channel sockfd)))),
       mc_buffer = []\<rparr>)"

section \<open>Requests\<close>

fun contains :: "bytes \<Rightarrow> bytes \<Rightarrow> bool" where
  "contains pat [] \<longleftrightarrow> pat = []"
| "contains pat (b # bs) \<longleftrightarrow> take (length pat) (b # bs) = pat \<or> contains pat bs"

definition crlf :: bytes where
  "crlf = [0x0D, 0x0A]"

definition request_complete :: "bytes \<Rightarrow> bool" where
  "request_complete buf \<longleftrightarrow> length buf > kMaxRequestBytes \<or> contains (crlf @ crlf) buf"

definition closeConn :: "mconn \<Rightarrow> mconn \<times> ms_effect list" where
  "closeConn c =
     (if mc_fd c < 0 then (c, [])
      else (c\<lparr>mc_channel := disableAll (mc_channel c), mc_fd := -1\<rparr>, [MsRemoveChannel (mc_fd c), MsCloseFd (mc_fd c)]))"

definition http_response :: "bytes \<Rightarrow> bytes \<Rightarrow> bytes" where
  "http_response reason body =
     lit ''HTTP/1.1 '' @ reason @ crlf @ lit ''Content-Type: text/plain; version=0.0.4'' @ crlf @
     lit ''Content-Length: '' @ dec_string (length body) @ crlf @ lit ''Connection: close'' @ crlf @ crlf @ body"

definition handle_http :: "bytes \<Rightarrow> mconn \<Rightarrow> mconn \<times> ms_effect list" where
  "handle_http snapshot c =
     (let isMetrics = take 12 (mc_buffer c) = lit ''GET /metrics'';
          body = (if isMetrics then snapshot else lit ''not found'');
          reason = (if isMetrics then lit ''200 OK'' else lit ''404 Not Found'');
          (c', effs) = closeConn c
      in (c', MsWrite (mc_fd c) (http_response reason body) # effs))"

datatype ms_read = MsBytes bytes | MsEnd | MsFailed errno

fun ms_onRead :: "bytes \<Rightarrow> ms_read list \<Rightarrow> mconn \<Rightarrow> mconn \<times> ms_effect list" where
  "ms_onRead snapshot [] c = (c, [])"
| "ms_onRead snapshot (MsBytes bs # rs) c =
     (let c1 = c\<lparr>mc_buffer := mc_buffer c @ bs\<rparr>
      in if request_complete (mc_buffer c1) then handle_http snapshot c1 else ms_onRead snapshot rs c1)"
| "ms_onRead snapshot (MsEnd # rs) c = closeConn c"
| "ms_onRead snapshot (MsFailed EINTR # rs) c = ms_onRead snapshot rs c"
| "ms_onRead snapshot (MsFailed EAGAIN # rs) c = (c, [])"
| "ms_onRead snapshot (MsFailed EOTHER # rs) c = closeConn c"

text \<open>\<^verbatim>\<open>conns_.erase\<close> when the connection closed.\<close>

definition ms_event :: "bytes \<Rightarrow> int \<Rightarrow> ms_read list \<Rightarrow> metrics_server \<Rightarrow> metrics_server \<times> ms_effect list" where
  "ms_event snapshot fd rs conns =
     (case conns fd of
        None \<Rightarrow> (conns, [])
      | Some c \<Rightarrow> let (c', effs) = ms_onRead snapshot rs c
                  in (if mc_fd c' < 0 then conns(fd := None) else conns(fd \<mapsto> c'), effs))"

fun ms_events :: "(bytes \<times> ms_read list) list \<Rightarrow> int \<Rightarrow> metrics_server \<Rightarrow> metrics_server \<times> ms_effect list" where
  "ms_events [] fd conns = (conns, [])"
| "ms_events ((snapshot, rs) # evs) fd conns =
     (let (conns1, effs1) = ms_event snapshot fd rs conns; (conns2, effs2) = ms_events evs fd conns1 in (conns2, effs1 @ effs2))"

section \<open>Reads that leave the request open\<close>

fun delivers :: "ms_read \<Rightarrow> bytes" where
  "delivers (MsBytes bs) = bs"
| "delivers _ = []"

fun goes_on :: "ms_read \<Rightarrow> bool" where
  "goes_on (MsBytes bs) = True"
| "goes_on (MsFailed e) = (e = EINTR)"
| "goes_on MsEnd = False"

definition received :: "ms_read list \<Rightarrow> bytes" where
  "received rs = concat (map delivers rs)"

lemma contains_append: "contains pat xs \<Longrightarrow> contains pat (xs @ ys)"
proof (induction xs)
  case Nil
  then show ?case by (cases ys) simp_all
next
  case (Cons x xs)
  then show ?case by (auto simp del: take_append) (metis append_Cons append_eq_conv_conj append_take_drop_id append_assoc)
qed

lemma request_complete_append: "request_complete xs \<Longrightarrow> request_complete (xs @ ys)"
  by (auto simp: request_complete_def contains_append)

text \<open>The loop up to the read that completes the request, or to the one that would block.\<close>

lemma onRead_open:
  assumes "list_all goes_on rs" and "\<not> request_complete (mc_buffer c @ received rs)"
  shows "ms_onRead snapshot (rs @ qs) c = ms_onRead snapshot qs (c\<lparr>mc_buffer := mc_buffer c @ received rs\<rparr>)"
  using assms
proof (induction rs arbitrary: c)
  case (Cons r rs)
  show ?case
  proof (cases r)
    case (MsBytes bs)
    have "\<not> request_complete (mc_buffer c @ bs)"
      using Cons.prems(2) request_complete_append [of "mc_buffer c @ bs" "received rs"] MsBytes by (auto simp: received_def)
    then show ?thesis using Cons.IH [of "c\<lparr>mc_buffer := mc_buffer c @ bs\<rparr>"] Cons.prems MsBytes by (simp add: received_def)
  next
    case (MsFailed e)
    then show ?thesis using Cons by (simp add: received_def)
  qed (use Cons.prems in simp)
qed (simp add: received_def)

text \<open>Events after which the connection still waits for the rest of the request.\<close>

definition blocked :: "(bytes \<times> ms_read list) list \<Rightarrow> (bytes \<times> ms_read list) list" where
  "blocked evs = map (\<lambda>(snapshot, rs). (snapshot, rs @ [MsFailed EAGAIN])) evs"

lemma ms_events_blocked:
  assumes "conns fd = Some c" and "mc_fd c \<ge> 0" and "list_all (\<lambda>(_, rs). list_all goes_on rs) evs"
    and "\<not> request_complete (mc_buffer c @ received (concat (map snd evs)))"
  shows "ms_events (blocked evs @ rest) fd conns =
    ms_events rest fd (conns(fd \<mapsto> c\<lparr>mc_buffer := mc_buffer c @ received (concat (map snd evs))\<rparr>))"
  using assms
proof (induction evs arbitrary: conns c)
  case (Cons ev evs)
  obtain snapshot rs where ev: "ev = (snapshot, rs)" by fastforce
  let ?c = "c\<lparr>mc_buffer := mc_buffer c @ received rs\<rparr>"
  have "\<not> request_complete (mc_buffer c @ received rs)"
    using Cons.prems(4) request_complete_append [of "mc_buffer c @ received rs" "received (concat (map snd evs))"]
    by (auto simp: ev received_def)
  then have "ms_event snapshot fd (rs @ [MsFailed EAGAIN]) conns = (conns(fd \<mapsto> ?c), [])"
    using onRead_open [of rs c snapshot "[MsFailed EAGAIN]"] Cons.prems(1-3) by (simp add: ms_event_def ev)
  then have "ms_events (blocked (ev # evs) @ rest) fd conns = ms_events (blocked evs @ rest) fd (conns(fd \<mapsto> ?c))"
    by (simp add: ev blocked_def)
  also have "\<dots> = ms_events rest fd ((conns(fd \<mapsto> ?c))(fd \<mapsto> ?c\<lparr>mc_buffer := mc_buffer ?c @ received (concat (map snd evs))\<rparr>))"
    by (rule Cons.IH) (use Cons.prems in \<open>simp_all add: ev received_def\<close>)
  also have "(conns(fd \<mapsto> ?c))(fd \<mapsto> ?c\<lparr>mc_buffer := mc_buffer ?c @ received (concat (map snd evs))\<rparr>) =
      conns(fd \<mapsto> c\<lparr>mc_buffer := mc_buffer c @ received (concat (map snd (ev # evs)))\<rparr>)"
    by (simp add: ev received_def)
  finally show ?case .
qed (simp add: blocked_def received_def fun_upd_idem)

section \<open>Properties\<close>

text \<open>C40: However the bytes of a request are split over reads and over readiness events, with interrupted reads between
  them, the metrics server answers exactly once, at the read that completes the head of the request or exceeds 8192 bytes;
  it answers 200 with the snapshot of that moment if the bytes start with \<^verbatim>\<open>GET /metrics\<close> and 404 otherwise, and then
  removes the connection and closes its descriptor once.
\<close>

theorem metrics_request_answered_once:
  assumes "0 \<le> fd" and "list_all (\<lambda>(_, rs). list_all goes_on rs) evs" and "list_all goes_on rs"
    and "\<not> request_complete (received (concat (map snd evs) @ rs))"
    and "request = received (concat (map snd evs) @ rs @ [MsBytes bs])" and "request_complete request"
  shows "ms_events (blocked evs @ [(snapshot, rs @ MsBytes bs # qs)]) fd (onNewConnection fd conns) =
    (conns(fd := None),
     [MsWrite fd (if take 12 request = lit ''GET /metrics'' then http_response (lit ''200 OK'') snapshot
                  else http_response (lit ''404 Not Found'') (lit ''not found'')),
      MsRemoveChannel fd, MsCloseFd fd])"
proof -
  define c where "c = the (onNewConnection fd conns fd)"
  have c: "onNewConnection fd conns fd = Some c" "mc_fd c = fd" "mc_buffer c = []" by (simp_all add: c_def onNewConnection_def)
  have split: "received (xs @ ys) = received xs @ received ys" for xs ys by (simp add: received_def)
  let ?d = "c\<lparr>mc_buffer := received (concat (map snd evs))\<rparr>"
  have open_evs: "\<not> request_complete (mc_buffer c @ received (concat (map snd evs)))"
    using assms(4) request_complete_append c(3) by (auto simp: split)
  have "ms_onRead snapshot (rs @ MsBytes bs # qs) ?d = ms_onRead snapshot (MsBytes bs # qs) (c\<lparr>mc_buffer := received (concat (map snd evs) @ rs)\<rparr>)"
    using onRead_open [OF assms(3), of ?d snapshot "MsBytes bs # qs"] assms(4) by (simp add: split)
  also have "\<dots> = handle_http snapshot (c\<lparr>mc_buffer := request\<rparr>)"
    using assms(5,6) by (simp add: split) (simp add: received_def)
  finally have answer: "ms_onRead snapshot (rs @ MsBytes bs # qs) ?d = handle_http snapshot (c\<lparr>mc_buffer := request\<rparr>)" .
  have "onNewConnection fd conns = conns(fd \<mapsto> c)" by (simp add: c_def onNewConnection_def)
  then show ?thesis
    using ms_events_blocked [where rest = "[(snapshot, rs @ MsBytes bs # qs)]" and conns = "onNewConnection fd conns" and fd = fd, OF c(1) _ assms(2) open_evs] assms(1) c(2,3) answer
    by (simp add: ms_event_def handle_http_def closeConn_def Let_def)
qed

theorem metrics_request_answered_once_witness:
  "ms_events (blocked [(lit ''s0'', [MsBytes (lit ''GET /met''), MsFailed EINTR])] @
       [(lit ''s1'', [MsBytes (lit ''rics HTTP/1.1'' @ crlf @ crlf)])]) 7 (onNewConnection 7 Map.empty) =
     (Map.empty, [MsWrite 7 (http_response (lit ''200 OK'') (lit ''s1'')), MsRemoveChannel 7, MsCloseFd 7])"
proof -
  have "\<not> request_complete (received (concat (map snd [(lit ''s0'', [MsBytes (lit ''GET /met''), MsFailed EINTR])]) @ []))"
    by (simp add: received_def request_complete_def kMaxRequestBytes_def lit_def crlf_def)
  moreover have "request_complete (received (concat (map snd [(lit ''s0'', [MsBytes (lit ''GET /met''), MsFailed EINTR])]) @ [] @
      [MsBytes (lit ''rics HTTP/1.1'' @ crlf @ crlf)]))"
    by (simp add: received_def request_complete_def kMaxRequestBytes_def lit_def crlf_def)
  ultimately show ?thesis
    using metrics_request_answered_once [of 7 "[(lit ''s0'', [MsBytes (lit ''GET /met''), MsFailed EINTR])]" "[]" _
        "lit ''rics HTTP/1.1'' @ crlf @ crlf" "lit ''s1''" "[]" Map.empty, OF _ _ _ _ refl]
    by (simp add: received_def lit_def)
qed

end
