(* ===== verification/SyncCall.thy ===== *)
theory SyncCall
  imports RpcChannel EventLoop
begin

text \<open>
  The blocking \<^verbatim>\<open>RpcChannel::call\<close> and \<^verbatim>\<open>src/RpcClient.cpp\<close>. The caller starts an asynchronous call, waits on a condition variable
  for its callback and, when the wait times out, has the call cancelled on the loop thread and waits again.
  Meanwhile the loop performs any operations of the channel. The theorem says that the second wait ends.
\<close>

section \<open>The blocking call\<close>

definition channel_waitMs :: "u32 \<Rightarrow> u32" where
  "channel_waitMs timeoutMs = (if timeoutMs > 0 then timeoutMs + 500 else 10000)"

text \<open>The first wait ends with the callback or by the clock; then the call is cancelled.\<close>

definition wait_ends :: "bool \<Rightarrow> u32 \<Rightarrow> u32 \<Rightarrow> 'c chan \<Rightarrow> 'c chan_result" where
  "wait_ends doneCalled timeoutMs idv ch =
     (if doneCalled then (ch, []) else cancelCall idv kDeadlineExceeded (lit ''client sync wait timed out'') ch)"

definition call_result :: "u16 \<Rightarrow> bool" where
  "call_result status \<longleftrightarrow> status = kOk"

section \<open>The client\<close>

record rpc_client =
  cl_running :: bool
  cl_loopQuit :: bool

definition new_rpc_client :: rpc_client where
  "new_rpc_client = \<lparr>cl_running = True, cl_loopQuit = False\<rparr>"

text \<open>\<^verbatim>\<open>connect\<close>: a channel with a heartbeat of five seconds, whose start is queued to the loop.\<close>

definition client_connect :: "time \<Rightarrow> 'c chan" where
  "client_connect now = setHeartbeatIntervalMs 5000 (new_chan now)"

definition client_stop :: "rpc_client \<Rightarrow> rpc_client" where
  "client_stop c = (if \<not> cl_running c then c else c\<lparr>cl_running := False, cl_loopQuit := True\<rparr>)"

text \<open>
  The constructor waits until the loop thread has made the loop, not until it runs; \<^verbatim>\<open>loop()\<close> begins by clearing
  \<^verbatim>\<open>quit_\<close>. A \<^verbatim>\<open>quit\<close> that comes before is forgotten, only its wake-up remains, and the join in \<^verbatim>\<open>stop\<close> waits for a loop
  that goes on.
\<close>

lemma quit_before_loop: "loop cap acts tns (quit cap False lp) = loop cap acts tns (wakeup cap lp)"
  by (simp add: loop_def quit_def wakeup_def)

section \<open>A call stays in its slot until its callback runs\<close>

definition slot_of :: "nat \<Rightarrow> 'c chan \<Rightarrow> 'c pending_call option" where
  "slot_of k ch = (if k < length (ch_pending ch) then ch_pending ch ! k else None)"

definition stays :: "nat \<Rightarrow> 'c pending_call \<Rightarrow> 'c chan \<Rightarrow> 'c chan_result \<Rightarrow> bool" where
  "stays k pc ch res \<longleftrightarrow>
     (slot_of k ch = Some pc \<and> pc_hasDone pc \<longrightarrow> slot_of k (fst res) = Some pc \<or> pc_call pc \<in># settled done_of (snd res))"

lemma stays_same: "ch_pending ch' = ch_pending ch \<Longrightarrow> stays k pc ch (ch', effs)"
  by (simp add: stays_def slot_of_def)

lemma stays_from: "stays k pc ch' res \<Longrightarrow> ch_pending ch' = ch_pending ch \<Longrightarrow> stays k pc ch res"
  by (auto simp: stays_def slot_of_def)

lemma stays_seq: "stays k pc ch (ch1, effs1) \<Longrightarrow> stays k pc ch1 (ch2, effs2) \<Longrightarrow> stays k pc ch (ch2, effs1 @ effs2)"
  by (auto simp: stays_def)

lemma slot_waiting:
  assumes "slot_of k ch = Some pc" and "pc_hasDone pc"
  shows "pc_call pc \<in># waiting ch"
proof -
  have k: "k < length (ch_pending ch)" "ch_pending ch ! k = Some pc" using assms(1) by (simp_all add: slot_of_def split: if_splits)
  have "waiting_of (Some pc) = {#pc_call pc#}" "waiting_of None = {#}" using assms(2) by (simp_all add: waiting_of_def)
  then have "waiting ch = sum_list (map waiting_of ((ch_pending ch)[k := None])) + {#pc_call pc#}"
    using sum_list_update [OF k(1), of waiting_of None] unfolding k(2) waiting_def by simp
  then show ?thesis by simp
qed

lemma handleClose_stays: "stays k pc ch (handleClose tid ch)"
  using slot_waiting [of k ch pc] by (simp add: stays_def handleClose_def Let_def split_beta settled_dooms)

lemma stop_stays: "stays k pc ch (stop_task ch)"
  using slot_waiting [of k ch pc] by (simp add: stays_def stop_task_def settled_dooms)

lemma release_slot_stays: "unat (i - 1) \<noteq> k \<Longrightarrow> slot_of k (release_slot i ch) = slot_of k ch"
  by (simp add: slot_of_def release_slot_def)

lemma pending_at_slot_of: "pending_at i ch = Some pc \<Longrightarrow> slot_of (unat (i - 1)) ch = Some pc"
  using pending_atD [of i ch pc] by (simp add: slot_of_def)

lemma failPending_stays: "stays k pc ch (failPending i status t ch)"
proof (cases "pending_at i ch")
  case (Some pc')
  then show ?thesis
    using pending_at_slot_of [OF Some] release_slot_stays [of i k ch]
    by (cases "unat (i - 1) = k") (auto simp: stays_def failPending_def)
qed (simp add: failPending_def stays_same)

lemma dispatchResponse_stays: "stays k pc ch (dispatchResponse rnd e now m ch)"
proof (cases "pending_at (hdr_requestId (msg_header m)) ch")
  case (Some pc')
  let ?i = "hdr_requestId (msg_header m)"
  have ema: "slot_of k (release_slot ?i ch\<lparr>ch_latencyEmaMs := x\<rparr>) = slot_of k (release_slot ?i ch)" for x by (simp add: slot_of_def)
  show ?thesis
  proof (cases "unat (?i - 1) = k")
    case True
    then have "slot_of k ch = Some pc'" using pending_at_slot_of [OF Some] by simp
    moreover have "pc_call pc' \<in># settled done_of (snd (dispatchResponse rnd e now m ch))" if "pc_hasDone pc'"
      using Some that by (simp add: dispatchResponse_def Let_def)
    ultimately show ?thesis unfolding stays_def by (metis option.inject)
  next
    case False
    then show ?thesis using Some release_slot_stays [OF False, of ch] ema by (simp add: stays_def dispatchResponse_def Let_def)
  qed
qed (simp add: dispatchResponse_def Let_def stays_same)

lemma dispatch_all_stays: "stays k pc ch (dispatch_all rnd e clk i ms ch)"
proof (induction ms arbitrary: i ch)
  case (Cons m ms)
  then show ?case
    using dispatchResponse_stays [of k pc ch rnd e "clk i" m] by (simp add: split_beta Let_def) (metis stays_seq prod.collapse)
qed (simp add: stays_same)

lemma read_loop_stays: "stays k pc ch (read_loop rnd e tid rs ch)"
proof (induction rnd e tid rs ch rule: read_loop.induct)
  case (2 rnd e tid bs clk rs ch)
  obtain ms b where dec: "RpcFramer_decode e (buf_append bs (ch_inputBuffer ch)) = (ms, b)" by fastforce
  obtain ch1 effs where d: "dispatch_all rnd e clk 0 ms (ch\<lparr>ch_inputBuffer := b\<rparr>) = (ch1, effs)" by fastforce
  have "stays k pc ch (dispatch_all rnd e clk 0 ms (ch\<lparr>ch_inputBuffer := b\<rparr>))"
    by (rule stays_from [OF dispatch_all_stays]) simp
  then have "stays k pc ch (ch1, effs)" by (simp add: d)
  moreover have "stays k pc ch1 (read_loop rnd e tid rs ch1)" using 2 [OF dec [symmetric] refl refl] d by simp
  ultimately show ?case by (simp add: dec d split_beta) (metis stays_seq prod.collapse)
qed (simp_all add: stays_same handleClose_stays)

lemma flushOutput_stays: "stays k pc ch (flushOutput wr tid ch)"
  using stays_from [OF handleClose_stays, of "ch\<lparr>ch_outputQueue := []\<rparr>" ch]
  by (auto simp: flushOutput_def Let_def stays_same split: write_result.split)

lemma writeFrame_stays: "stays k pc ch (writeFrame e wr tid h body ch)"
  using stays_from [OF flushOutput_stays, of "ch\<lparr>ch_outputQueue := _\<rparr>" ch]
  by (auto simp: writeFrame_def Let_def stays_same handleClose_stays split: write_result.split)

lemma onConnected_stays: "stays k pc ch (onConnected now wr tid ch)"
proof (cases "ch_channel ch")
  case (Some pch)
  define ch2 where "ch2 = ch\<lparr>ch_state := Ready, ch_channel := Some (pch\<lparr>poll_writing := False, poll_reading := True\<rparr>),
    ch_lastReceivedAt := now, ch_unansweredHeartbeats := 0\<rparr>"
  have "stays k pc ch (fst (flushOutput wr tid ch2), snd (flushOutput wr tid ch2))"
    using stays_from [OF flushOutput_stays, of ch2 ch] by (simp add: ch2_def)
  with Some show ?thesis unfolding onConnected_def by (auto simp: Let_def split_beta ch2_def stays_def)
qed (simp add: onConnected_def stays_same)

lemma doConnect_stays: "stays k pc ch (doConnect fd aton res now wr tid ch)"
  using stays_from [OF handleClose_stays, of "ch\<lparr>ch_state := Connecting, ch_sockfd := fd\<rparr>" ch]
    stays_from [OF onConnected_stays, of "ch\<lparr>ch_state := Connecting, ch_sockfd := fd\<rparr>" ch]
  by (auto simp: doConnect_def Let_def stays_same split: connect_result.split)

lemma asyncCall_stays:
  assumes "chan_ok ch"
  shows "stays k pc ch (snd (asyncCall now c hasDone mid tmo trace gen req ch))"
proof (cases "ch_state ch = ConnClosed")
  case False
  show ?thesis
  proof (cases "ch_freeSlots ch")
    case Nil
    then show ?thesis using False by (auto simp: asyncCall_def Let_def stays_def slot_of_def nth_append split: if_splits)
  next
    case (Cons s fs)
    then have "s < length (ch_pending ch)" "ch_pending ch ! s = None" using assms by (auto simp: chan_ok_def)
    then show ?thesis using False Cons by (auto simp: asyncCall_def Let_def stays_def slot_of_def nth_list_update split: if_splits)
  qed
qed (simp add: asyncCall_def Let_def stays_same)

lemma chan_step_stays:
  assumes "chan_ok ch"
  shows "stays k pc ch (chan_step rnd e op ch)"
proof (cases op)
  case (OpReconnect fd aton res now wr tid)
  then show ?thesis
    using stays_from [OF doConnect_stays, of "ch\<lparr>ch_reconnectTimerId := 0\<rparr>" ch] by (auto simp: reconnect_timer_def Let_def stays_same)
next
  case (OpRead now tid rs)
  then show ?thesis
    using stays_from [OF read_loop_stays, of "ch\<lparr>ch_lastReceivedAt := now, ch_unansweredHeartbeats := 0\<rparr>" ch] by (simp add: handleRead_def)
next
  case (OpHeartbeat now wr tid)
  have "stays k pc ch (writeFrame e wr tid h body (ch\<lparr>ch_unansweredHeartbeats := n\<rparr>))" for h body n
    by (rule stays_from [OF writeFrame_stays]) simp
  then show ?thesis using OpHeartbeat by (auto simp: onHeartbeatTick_def stays_same handleClose_stays)
qed (auto simp: asyncCall_stays [OF assms] arm_timer_def onCallTimeout_def failPending_stays sendInLoop_def writeFrame_stays start_task_def
    doConnect_stays connect_timer_def handleClose_stays handleConnectWrite_def onConnected_stays stop_stays stays_same)

lemma run_stays:
  assumes "chan_ok ch" and "slot_of k ch = Some pc" and "pc_hasDone pc"
    and "pc_call pc \<notin># settled done_of (snd (run_ops (chan_step rnd e) xs ch))"
  shows "slot_of k (fst (run_ops (chan_step rnd e) xs ch)) = Some pc"
  using assms
proof (induction xs arbitrary: ch)
  case (Cons x xs)
  let ?ch = "fst (chan_step rnd e x ch)"
  have "slot_of k ?ch = Some pc"
    using chan_step_stays [OF Cons.prems(1), of k pc rnd e x] Cons.prems(2-4) by (auto simp: stays_def split_beta Let_def)
  then show ?case
    using Cons.IH [OF calls.ok_step [OF Cons.prems(1)]] Cons.prems(3,4) by (simp add: split_beta Let_def)
qed simp

lemma done_settled: "c \<in># settled done_of effs \<longleftrightarrow> InvokeDone c \<in> set effs"
proof (induction effs)
  case (Cons eff effs)
  then show ?case by (cases eff) auto
qed simp

section \<open>Properties\<close>

text \<open>C19: The blocking call returns. Whatever the channel does while the caller waits, either the callback of the call has run,
  or cancelling it runs the callback, with the status for an exceeded deadline, so that the second wait ends and
  the call reports failure.
\<close>

theorem sync_call_returns:
  assumes "chan_ok ch" and "length (ch_pending ch) < 2 ^ 32 - 1"
    and "(idv, ch1, effs1) = asyncCall now c True mid tmo trace gen req ch"
    and "(ch2, effs2) = run_ops (chan_step rnd e) xs ch1"
    and "\<not> InvokeDone c \<in> set (effs1 @ effs2)"
  shows "wait_ends False tmo idv ch2 = (ch2, [QueueFail idv kDeadlineExceeded (lit ''client sync wait timed out'')]) \<and>
    snd (chan_step rnd e (OpFail idv kDeadlineExceeded (lit ''client sync wait timed out'')) ch2) =
      [SetStatus c kDeadlineExceeded (lit ''client sync wait timed out''), InvokeDone c] \<and> \<not> call_result kDeadlineExceeded"
proof -
  have opened: "ch_state ch \<noteq> ConnClosed" using assms(3,5) by (auto simp: asyncCall_def Let_def)
  obtain k where k: "k < 2 ^ 32 - 1" "idv = of_nat k + 1"
    "slot_of k ch1 = Some \<lparr>pc_id = idv, pc_call = c, pc_hasDone = True, pc_timeoutMs = tmo, pc_start = now\<rparr>"
  proof (cases "ch_freeSlots ch")
    case Nil
    show ?thesis
      by (rule that [of "length (ch_pending ch)"]) (use assms(2,3) opened Nil in \<open>simp_all add: asyncCall_def Let_def slot_of_def\<close>)
  next
    case (Cons s fs)
    then have "s < length (ch_pending ch)" using assms(1) by (auto simp: chan_ok_def)
    then show ?thesis
      by (intro that [of s]) (use assms(2,3) opened Cons in \<open>simp_all add: asyncCall_def Let_def slot_of_def\<close>)
  qed
  let ?pc = "\<lparr>pc_id = idv, pc_call = c, pc_hasDone = True, pc_timeoutMs = tmo, pc_start = now\<rparr>"
  have "chan_ok ch1" using asyncCall_balanced [OF assms(1), of True c now mid tmo trace gen req] assms(3) by (metis balanced_def fst_conv snd_conv)
  then have "slot_of k ch2 = Some ?pc"
    using run_stays [of ch1 k ?pc rnd e xs] k(3) assms(4,5) unfolding done_settled
    by (metis Un_iff fst_conv pending_call.select_convs(2,3) set_append snd_conv)
  moreover have "unat (idv - 1) = k" using k(1,2) by (simp add: unat_of_nat)
  ultimately have "pending_at idv ch2 = Some ?pc" by (auto simp: pending_at_def slot_of_def Let_def split: if_splits)
  then show ?thesis
    by (simp add: wait_ends_def cancelCall_def failPending_def call_result_def kDeadlineExceeded_def kOk_def)
qed

text \<open>A call that is armed while the channel is still unconnected.\<close>

theorem sync_call_returns_witness:
  "let (idv, ch1, effs1) = asyncCall 0 (7 :: nat) True 9 100 0 5 VNull (client_connect 0);
       (ch2, effs2) = run_ops (chan_step id Little) [OpArm 1] ch1
   in snd (chan_step id Little (OpFail idv kDeadlineExceeded (lit ''client sync wait timed out'')) ch2) =
        [SetStatus 7 kDeadlineExceeded (lit ''client sync wait timed out''), InvokeDone 7]"
proof -
  let ?ch = "client_connect 0 :: nat chan"
  have ok: "chan_ok ?ch" unfolding client_connect_def
    by (rule chan_ok_cong [OF new_chan_ok [of 0]]) (simp_all add: setHeartbeatIntervalMs_def)
  obtain idv ch1 effs1 where a: "(idv, ch1, effs1) = asyncCall 0 (7 :: nat) True 9 100 0 5 VNull ?ch"
    by (metis prod_cases3)
  obtain ch2 effs2 where r: "(ch2, effs2) = run_ops (chan_step id Little) [OpArm 1] ch1" by (metis surj_pair)
  have idle: "ch_state ?ch = ConnIdle" "ch_pending ?ch = []" "ch_freeSlots ?ch = []"
    by (simp_all add: client_connect_def setHeartbeatIntervalMs_def new_chan_def)
  have "\<not> InvokeDone 7 \<in> set (effs1 @ effs2)"
    using a r idle by (auto simp: asyncCall_def Let_def arm_timer_def split: option.splits if_splits)
  with sync_call_returns [OF ok _ a r] idle show ?thesis
    by (simp add: a [symmetric] r [symmetric] del: run_ops.simps)
qed

end
