(* ===== verification/Spec2Isabelle.thy ===== *)
theory Spec2Isabelle
  imports RpcChannel ConcurrencyLimiter RetryPolicy CircuitBreaker LoadBalancer LocalRegistry RpcServer Poller EventLoop
    TcpConnection Discovery Scheduler MemoryPool AIService TcpServer Tracing MetricsServer SyncCall
begin

text \<open>
  Verification of the RPC framework under \<^verbatim>\<open>src/\<close>: a reactor, a binary protocol on top of it, a server with a router and
  admission control, client channels with deadlines and reconnection, a cluster channel with load balancing,
  retries, hedging and circuit breaking, and a service registry with leases and watches, in one
  process or across processes.

  \<^bold>\<open>How the parts interact.\<close> A client calls \<^verbatim>\<open>RpcClusterChannel\<close>, which picks an instance (\<^verbatim>\<open>LoadBalancer\<close>, \<^verbatim>\<open>CircuitBreaker\<close>,
  \<^verbatim>\<open>RetryPolicy\<close>) and calls its \<^verbatim>\<open>RpcChannel\<close>. The channel enters the call in its table, serializes the request (\<^verbatim>\<open>Serializer\<close>), frames
  it (\<^verbatim>\<open>RpcFramer\<close>, \<^verbatim>\<open>Protocol\<close>) and writes it from its \<^verbatim>\<open>EventLoop\<close>. The server's \<^verbatim>\<open>Acceptor\<close> hands the connection to \<^verbatim>\<open>TcpServer\<close>, which
  puts a \<^verbatim>\<open>TcpConnection\<close> on one of the loops of its \<^verbatim>\<open>ThreadPool\<close>; its \<^verbatim>\<open>Channel\<close> is watched by a \<^verbatim>\<open>Poller\<close>, its bytes go through a \<^verbatim>\<open>Buffer\<close>
  from the \<^verbatim>\<open>MemoryPool\<close> and the framer to \<^verbatim>\<open>RpcServer\<close>, which admits the request (\<^verbatim>\<open>ConcurrencyLimiter\<close>), finds the handler
  (\<^verbatim>\<open>Router\<close>), runs it, possibly on the \<^verbatim>\<open>Scheduler\<close>, and sends the response back the same way. \<^verbatim>\<open>Metrics\<close>, \<^verbatim>\<open>Tracing\<close> and \<^verbatim>\<open>Logger\<close> observe it.
  The registry (\<^verbatim>\<open>LocalRegistry\<close>, or \<^verbatim>\<open>RegistryClient\<close> and \<^verbatim>\<open>rpc_registry_server\<close>) tells clusters which instances there are.

  \<^bold>\<open>Conventions.\<close> Machine integers are words and wrap around; byte strings are lists of bytes; a class is a
  record and a method a function from the state, and what it reads from outside, to the new state and the effects it has, in
  order. Results of system calls, clock readings and random numbers are arguments. A \<^verbatim>\<open>double\<close> is the rational it
  denotes and every operation on doubles is followed by the parameter \<open>rnd\<close>. Callbacks supplied by the user are elements of a type
  parameter. An exception or an undefined operation is a branch of the result. Threads are interleavings: an execution is
  a list of operations, each a section under a lock, an atomic access, a functor or an event of a loop, and the
  theorems hold for every list.

  \<^bold>\<open>Theories and the code they model\<close> (file names without extension are a header under \<^verbatim>\<open>include/\<close> with its source file under \<^verbatim>\<open>src/\<close>):

  \<^item> \<open>RpcPrelude\<close>: machine types, byte order, \<^verbatim>\<open>memcpy\<close>, the clock, decimal numbers. \<open>OrderedMap\<close>: \<^verbatim>\<open>std::map\<close>, with the locale
    \<open>std_map\<close>. \<open>Accounting\<close>: executions of a component that takes on obligations and settles them, with the locale
    \<open>accounting\<close>. \<open>AtomicLoop\<close>: compare-and-exchange loops of any number of threads, with the locale \<open>cas_object\<close>.
  \<^item> \<open>Buffer\<close> (\<^verbatim>\<open>Buffer\<close>; the locale \<open>byte_queue\<close>), \<open>MemoryPool\<close> (\<^verbatim>\<open>MemoryPool.h\<close>), \<open>Protocol\<close> (\<^verbatim>\<open>Protocol.h\<close>, \<^verbatim>\<open>Message.h\<close>), \<open>RpcFramer\<close> (\<^verbatim>\<open>RpcFramer\<close>),
    \<open>Serializer\<close> (\<^verbatim>\<open>Serializer\<close>: \<open>Serializer_encode\<close>, \<open>Serializer_decode\<close>, \<open>toJson\<close>).
  \<^item> \<open>Channel\<close>, \<open>Poller\<close> (\<^verbatim>\<open>EpollPoller\<close>, \<^verbatim>\<open>PollPoller\<close>; the locale \<open>poller\<close>), \<open>EventLoop\<close>, \<open>ThreadPool\<close>, \<open>Acceptor\<close>, \<open>TcpConnection\<close>, \<open>TcpServer\<close>:
    the reactor and the server side of a connection. \<open>TcpServer\<close> composes acceptor, pool, loops and connections.
  \<^item> \<open>Router\<close> (\<^verbatim>\<open>Router.h\<close>), \<open>ConcurrencyLimiter\<close> (\<^verbatim>\<open>ConcurrencyLimiter.h\<close>), \<open>RpcServer\<close>, \<open>RpcController\<close> (\<^verbatim>\<open>RpcController.h\<close>), \<open>RpcChannel\<close>, \<open>SyncCall\<close>
    (the blocking \<^verbatim>\<open>RpcChannel::call\<close>, \<^verbatim>\<open>RpcClient\<close>), \<open>RpcExchange\<close> (a whole call: client channel, wire, server, handler and back).
  \<^item> \<open>RetryPolicy\<close> (\<^verbatim>\<open>RetryPolicy.h\<close>), \<open>CircuitBreaker\<close>, \<open>LoadBalancer\<close> (the locale \<open>load_balancer\<close>), \<open>RpcClusterChannel\<close>.
  \<^item> \<open>LocalRegistry\<close> (\<^verbatim>\<open>Registry.h\<close>, \<^verbatim>\<open>LocalRegistry\<close>), \<open>RemoteRegistry\<close> (\<^verbatim>\<open>RegistryProtocol.h\<close>, \<^verbatim>\<open>RegistryClient\<close>, \<^verbatim>\<open>rpc_registry_server.cpp\<close>),
    \<open>Discovery\<close> (a cluster channel that follows the registry).
  \<^item> \<open>Scheduler\<close> (coroutines), \<open>AIService\<close> (\<^verbatim>\<open>AIService\<close>, \<^verbatim>\<open>TaskCoordinator\<close>), \<open>Logger\<close>, \<open>Tracing\<close>, \<open>Metrics\<close> (\<^verbatim>\<open>Histogram\<close>, \<^verbatim>\<open>Metrics\<close>), \<open>MetricsServer\<close>.

  Definitions carry the name of the function they model; where names clash they have the prefix of their class
  (\<open>tcp_handleRead\<close>, \<open>ep_updateChannel\<close>, \<open>ts_setMessageCallback\<close>). A method with several critical sections is one definition per section
  (\<open>coSleep_park\<close>, \<open>coSleep_switch\<close>).

  \<^bold>\<open>What is shown.\<close>

  \<^item> Wire: headers and values survive encoding on any host and decoding on any other, decoding stops within its bounds on
    any input, unknown fields are skipped, the framer reassembles messages however the stream is cut and is equal to a
    reference parser.
  \<^item> Connections: what is written is a prefix of the messages in order, and two connections deliver messages in order and
    unchanged. Functors run once, in order, a wake-up is not lost, timers fire when due, both pollers watch exactly the interest of
    their channels. The server's table holds exactly the open connections once the loops are idle.
  \<^item> Calls: in every execution the done callback of a call is still owed or has run once, never lost and never run twice (channel,
    cluster), and so is the answer to every request (server); the blocking call returns, and a call through both ends gives the
    result of the handler.
  \<^item> Limits: requests in flight never exceed the limit under any interleaving of threads, retries never exceed their budget, attempts are
    bounded, an open breaker admits one probe; balancing is fair, and a removed instance moves only its own keys.
  \<^item> Registry: a lookup gives exactly the instances whose lease has not expired, watches fire once and on every change, a
    registry behind the wire behaves as the local one, clusters follow it.
  \<^item> Services: coroutines, AI tasks and log lines are neither lost nor duplicated; pooled buffers are not shared; the
    metrics text counts what happened.

  Lemmas that no property names show where the code does something else than it means to: for example
  \<open>idle_check_single_loop\<close>, \<open>stop_uses_destroyed_loop\<close> (\<open>TcpServer\<close>), \<open>coroutine_on_two_workers\<close>, \<open>stop_never_joins\<close> (\<open>Scheduler\<close>),
  \<open>quit_before_loop\<close> (\<open>SyncCall\<close>), \<open>retry_after_completion\<close>, \<open>cluster_probe_lost\<close> (\<open>RpcClusterChannel\<close>), \<open>discovery_misses_update\<close> (\<open>Discovery\<close>).

  \<^bold>\<open>Bounds and fuel.\<close> No definition takes fuel: a loop of the source that ends by the answers of the system is a recursion over
  the list of these answers, and every other loop is a terminating recursion. An event loop is a recursion over the list of
  its turns. Hypotheses of the form \<open>n < 2 ^ 32\<close> or \<open>n < 2 ^ 64\<close> keep a counter of that width from wrapping around; where
  the code wraps earlier, that is stated.

  \<^bold>\<open>Not modelled.\<close> The demo programs and the argument parsing, wiring and output of \<^verbatim>\<open>main.cpp\<close> and
  \<^verbatim>\<open>rpc_registry_server.cpp\<close>: they only read arguments, call the components and print. \<^verbatim>\<open>Poller.cpp\<close>, which chooses a poller by
  platform. Of the scheduler, the switch of stacks (\<^verbatim>\<open>ucontext\<close>), which is the step that moves a coroutine on and off a worker; of
  the cluster channel, \<^verbatim>\<open>setLoadBalancer\<close>, since the balancer is a parameter of an attempt. Memory is modelled where sharing matters
  (pooled buffers, connection objects); the lifetime of shared pointers is otherwise that of the values. Atomics are
  sequentially consistent.
\<close>

end
